(* ===== verification/Prelude.thy ===== *)
theory Prelude
  imports Main "HOL-Library.Word"
begin

unbundle bit_operations_syntax

text \<open>
  Shared vocabulary of the development: names for the machine integers the Rust sources use,
  results as sums (\<open>Inl\<close> is Rust's \<open>Err\<close>, \<open>Inr\<close> its \<open>Ok\<close>), the little- and big-endian byte
  encodings of the standard library's \<open>to_le_bytes\<close>/\<open>from_le_bytes\<close>, and list lemmas the
  component theories use.

  A Rust \<open>usize\<close> or \<open>Vec\<close> length is a \<open>nat\<close>; where the code's behaviour depends on the
  64-bit width (\<open>checked_add\<close>, \<open>wrapping_sub\<close>) the bound \<open>USIZE_MAX\<close> is written out. A signed
  \<open>i16\<close>, \<open>i32\<close> or \<open>i64\<close> is the word of its width, read through \<open>sint\<close>.
\<close>

section \<open>Machine integers\<close>

type_synonym u8 = "8 word"
type_synonym u16 = "16 word"
type_synonym u32 = "32 word"
type_synonym u64 = "64 word"
type_synonym i16 = "16 word"
type_synonym i32 = "32 word"
type_synonym i64 = "64 word"
type_synonym bytes = "8 word list"

definition USIZE_MAX :: nat where
  "USIZE_MAX = 2 ^ 64 - 1"

text \<open>\<open>usize::checked_add\<close>: \<open>None\<close> when the sum does not fit 64 bits.\<close>

definition checked_add :: "nat \<Rightarrow> nat \<Rightarrow> nat option" where
  "checked_add a b = (if a + b \<le> USIZE_MAX then Some (a + b) else None)"

section \<open>Collections of facts\<close>

named_theorems codec_defs \<open>definitions of message readers and writers\<close>
named_theorems parse_iff \<open>when a parser succeeds, as an equivalence\<close>
named_theorems exact_intros \<open>parsers that consume an exact number of bytes\<close>

section \<open>Byte encodings of unsigned integers\<close>

primrec nat_le :: "nat \<Rightarrow> nat \<Rightarrow> bytes" where
  "nat_le 0 k = []"
| "nat_le (Suc n) k = word_of_nat k # nat_le n (k div 256)"

primrec le_nat :: "bytes \<Rightarrow> nat" where
  "le_nat [] = 0"
| "le_nat (b # bs) = unat b + 256 * le_nat bs"

definition le_bytes :: "nat \<Rightarrow> 'a::len word \<Rightarrow> bytes" where
  "le_bytes n w = nat_le n (unat w)"

definition le_word :: "bytes \<Rightarrow> 'a::len word" where
  "le_word bs = word_of_nat (le_nat bs)"

definition be_word :: "bytes \<Rightarrow> 'a::len word" where
  "be_word bs = le_word (rev bs)"

lemma length_nat_le [simp]: "length (nat_le n k) = n"
  by (induction n arbitrary: k) auto

lemma le_nat_bound: "le_nat bs < 256 ^ length bs"
proof (induction bs)
  case Nil
  then show ?case by simp
next
  case (Cons b bs)
  have "unat b < 256"
    using unsigned_less [of b] by simp
  with Cons show ?case by simp
qed

lemma le_nat_nat_le: "k < 256 ^ n \<Longrightarrow> le_nat (nat_le n k) = k"
proof (induction n arbitrary: k)
  case 0
  then show ?case by simp
next
  case (Suc n)
  then have "k div 256 < 256 ^ n"
    by (simp add: less_mult_imp_div_less mult.commute)
  then show ?case
    by (simp add: Suc.IH unat_of_nat)
qed

lemma nat_le_le_nat: "nat_le (length bs) (le_nat bs) = bs"
proof (induction bs)
  case Nil
  then show ?case by simp
next
  case (Cons b bs)
  have b: "unat b < 256"
    using unsigned_less [of b] by simp
  have "(word_of_nat (unat b + 256 * le_nat bs) :: u8) = word_of_nat (unat b)"
    by (simp only: word_of_nat_eq_iff) (simp add: take_bit_eq_mod)
  with b Cons show ?case by simp
qed

lemma length_le_bytes [simp]: "length (le_bytes n w) = n"
  by (simp add: le_bytes_def)

lemma le_word_le_bytes:
  assumes "LENGTH('a::len) = 8 * n"
  shows "le_word (le_bytes n w) = (w :: 'a word)"
proof -
  have "unat w < 256 ^ n"
    using unsigned_less [of w] assms by (simp add: power_mult)
  then show ?thesis
    by (simp add: le_word_def le_bytes_def le_nat_nat_le)
qed

lemma le_bytes_le_word:
  assumes "LENGTH('a::len) = 8 * n" and "length bs = n"
  shows "le_bytes n (le_word bs :: 'a word) = bs"
proof -
  have "le_nat bs < 2 ^ LENGTH('a)"
    using le_nat_bound [of bs] assms by (simp add: power_mult)
  then have "unat (le_word bs :: 'a word) = le_nat bs"
    by (simp add: le_word_def unat_of_nat)
  with assms nat_le_le_nat [of bs] show ?thesis
    by (simp add: le_bytes_def)
qed

lemma le_bytes_append_eq:
  assumes "LENGTH('a::len) = 8 * n"
  shows "le_bytes n (v :: 'a word) @ xs = le_bytes n w @ ys \<longleftrightarrow> v = w \<and> xs = ys"
  by (metis append_eq_append_conv assms le_word_le_bytes length_le_bytes)

lemma le_bytes_inj:
  assumes "LENGTH('a::len) = 8 * n"
  shows "le_bytes n (v :: 'a word) = le_bytes n w \<longleftrightarrow> v = w"
  using le_bytes_append_eq [OF assms, of v "[]" w "[]"] by simp

text \<open>The fixed widths the wire formats use.\<close>

abbreviation u16_le :: "u16 \<Rightarrow> bytes" where "u16_le \<equiv> le_bytes 2"
abbreviation u32_le :: "u32 \<Rightarrow> bytes" where "u32_le \<equiv> le_bytes 4"
abbreviation u64_le :: "u64 \<Rightarrow> bytes" where "u64_le \<equiv> le_bytes 8"

lemmas le_bytes_widths [simp] =
  le_word_le_bytes [where 'a = 16 and n = 2, simplified]
  le_word_le_bytes [where 'a = 32 and n = 4, simplified]
  le_word_le_bytes [where 'a = 64 and n = 8, simplified]
  le_bytes_append_eq [where 'a = 16 and n = 2, simplified]
  le_bytes_append_eq [where 'a = 32 and n = 4, simplified]
  le_bytes_append_eq [where 'a = 64 and n = 8, simplified]
  le_bytes_inj [where 'a = 16 and n = 2, simplified]
  le_bytes_inj [where 'a = 32 and n = 4, simplified]
  le_bytes_inj [where 'a = 64 and n = 8, simplified]

section \<open>Results\<close>

text \<open>Rust's \<open>?\<close> on a \<open>Result\<close>: propagate the error, continue with the value.\<close>

definition bindE :: "'e + 'a \<Rightarrow> ('a \<Rightarrow> 'e + 'b) \<Rightarrow> 'e + 'b" where
  "bindE x f = (case x of Inl e \<Rightarrow> Inl e | Inr v \<Rightarrow> f v)"

lemma bindE_simps [simp]:
  "bindE (Inl e) f = Inl e"
  "bindE (Inr v) f = f v"
  by (simp_all add: bindE_def)

lemma bindE_eq_Inr: "bindE x f = Inr w \<longleftrightarrow> (\<exists>v. x = Inr v \<and> f v = Inr w)"
  by (cases x) auto

end
