(* ===== verification/Reader.thy ===== *)
theory Reader
  imports Prelude
begin

text \<open>
  The panic-free reader over untrusted input,
  \<open>shakenfist-spice-protocol/src/reader.rs\<close> (\<open>LinkError\<close>, \<open>BoundedReader\<close>), and the
  offset helpers of \<open>src/parse.rs\<close>.

  A method on \<open>&mut BoundedReader\<close> is a \<open>parser\<close>: it takes the reader and returns either the
  error or the value and the advanced reader. After an error the sources never use the reader
  again (every caller propagates the error with \<open>?\<close>), so the error case carries no reader.
  \<open>bindP\<close> is the sequencing that \<open>?\<close> gives.
\<close>

section \<open>Errors\<close>

datatype link_error =
    Truncated (needed: nat) (available: nat)
  | TooLarge string nat nat
  | BadOffset nat nat nat
  | PointerIntoFixedPart nat nat
  | Unsupported string
  | BadMagic bytes
  | UnsupportedVersion u32 u32
  | UnsupportedAuthMechanism u32
  | DecryptFailed
  | BadUtf8
  | BadKeyLength nat
  | MissingRequiredCaps string "string list" "u32 list"

datatype io_error_kind = UnexpectedEof | InvalidData

definition io_error_of_link_error :: "link_error \<Rightarrow> io_error_kind" where
  "io_error_of_link_error e =
     (case e of Truncated _ _ \<Rightarrow> UnexpectedEof | _ \<Rightarrow> InvalidData)"

section \<open>The reader\<close>

record bounded_reader =
  rd_data :: bytes
  rd_pos :: nat

type_synonym 'a parser = "bounded_reader \<Rightarrow> link_error + ('a \<times> bounded_reader)"

definition reader_new :: "bytes \<Rightarrow> bounded_reader" where
  "reader_new d = \<lparr>rd_data = d, rd_pos = 0\<rparr>"

definition remaining :: "bounded_reader \<Rightarrow> nat" where
  "remaining r = length (rd_data r) - rd_pos r"

definition position :: "bounded_reader \<Rightarrow> nat" where
  "position r = rd_pos r"

definition read_bytes :: "nat \<Rightarrow> bytes parser" where
  "read_bytes n r =
     (let available = remaining r in
      if n > available then Inl (Truncated n available)
      else Inr (take n (drop (rd_pos r) (rd_data r)), r\<lparr>rd_pos := rd_pos r + n\<rparr>))"

definition bindP :: "'a parser \<Rightarrow> ('a \<Rightarrow> 'b parser) \<Rightarrow> 'b parser" where
  "bindP p f r = (case p r of Inl e \<Rightarrow> Inl e | Inr (v, r') \<Rightarrow> f v r')"

definition retP :: "'a \<Rightarrow> 'a parser" where
  "retP v r = Inr (v, r)"

definition failP :: "link_error \<Rightarrow> 'a parser" where
  "failP e r = Inl e"

definition read_array :: "nat \<Rightarrow> bytes parser" where
  "read_array n = bindP (read_bytes n) retP"

definition read_u8 :: "u8 parser" where
  "read_u8 = bindP (read_array 1) (\<lambda>a. retP (a ! 0))"

definition read_u16 :: "u16 parser" where
  "read_u16 = bindP (read_array 2) (\<lambda>a. retP (le_word a))"

definition read_u32 :: "u32 parser" where
  "read_u32 = bindP (read_array 4) (\<lambda>a. retP (le_word a))"

definition read_i16 :: "i16 parser" where
  "read_i16 = bindP (read_array 2) (\<lambda>a. retP (le_word a))"

definition read_i32 :: "i32 parser" where
  "read_i32 = bindP (read_array 4) (\<lambda>a. retP (le_word a))"

definition read_u64 :: "u64 parser" where
  "read_u64 = bindP (read_array 8) (\<lambda>a. retP (le_word a))"

text \<open>The \<open>for _ in 0..count { out.push(read(r)?) }\<close> loop.\<close>

primrec read_times :: "nat \<Rightarrow> 'a parser \<Rightarrow> 'a list parser" where
  "read_times 0 p = retP []"
| "read_times (Suc n) p = bindP p (\<lambda>v. bindP (read_times n p) (\<lambda>vs. retP (v # vs)))"

definition read_vec_u32 :: "nat \<Rightarrow> nat \<Rightarrow> u32 list parser" where
  "read_vec_u32 count mx =
     (if count > mx then failP (TooLarge ''count'' count mx) else read_times count read_u32)"

definition check_count :: "string \<Rightarrow> nat \<Rightarrow> nat \<Rightarrow> unit parser" where
  "check_count what count sz r =
     (let room = (if sz = 0 then USIZE_MAX else remaining r div sz) in
      if count > room then Inl (TooLarge what count room) else Inr ((), r))"

definition slice_at :: "bounded_reader \<Rightarrow> nat \<Rightarrow> nat \<Rightarrow> link_error + bytes" where
  "slice_at r offset len =
     (let buffer_len = length (rd_data r) in
      case checked_add offset len of
        Some e \<Rightarrow>
          (if e \<le> buffer_len then Inr (take len (drop offset (rd_data r)))
           else Inl (BadOffset offset len buffer_len))
      | None \<Rightarrow> Inl (BadOffset offset len buffer_len))"

definition sub_reader :: "bounded_reader \<Rightarrow> nat \<Rightarrow> nat \<Rightarrow> link_error + bounded_reader" where
  "sub_reader r offset len = bindE (slice_at r offset len) (\<lambda>s. Inr (reader_new s))"

text \<open>\<open>let n = r.remaining()\<close> inside a parse.\<close>

definition get_remaining :: "nat parser" where
  "get_remaining r = Inr (remaining r, r)"

section \<open>Offset reads of \<open>parse.rs\<close>\<close>

text \<open>These index the slice directly; \<open>None\<close> is the out-of-bounds panic.\<close>

definition read_u16_le :: "bytes \<Rightarrow> nat \<Rightarrow> u16 option" where
  "read_u16_le d off =
     (if off + 2 \<le> length d then Some (le_word [d ! off, d ! (off + 1)]) else None)"

definition read_u32_le :: "bytes \<Rightarrow> nat \<Rightarrow> u32 option" where
  "read_u32_le d off =
     (if off + 4 \<le> length d
      then Some (le_word [d ! off, d ! (off + 1), d ! (off + 2), d ! (off + 3)]) else None)"

definition read_i32_le :: "bytes \<Rightarrow> nat \<Rightarrow> i32 option" where
  "read_i32_le d off =
     (if off + 4 \<le> length d
      then Some (le_word [d ! off, d ! (off + 1), d ! (off + 2), d ! (off + 3)]) else None)"

definition read_u64_le :: "bytes \<Rightarrow> nat \<Rightarrow> u64 option" where
  "read_u64_le d off =
     (if off + 8 \<le> length d
      then Some (le_word [d ! off, d ! (off + 1), d ! (off + 2), d ! (off + 3),
                          d ! (off + 4), d ! (off + 5), d ! (off + 6), d ! (off + 7)]) else None)"

section \<open>Readers split at their position\<close>

text \<open>
  Every reader a program can build satisfies \<open>wf_reader\<close>, and every such reader is \<open>at pre xs\<close>:
  \<open>pre\<close> has been consumed and \<open>xs\<close> is still to come. Parser lemmas are stated on that form, so
  that the simplifier can run a whole message reader symbolically.
\<close>

definition wf_reader :: "bounded_reader \<Rightarrow> bool" where
  "wf_reader r \<longleftrightarrow> rd_pos r \<le> length (rd_data r)"

definition at :: "bytes \<Rightarrow> bytes \<Rightarrow> bounded_reader" where
  "at pre xs = \<lparr>rd_data = pre @ xs, rd_pos = length pre\<rparr>"

lemma reader_new_at: "reader_new d = at [] d"
  by (simp add: reader_new_def at_def)

lemma wf_reader_at [simp]: "wf_reader (at pre xs)"
  by (simp add: wf_reader_def at_def)

lemma wf_reader_cases:
  assumes "wf_reader r"
  obtains pre xs where "r = at pre xs"
proof
  show "r = at (take (rd_pos r) (rd_data r)) (drop (rd_pos r) (rd_data r))"
    using assms by (cases r) (simp add: at_def wf_reader_def)
qed

lemma at_inject [simp]: "at pre xs = at pre' xs' \<longleftrightarrow> pre = pre' \<and> xs = xs'"
  by (auto simp: at_def)

lemma remaining_at [simp]: "remaining (at pre xs) = length xs"
  by (simp add: remaining_def at_def)

lemma rd_data_at [simp]: "rd_data (at pre xs) = pre @ xs"
  by (simp add: at_def)

lemma rd_pos_at [simp]: "rd_pos (at pre xs) = length pre"
  by (simp add: at_def)

lemma read_bytes_at:
  "read_bytes n (at pre xs) =
     (if n \<le> length xs then Inr (take n xs, at (pre @ take n xs) (drop n xs))
      else Inl (Truncated n (length xs)))"
  by (auto simp: read_bytes_def at_def remaining_def Let_def)

lemma retP_at [simp]: "retP v r = Inr (v, r)"
  by (simp add: retP_def)

lemma get_remaining_at [simp]: "get_remaining (at pre xs) = Inr (length xs, at pre xs)"
  by (simp add: get_remaining_def)

lemma bindP_Inr [simp]: "p r = Inr (v, r') \<Longrightarrow> bindP p f r = f v r'"
  by (simp add: bindP_def)

lemma bindP_Inl [simp]: "p r = Inl e \<Longrightarrow> bindP p f r = Inl e"
  by (simp add: bindP_def)

lemma bindP_iff [parse_iff]:
  "bindP p f r = Inr x \<longleftrightarrow> (\<exists>v r'. p r = Inr (v, r') \<and> f v r' = Inr x)"
  by (auto simp: bindP_def split: sum.splits)

lemma retP_iff [parse_iff]: "retP v r = Inr (w, r') \<longleftrightarrow> w = v \<and> r' = r"
  by auto

section \<open>Exact-size parsers\<close>

text \<open>
  \<open>exact p n\<close>: on every input, \<open>p\<close> succeeds exactly when \<open>n\<close> bytes remain, consumes those, and
  otherwise reports truncation. It composes along \<open>bindP\<close>.
\<close>

definition exact :: "'a parser \<Rightarrow> nat \<Rightarrow> bool" where
  "exact p n \<longleftrightarrow> (\<forall>pre xs.
     (n \<le> length xs \<longrightarrow> (\<exists>v. p (at pre xs) = Inr (v, at (pre @ take n xs) (drop n xs)))) \<and>
     (length xs < n \<longrightarrow> (\<exists>k a. p (at pre xs) = Inl (Truncated k a))))"

lemma exactD_Inr:
  "exact p n \<Longrightarrow> n \<le> length xs \<Longrightarrow> \<exists>v. p (at pre xs) = Inr (v, at (pre @ take n xs) (drop n xs))"
  by (simp add: exact_def)

lemma exactD_Inl: "exact p n \<Longrightarrow> length xs < n \<Longrightarrow> \<exists>k a. p (at pre xs) = Inl (Truncated k a)"
  by (simp add: exact_def)

lemma exact_retP [exact_intros]: "exact (retP v) 0"
  by (simp add: exact_def)

lemma exact_read_bytes [exact_intros]: "exact (read_bytes n) n"
  by (simp add: exact_def read_bytes_at)

lemma exact_bindP [exact_intros]:
  assumes p: "exact p n" and f: "\<And>v. exact (f v) m"
  shows "exact (bindP p f) (n + m)"
  unfolding exact_def
proof (intro allI conjI impI)
  fix pre xs :: bytes
  assume le: "n + m \<le> length xs"
  then obtain v where v: "p (at pre xs) = Inr (v, at (pre @ take n xs) (drop n xs))"
    using exactD_Inr [OF p, of xs pre] by auto
  from le have "m \<le> length (drop n xs)" by simp
  from exactD_Inr [OF f this] obtain w where
    "f v (at (pre @ take n xs) (drop n xs)) =
       Inr (w, at ((pre @ take n xs) @ take m (drop n xs)) (drop m (drop n xs)))"
    by blast
  with v show "\<exists>w. bindP p f (at pre xs) = Inr (w, at (pre @ take (n + m) xs) (drop (n + m) xs))"
    by (auto simp: take_add add.commute [of m n])
next
  fix pre xs :: bytes
  assume lt: "length xs < n + m"
  show "\<exists>k a. bindP p f (at pre xs) = Inl (Truncated k a)"
  proof (cases "length xs < n")
    case True
    with exactD_Inl [OF p this, of pre] show ?thesis by auto
  next
    case False
    then obtain v where v: "p (at pre xs) = Inr (v, at (pre @ take n xs) (drop n xs))"
      using exactD_Inr [OF p, of xs pre] by auto
    have "length (drop n xs) < m" using lt False by simp
    with exactD_Inl [OF f this] v show ?thesis by fastforce
  qed
qed

lemma exact_read_array [exact_intros]: "exact (read_array n) n"
  unfolding read_array_def by (rule exact_bindP [OF exact_read_bytes exact_retP, simplified])

lemma exact_read_u8 [exact_intros]: "exact read_u8 1"
  unfolding read_u8_def by (rule exact_bindP [OF exact_read_array exact_retP, simplified])

lemma exact_read_u16 [exact_intros]: "exact read_u16 2"
  unfolding read_u16_def by (rule exact_bindP [OF exact_read_array exact_retP, simplified])

lemma exact_read_i16 [exact_intros]: "exact read_i16 2"
  unfolding read_i16_def by (rule exact_bindP [OF exact_read_array exact_retP, simplified])

lemma exact_read_u32 [exact_intros]: "exact read_u32 4"
  unfolding read_u32_def by (rule exact_bindP [OF exact_read_array exact_retP, simplified])

lemma exact_read_i32 [exact_intros]: "exact read_i32 4"
  unfolding read_i32_def by (rule exact_bindP [OF exact_read_array exact_retP, simplified])

lemma exact_read_u64 [exact_intros]: "exact read_u64 8"
  unfolding read_u64_def by (rule exact_bindP [OF exact_read_array exact_retP, simplified])

section \<open>Integer reads invert the little-endian writers\<close>

lemma read_array_iff [parse_iff]:
  "read_array n (at pre xs) = Inr (v, r') \<longleftrightarrow>
     (\<exists>post. length v = n \<and> xs = v @ post \<and> r' = at (pre @ v) post)"
  by (auto simp: read_array_def bindP_iff read_bytes_at split: if_splits)

lemma read_u8_iff [parse_iff]:
  "read_u8 (at pre xs) = Inr (v, r') \<longleftrightarrow> (\<exists>post. xs = v # post \<and> r' = at (pre @ [v]) post)"
  by (auto simp: read_u8_def bindP_iff read_array_iff length_Suc_conv)

lemma read_word_iff:
  assumes "LENGTH('a::len) = 8 * n"
  shows "bindP (read_array n) (\<lambda>a. retP (le_word a :: 'a word)) (at pre xs) = Inr (v, r') \<longleftrightarrow>
     (\<exists>post. xs = le_bytes n v @ post \<and> r' = at (pre @ le_bytes n v) post)"
  using le_word_le_bytes [OF assms] le_bytes_le_word [OF assms]
  by (auto simp: bindP_iff read_array_iff)

lemmas read_ints_iff [parse_iff] =
  read_word_iff [where 'a = 16 and n = 2, folded read_u16_def, simplified]
  read_word_iff [where 'a = 16 and n = 2, folded read_i16_def, simplified]
  read_word_iff [where 'a = 32 and n = 4, folded read_u32_def, simplified]
  read_word_iff [where 'a = 32 and n = 4, folded read_i32_def, simplified]
  read_word_iff [where 'a = 64 and n = 8, folded read_u64_def, simplified]

lemma check_count_at [simp]:
  "0 < sz \<Longrightarrow> check_count what count sz (at pre xs) =
     (if count \<le> length xs div sz then Inr ((), at pre xs)
      else Inl (TooLarge what count (length xs div sz)))"
  by (simp add: check_count_def)

end
