(* ===== verification/Wire.thy ===== *)
theory Wire
  imports Reader
begin

text \<open>
  The \<open>WireType\<close> trait of \<open>shakenfist-spice-protocol/src/messages/mod.rs\<close>: a reader and a writer
  for one message body, with \<open>decode\<close> for a whole body.

  The trait's contract is stated as four locales, from the weakest to the strongest:
  \<^item> \<open>wire_body\<close>: a body that runs to the end of the message reads back as written;
  \<^item> \<open>wire_type\<close>: the same with arbitrary bytes after it, all of which are left unread;
  \<^item> \<open>wire_codec\<close>: the reader succeeds exactly on what the writer can produce;
  \<^item> \<open>fixed_wire\<close>: moreover the encoding has a fixed size, and a shorter body is \<open>Truncated\<close>.
  Each message type interprets the strongest one it satisfies. \<open>ok\<close> is the range of values a
  writer must be given (\<open>WireType::write\<close>: "callers must keep bodies within the wire's limits").
\<close>

definition decode :: "'a parser \<Rightarrow> bytes \<Rightarrow> link_error + 'a" where
  "decode rd body = (case rd (reader_new body) of Inl e \<Rightarrow> Inl e | Inr (v, _) \<Rightarrow> Inr v)"

lemma decode_Inr [simp]: "rd (at [] body) = Inr (v, r') \<Longrightarrow> decode rd body = Inr v"
  by (simp add: decode_def reader_new_at)

lemma decode_Inl [simp]: "rd (at [] body) = Inl e \<Longrightarrow> decode rd body = Inl e"
  by (simp add: decode_def reader_new_at)

lemma decode_eq_InrD: "decode rd body = Inr v \<Longrightarrow> \<exists>r'. rd (at [] body) = Inr (v, r')"
  by (auto simp: decode_def reader_new_at split: sum.splits)

section \<open>The contract\<close>

locale wire_body =
  fixes rd :: "'a parser" and wr :: "'a \<Rightarrow> bytes" and ok :: "'a \<Rightarrow> bool"
  assumes body_roundtrip: "ok v \<Longrightarrow> rd (at pre (wr v)) = Inr (v, at (pre @ wr v) [])"
begin

lemma decode_wr: "ok v \<Longrightarrow> decode rd (wr v) = Inr v"
  using body_roundtrip [of v "[]"] by simp

lemma wr_inj: "ok v \<Longrightarrow> ok w \<Longrightarrow> wr v = wr w \<Longrightarrow> v = w"
  by (metis decode_wr sum.inject(2))

end

locale wire_type =
  fixes rd :: "'a parser" and wr :: "'a \<Rightarrow> bytes" and ok :: "'a \<Rightarrow> bool"
  assumes roundtrip: "ok v \<Longrightarrow> rd (at pre (wr v @ post)) = Inr (v, at (pre @ wr v) post)"
begin

lemma decode_trailing: "ok v \<Longrightarrow> decode rd (wr v @ post) = Inr v"
  using roundtrip [of v "[]" post] by simp

lemma wr_prefix_free: "ok v \<Longrightarrow> ok w \<Longrightarrow> wr v @ xs = wr w @ ys \<Longrightarrow> v = w \<and> xs = ys"
  using roundtrip [of v "[]" xs] roundtrip [of w "[]" ys]
  by (metis append_Nil at_inject prod.inject sum.inject(2))

lemma read_times_wr:
  "list_all ok vs \<Longrightarrow>
     read_times (length vs) rd (at pre (concat (map wr vs) @ post)) =
       Inr (vs, at (pre @ concat (map wr vs)) post)"
  by (induction vs arbitrary: pre) (simp_all add: roundtrip)

end

sublocale wire_type \<subseteq> wire_body
  by unfold_locales (use roundtrip [where post = "[]"] in simp)

locale wire_codec =
  fixes rd :: "'a parser" and wr :: "'a \<Rightarrow> bytes"
  assumes rd_iff:
    "rd (at pre xs) = Inr (v, r') \<longleftrightarrow> (\<exists>post. xs = wr v @ post \<and> r' = at (pre @ wr v) post)"
begin

lemma decode_iff: "decode rd body = Inr v \<longleftrightarrow> (\<exists>post. body = wr v @ post)"
  by (auto dest!: decode_eq_InrD simp: rd_iff)

lemma wr_append_eq: "wr v @ xs = wr w @ ys \<longleftrightarrow> v = w \<and> xs = ys"
proof
  assume "wr v @ xs = wr w @ ys"
  moreover have "rd (at [] (wr v @ xs)) = Inr (v, at (wr v) xs)"
    and "rd (at [] (wr w @ ys)) = Inr (w, at (wr w) ys)"
    by (simp_all add: rd_iff)
  ultimately show "v = w \<and> xs = ys"
    by (metis at_inject prod.inject sum.inject(2))
qed simp

end

sublocale wire_codec \<subseteq> wire_type rd wr "\<lambda>_. True"
  by unfold_locales (simp add: rd_iff)

context wire_codec
begin

lemma read_times_InrD:
  "read_times n rd (at pre xs) = Inr (vs, r') \<Longrightarrow>
     \<exists>post. length vs = n \<and> xs = concat (map wr vs) @ post \<and>
            r' = at (pre @ concat (map wr vs)) post"
proof (induction n arbitrary: pre xs vs r')
  case 0
  then show ?case by auto
next
  case (Suc n)
  from Suc.prems obtain v r1 ws r2 where v: "rd (at pre xs) = Inr (v, r1)"
    and ws: "read_times n rd r1 = Inr (ws, r2)" and vs: "vs = v # ws" "r' = r2"
    by (auto simp: bindP_iff)
  from v obtain mid where mid: "xs = wr v @ mid" "r1 = at (pre @ wr v) mid"
    by (auto simp: rd_iff)
  from Suc.IH [OF ws [unfolded mid(2)]] mid(1) vs show ?case by auto
qed

lemma read_times_iff:
  "read_times n rd (at pre xs) = Inr (vs, r') \<longleftrightarrow>
     (\<exists>post. length vs = n \<and> xs = concat (map wr vs) @ post \<and>
             r' = at (pre @ concat (map wr vs)) post)"
  using read_times_InrD [of n pre xs vs r'] read_times_wr [of vs pre]
  by (auto simp: list_all_iff)

end

locale fixed_wire = wire_codec +
  fixes sz :: nat
  assumes exact_rd: "exact rd sz"
begin

lemma length_wr: "length (wr v) = sz"
proof -
  have rd: "rd (at [] (wr v)) = Inr (v, at (wr v) [])"
    by (simp add: rd_iff)
  show ?thesis
  proof (cases "length (wr v) < sz")
    case True
    with rd exactD_Inl [OF exact_rd this, of "[]"] show ?thesis by simp
  next
    case False
    with rd exactD_Inr [OF exact_rd, of "wr v" "[]"] show ?thesis by simp
  qed
qed

lemma decode_succeeds_iff: "(\<exists>v. decode rd body = Inr v) \<longleftrightarrow> sz \<le> length body"
proof
  assume "\<exists>v. decode rd body = Inr v"
  then show "sz \<le> length body"
    by (auto simp: decode_iff length_wr)
next
  assume "sz \<le> length body"
  from exactD_Inr [OF exact_rd this, of "[]"] show "\<exists>v. decode rd body = Inr v"
    by (auto intro: decode_Inr)
qed

lemma decode_short: "length body < sz \<Longrightarrow> \<exists>k a. decode rd body = Inl (Truncated k a)"
  using exactD_Inl [OF exact_rd, of body "[]"] by (auto intro: decode_Inl)

lemma decode_canonical: "decode rd body = Inr v \<Longrightarrow> take sz body = wr v"
  by (auto simp: decode_iff length_wr)

lemma wr_surj: "length body = sz \<Longrightarrow> \<exists>v. wr v = body"
  using decode_succeeds_iff [of body] by (auto simp: decode_iff length_wr)

end

section \<open>Automation for the message theories\<close>

text \<open>
  One rule per primitive read, so that the simplifier can add up the size of a reader.
\<close>

lemma exact_retP_iff [simp]: "exact (retP v) n \<longleftrightarrow> n = 0"
proof
  assume ex: "exact (retP v) n"
  show "n = 0"
    using exactD_Inl [OF ex, of "[]" "[]"] by (cases n) auto
qed (simp add: exact_retP)

lemma exact_bindPI:
  "exact p n \<Longrightarrow> n \<le> k \<Longrightarrow> (\<And>v. exact (f v) (k - n)) \<Longrightarrow> exact (bindP p f) k"
  using exact_bindP [of p n f "k - n"] by simp

lemmas exact_steps [simp] =
  exact_bindPI [OF exact_read_u8] exact_bindPI [OF exact_read_u16]
  exact_bindPI [OF exact_read_i16] exact_bindPI [OF exact_read_u32]
  exact_bindPI [OF exact_read_i32] exact_bindPI [OF exact_read_u64]
  exact_bindPI [OF exact_read_array]

text \<open>The reads themselves, run forwards on a written body.\<close>

lemma read_forward [simp]:
  "read_u8 (at pre (a # post)) = Inr (a, at (pre @ [a]) post)"
  "read_u16 (at pre (u16_le b @ post)) = Inr (b, at (pre @ u16_le b) post)"
  "read_i16 (at pre (u16_le b @ post)) = Inr (b, at (pre @ u16_le b) post)"
  "read_u32 (at pre (u32_le c @ post)) = Inr (c, at (pre @ u32_le c) post)"
  "read_i32 (at pre (u32_le c @ post)) = Inr (c, at (pre @ u32_le c) post)"
  "read_u64 (at pre (u64_le d @ post)) = Inr (d, at (pre @ u64_le d) post)"
  by (simp_all add: parse_iff)

lemma read_forward_end [simp]:
  "read_u16 (at pre (u16_le b)) = Inr (b, at (pre @ u16_le b) [])"
  "read_i16 (at pre (u16_le b)) = Inr (b, at (pre @ u16_le b) [])"
  "read_u32 (at pre (u32_le c)) = Inr (c, at (pre @ u32_le c) [])"
  "read_i32 (at pre (u32_le c)) = Inr (c, at (pre @ u32_le c) [])"
  "read_u64 (at pre (u64_le d)) = Inr (d, at (pre @ u64_le d) [])"
  by (simp_all add: parse_iff)

lemma read_bytes_forward [simp]:
  "n = length bs \<Longrightarrow> read_bytes n (at pre (bs @ post)) = Inr (bs, at (pre @ bs) post)"
  "n = length bs \<Longrightarrow> read_bytes n (at pre bs) = Inr (bs, at (pre @ bs) [])"
  by (simp_all add: read_bytes_at)

interpretation u16_codec: fixed_wire read_u16 u16_le 2
  by unfold_locales (simp_all add: parse_iff exact_read_u16)

interpretation u32_codec: fixed_wire read_u32 u32_le 4
  by unfold_locales (simp_all add: parse_iff exact_read_u32)

interpretation u64_codec: fixed_wire read_u64 u64_le 8
  by unfold_locales (simp_all add: parse_iff exact_read_u64)

section \<open>Guarded cursor reads\<close>

text \<open>
  Older readers of the source check the length of the data and then read the fields through an
  \<open>io::Cursor\<close>, whose only error is the end of the data.
\<close>

definition io_read :: "nat \<Rightarrow> 'a parser \<Rightarrow> bytes \<Rightarrow> io_error_kind + 'a" where
  "io_read sz p data =
     (if length data < sz then Inl UnexpectedEof
      else case decode p data of Inl e \<Rightarrow> Inl UnexpectedEof | Inr v \<Rightarrow> Inr v)"

context fixed_wire
begin

lemma io_read_Inr_iff: "io_read sz rd data = Inr v \<longleftrightarrow> (\<exists>post. data = wr v @ post)"
  by (auto simp: io_read_def decode_iff length_wr decode_trailing split: sum.splits)
    (metis append_Nil2 wr_append_eq)

lemma io_read_wr: "io_read sz rd (wr v @ post) = Inr v"
  by (simp add: io_read_Inr_iff)

lemma io_read_Inl_iff: "io_read sz rd data = Inl e \<longleftrightarrow> length data < sz \<and> e = UnexpectedEof"
  using decode_succeeds_iff [of data] by (auto simp: io_read_def split: sum.splits)

end

end
