(* ===== verification/Framing.thy ===== *)
theory Framing
  imports Prelude
begin

text \<open>
  Stream framing. Three components of the program buffer bytes as a socket delivers them and take
  complete messages off the front: \<open>ReceiveBuffer\<close> (every SPICE channel), \<open>UsbredirParser\<close> and
  \<open>MuxDemuxer\<close> (WebDAV). The specification they share is \<open>split_frames\<close>: cut the whole byte
  stream, given at once, into messages with a stateless function \<open>parse\<close>. The locale \<open>framer\<close> is
  the contract of the buffered implementation, and its lemmas show that however the stream is cut
  into reads, the implementation delivers exactly the messages, the refusal and the left-over
  bytes of the specification.
\<close>

section \<open>The specification\<close>

datatype ('m, 'e) frame = NeedMore | Frame 'm nat | Refuse 'e

function split_frames ::
  "(bytes \<Rightarrow> ('m, 'e) frame) \<Rightarrow> bytes \<Rightarrow> 'm list \<times> bytes \<times> 'e option" where
  "split_frames p xs =
     (case p xs of
        NeedMore \<Rightarrow> ([], xs, None)
      | Refuse e \<Rightarrow> ([], xs, Some e)
      | Frame m n \<Rightarrow>
          (if 0 < n \<and> n \<le> length xs
           then (let (ms, rest, e) = split_frames p (drop n xs) in (m # ms, rest, e))
           else ([], xs, None)))"
  by pat_completeness auto
termination
  by (relation "measure (\<lambda>(p, xs). length xs)") auto

declare split_frames.simps [simp del]

text \<open>
  Reads arrive as a list of chunks; each is appended and then every complete message is taken.
  The channel stops at the first refusal.
\<close>

fun run_chunks ::
  "('b \<Rightarrow> bytes \<Rightarrow> 'b) \<Rightarrow> ('b \<Rightarrow> 'm list \<times> 'b \<times> 'e option) \<Rightarrow> 'b \<Rightarrow> bytes list
     \<Rightarrow> 'm list \<times> 'b \<times> 'e option" where
  "run_chunks feed drain b [] = ([], b, None)"
| "run_chunks feed drain b (c # cs) =
     (case drain (feed b c) of
        (ms, b', Some e) \<Rightarrow> (ms, b', Some e)
      | (ms, b', None) \<Rightarrow>
          (let (ms', b'', e) = run_chunks feed drain b' cs in (ms @ ms', b'', e)))"

section \<open>The contract\<close>

locale framer =
  fixes feed :: "'b \<Rightarrow> bytes \<Rightarrow> 'b"
    and next_msg :: "'b \<Rightarrow> ('e + 'm option) \<times> 'b"
    and drain :: "'b \<Rightarrow> 'm list \<times> 'b \<times> 'e option"
    and pending :: "'b \<Rightarrow> bytes"
    and inv :: "'b \<Rightarrow> bool"
    and parse :: "bytes \<Rightarrow> ('m, 'e) frame"
  assumes inv_feed: "inv b \<Longrightarrow> inv (feed b xs)"
    and pending_feed: "inv b \<Longrightarrow> pending (feed b xs) = pending b @ xs"
    and next_need_more: "inv b \<Longrightarrow> parse (pending b) = NeedMore \<Longrightarrow> next_msg b = (Inr None, b)"
    and next_refuse: "inv b \<Longrightarrow> parse (pending b) = Refuse e \<Longrightarrow> \<exists>b'. next_msg b = (Inl e, b')"
    and next_frame: "inv b \<Longrightarrow> parse (pending b) = Frame m n \<Longrightarrow>
      \<exists>b'. next_msg b = (Inr (Some m), b') \<and> inv b' \<and> pending b' = drop n (pending b)"
    and drain_unfold: "drain b =
      (case next_msg b of
         (Inl e, b') \<Rightarrow> ([], b', Some e)
       | (Inr None, b') \<Rightarrow> ([], b', None)
       | (Inr (Some m), b') \<Rightarrow> (let (ms, b'', e) = drain b' in (m # ms, b'', e)))"
    and parse_Nil: "parse [] = NeedMore"
    and parse_consumes: "parse xs = Frame m n \<Longrightarrow> 0 < n \<and> n \<le> length xs"
    and parse_Frame_mono: "parse xs = Frame m n \<Longrightarrow> parse (xs @ ys) = Frame m n"
    and parse_Refuse_mono: "parse xs = Refuse e \<Longrightarrow> parse (xs @ ys) = Refuse e"
begin

lemma split_NeedMore: "parse xs = NeedMore \<Longrightarrow> split_frames parse xs = ([], xs, None)"
  by (subst split_frames.simps) simp

lemma split_Refuse: "parse xs = Refuse e \<Longrightarrow> split_frames parse xs = ([], xs, Some e)"
  by (subst split_frames.simps) simp

lemma split_Frame:
  "parse xs = Frame m n \<Longrightarrow>
     split_frames parse xs =
       (let (ms, rest, e) = split_frames parse (drop n xs) in (m # ms, rest, e))"
  using parse_consumes [of xs m n] by (subst split_frames.simps) simp

lemma split_rest_NeedMore:
  "split_frames parse xs = (ms, rest, None) \<Longrightarrow> parse rest = NeedMore"
proof (induction xs arbitrary: ms rest rule: length_induct)
  case (1 xs)
  show ?case
  proof (cases "parse xs")
    case NeedMore
    with "1.prems" show ?thesis by (simp add: split_NeedMore)
  next
    case (Frame m n)
    with "1.prems" obtain ms' where ms': "split_frames parse (drop n xs) = (ms', rest, None)"
      by (auto simp: split_Frame split: prod.splits)
    have "length (drop n xs) < length xs"
      using parse_consumes [OF Frame] by auto
    with "1.IH" ms' show ?thesis by blast
  next
    case (Refuse e)
    with "1.prems" show ?thesis by (simp add: split_Refuse)
  qed
qed

lemma split_append:
  "split_frames parse xs = (ms, rest, e) \<Longrightarrow>
     split_frames parse (xs @ ys) =
       (case e of
          None \<Rightarrow> (let (ms', rest', e') = split_frames parse (rest @ ys) in (ms @ ms', rest', e'))
        | Some er \<Rightarrow> (ms, rest @ ys, Some er))"
proof (induction xs arbitrary: ms rest e rule: length_induct)
  case (1 xs)
  show ?case
  proof (cases "parse xs")
    case NeedMore
    with "1.prems" show ?thesis by (simp add: split_NeedMore)
  next
    case (Frame m n)
    then obtain ms' where ms': "split_frames parse (drop n xs) = (ms', rest, e)" "ms = m # ms'"
      using "1.prems" by (auto simp: split_Frame split: prod.splits)
    have len: "length (drop n xs) < length xs" and n: "n \<le> length xs"
      using parse_consumes [OF Frame] by auto
    have "split_frames parse (xs @ ys) =
        (let (us, rest', e') = split_frames parse (drop n xs @ ys) in (m # us, rest', e'))"
      using split_Frame [OF parse_Frame_mono [OF Frame, of ys]] n by simp
    with "1.IH" [rule_format, OF len ms'(1)] ms'(2) show ?thesis
      by (auto split: option.splits prod.splits)
  next
    case (Refuse er)
    with "1.prems" show ?thesis
      by (auto simp: split_Refuse parse_Refuse_mono)
  qed
qed

lemma drain_split:
  "inv b \<Longrightarrow> \<exists>ms b' rest e.
     drain b = (ms, b', e) \<and> split_frames parse (pending b) = (ms, rest, e) \<and>
     (e = None \<longrightarrow> inv b' \<and> pending b' = rest)"
proof (induction "length (pending b)" arbitrary: b rule: less_induct)
  case less
  show ?case
  proof (cases "parse (pending b)")
    case NeedMore
    with less.prems show ?thesis
      by (subst drain_unfold) (simp add: next_need_more split_NeedMore)
  next
    case (Refuse e)
    with next_refuse [OF less.prems Refuse] show ?thesis
      by (subst drain_unfold) (auto simp: split_Refuse)
  next
    case (Frame m n)
    from next_frame [OF less.prems Frame] obtain b1 where
      b1: "next_msg b = (Inr (Some m), b1)" "inv b1" "pending b1 = drop n (pending b)"
      by blast
    have "length (pending b1) < length (pending b)"
      using parse_consumes [OF Frame] b1(3) by auto
    from less.hyps [OF this b1(2)] b1 Frame show ?thesis
      by (subst drain_unfold) (auto simp: split_Frame)
  qed
qed

text \<open>Chunking is invisible: this is what the fuzz target \<open>fuzz_receive_buffer\<close> tests.\<close>

lemma run_chunks_split:
  assumes "inv b" and "parse (pending b) = NeedMore"
    and "run_chunks feed drain b cs = (ms, b', e)"
    and "split_frames parse (pending b @ concat cs) = (ms', rest, e')"
  shows "ms = ms' \<and> e = e' \<and> (e = None \<longrightarrow> inv b' \<and> pending b' = rest)"
  using assms
proof (induction cs arbitrary: b ms ms' b' e rest e')
  case Nil
  then show ?case by (auto simp: split_NeedMore)
next
  case (Cons c cs)
  have inv_f: "inv (feed b c)" and pend_f: "pending (feed b c) = pending b @ c"
    using Cons.prems(1) by (simp_all add: inv_feed pending_feed)
  from drain_split [OF inv_f] obtain ms1 b1 rest1 e1 where
    d: "drain (feed b c) = (ms1, b1, e1)"
      "split_frames parse (pending b @ c) = (ms1, rest1, e1)"
      "e1 = None \<longrightarrow> inv b1 \<and> pending b1 = rest1"
    by (auto simp: pend_f)
  note app = split_append [OF d(2), of "concat cs"]
  show ?case
  proof (cases e1)
    case (Some er)
    with Cons.prems(3,4) d app show ?thesis by auto
  next
    case None
    with d have b1: "inv b1" "pending b1 = rest1" by auto
    have more: "parse (pending b1) = NeedMore"
      using split_rest_NeedMore d(2) None b1(2) by simp
    obtain ms2 b2 e2 where r: "run_chunks feed drain b1 cs = (ms2, b2, e2)"
      by (metis prod_cases3)
    obtain ms3 rest3 e3 where s: "split_frames parse (pending b1 @ concat cs) = (ms3, rest3, e3)"
      by (metis prod_cases3)
    from Cons.prems(3) d(1) None r have "ms = ms1 @ ms2" "b' = b2" "e = e2" by auto
    moreover from Cons.prems(4) app None s b1(2) have "ms' = ms1 @ ms3" "rest = rest3" "e' = e3"
      by auto
    ultimately show ?thesis
      using Cons.IH [OF b1(1) more r s] by simp
  qed
qed

text \<open>A stream of encoded messages is split into those messages.\<close>

lemma split_encoded:
  assumes "\<And>m xs. m \<in> set ms \<Longrightarrow> parse (enc m @ xs) = Frame m (length (enc m))"
  shows "split_frames parse (concat (map enc ms)) = (ms, [], None)"
  using assms by (induction ms) (simp_all add: split_NeedMore parse_Nil split_Frame)

lemma run_chunks_encoded:
  assumes "inv b" and "pending b = []" and "concat cs = concat (map enc ms)"
    and "\<And>m xs. m \<in> set ms \<Longrightarrow> parse (enc m @ xs) = Frame m (length (enc m))"
  shows "\<exists>b'. run_chunks feed drain b cs = (ms, b', None) \<and> inv b' \<and> pending b' = []"
proof -
  obtain us b' e where r: "run_chunks feed drain b cs = (us, b', e)"
    by (metis prod_cases3)
  have "split_frames parse (pending b @ concat cs) = (ms, [], None)"
    using assms split_encoded [of ms enc] by simp
  from run_chunks_split [OF assms(1) _ r this] assms(2) r show ?thesis
    by (simp add: parse_Nil)
qed

end

end
