(* ===== verification/Messages_Common.thy ===== *)
theory Messages_Common
  imports Wire Framing
begin

text \<open>
  Messages every channel carries and the framing around them:
  \<open>shakenfist-spice-protocol/src/messages/common.rs\<close>, with the enumerations of
  \<open>src/constants.rs\<close> it interprets.

  \<open>debug_assert!\<close>s are compiled out of release builds; the range they state is the \<open>ok\<close>
  predicate of the message's round trip. Error texts are not modelled, only error kinds.
  \<open>Notify::message_text\<close> (lossy UTF-8 decoding for display) is not modelled.
\<close>

section \<open>Enumerations\<close>

datatype notify_severity = SevInfo | SevWarn | SevError

definition NotifySeverity_from_u32 :: "u32 \<Rightarrow> notify_severity" where
  "NotifySeverity_from_u32 v =
     (if v = 0 then SevInfo else if v = 1 then SevWarn else if v = 2 then SevError else SevInfo)"

datatype spice_visibility = VisLow | VisMedium | VisHigh

definition SpiceVisibility_from_u32 :: "u32 \<Rightarrow> spice_visibility option" where
  "SpiceVisibility_from_u32 v =
     (if v = 0 then Some VisLow else if v = 1 then Some VisMedium
      else if v = 2 then Some VisHigh else None)"

datatype spice_error =
    SE_Ok | SE_Error | SE_InvalidMagic | SE_InvalidData | SE_VersionMismatch | SE_NeedSecured
  | SE_NeedUnsecured | SE_PermissionDenied | SE_BadConnectionId | SE_ChannelUnavailable

definition SpiceError_from_u32 :: "u32 \<Rightarrow> spice_error" where
  "SpiceError_from_u32 v =
     (if v = 0 then SE_Ok else if v = 1 then SE_Error else if v = 2 then SE_InvalidMagic
      else if v = 3 then SE_InvalidData else if v = 4 then SE_VersionMismatch
      else if v = 5 then SE_NeedSecured else if v = 6 then SE_NeedUnsecured
      else if v = 7 then SE_PermissionDenied else if v = 8 then SE_BadConnectionId
      else if v = 9 then SE_ChannelUnavailable else SE_Error)"

primrec SpiceError_to_u32 :: "spice_error \<Rightarrow> u32" where
  "SpiceError_to_u32 SE_Ok = 0"
| "SpiceError_to_u32 SE_Error = 1"
| "SpiceError_to_u32 SE_InvalidMagic = 2"
| "SpiceError_to_u32 SE_InvalidData = 3"
| "SpiceError_to_u32 SE_VersionMismatch = 4"
| "SpiceError_to_u32 SE_NeedSecured = 5"
| "SpiceError_to_u32 SE_NeedUnsecured = 6"
| "SpiceError_to_u32 SE_PermissionDenied = 7"
| "SpiceError_to_u32 SE_BadConnectionId = 8"
| "SpiceError_to_u32 SE_ChannelUnavailable = 9"

lemma SpiceError_from_to [simp]: "SpiceError_from_u32 (SpiceError_to_u32 e) = e"
  by (cases e) (simp_all add: SpiceError_from_u32_def)

section \<open>Message header\<close>

record message_header =
  message_type :: u16
  message_size :: u32

definition HEADER_SIZE :: nat where
  "HEADER_SIZE = 6"

definition MessageHeader_read :: "bytes \<Rightarrow> io_error_kind + message_header" where
  "MessageHeader_read d =
     (if length d < HEADER_SIZE then Inl UnexpectedEof
      else Inr \<lparr>message_type = le_word (take 2 d), message_size = le_word (take 4 (drop 2 d))\<rparr>)"

definition MessageHeader_write :: "message_header \<Rightarrow> bytes" where
  "MessageHeader_write h = u16_le (message_type h) @ u32_le (message_size h)"

definition make_message :: "u16 \<Rightarrow> bytes \<Rightarrow> bytes" where
  "make_message mt payload =
     MessageHeader_write \<lparr>message_type = mt, message_size = word_of_nat (length payload)\<rparr>
       @ payload"

lemma length_MessageHeader_write [simp]: "length (MessageHeader_write h) = 6"
  by (simp add: MessageHeader_write_def)

lemma MessageHeader_read_write [simp]:
  "MessageHeader_read (MessageHeader_write h @ xs) = Inr h"
  by (simp add: MessageHeader_read_def MessageHeader_write_def HEADER_SIZE_def)

section \<open>PING and PONG\<close>

record ping =
  ping_id :: u32
  ping_timestamp :: u64
  ping_padding_len :: nat

record pong =
  pong_id :: u32
  pong_timestamp :: u64

definition Ping_pong :: "ping \<Rightarrow> pong" where
  "Ping_pong p = \<lparr>pong_id = ping_id p, pong_timestamp = ping_timestamp p\<rparr>"

definition Ping_read :: "ping parser" where
  [codec_defs]: "Ping_read =
     bindP read_u32 (\<lambda>i. bindP read_u64 (\<lambda>t. bindP get_remaining (\<lambda>n.
       bindP (read_bytes n) (\<lambda>_.
         retP \<lparr>ping_id = i, ping_timestamp = t, ping_padding_len = n\<rparr>))))"

definition Ping_write :: "ping \<Rightarrow> bytes" where
  [codec_defs]: "Ping_write v =
     u32_le (ping_id v) @ u64_le (ping_timestamp v) @ replicate (ping_padding_len v) 0"

definition Ping_ok :: "ping \<Rightarrow> bool" where
  "Ping_ok v \<longleftrightarrow> ping_padding_len v \<le> 2 ^ 32 - 1 - 12"

definition Pong_read :: "pong parser" where
  [codec_defs]: "Pong_read =
     bindP read_u32 (\<lambda>i. bindP read_u64 (\<lambda>t. retP \<lparr>pong_id = i, pong_timestamp = t\<rparr>))"

definition Pong_write :: "pong \<Rightarrow> bytes" where
  [codec_defs]: "Pong_write v = u32_le (pong_id v) @ u64_le (pong_timestamp v)"

interpretation ping: wire_body Ping_read Ping_write Ping_ok
  by unfold_locales (simp add: codec_defs)

lemma Pong_iff [parse_iff]:
  "Pong_read (at pre xs) = Inr (v, r') \<longleftrightarrow>
     (\<exists>post. xs = Pong_write v @ post \<and> r' = at (pre @ Pong_write v) post)"
  by (cases v) (auto simp: codec_defs parse_iff)

interpretation pong: fixed_wire Pong_read Pong_write 12
  by unfold_locales (simp_all add: Pong_iff, simp add: Pong_read_def)

section \<open>SET_ACK and ACK_SYNC\<close>

record set_ack =
  sa_generation :: u32
  sa_window :: u32

record ack_sync =
  as_generation :: u32

definition SetAck_ack_sync :: "set_ack \<Rightarrow> ack_sync" where
  "SetAck_ack_sync s = \<lparr>as_generation = sa_generation s\<rparr>"

definition SetAck_read :: "set_ack parser" where
  [codec_defs]: "SetAck_read =
     bindP read_u32 (\<lambda>g. bindP read_u32 (\<lambda>w. retP \<lparr>sa_generation = g, sa_window = w\<rparr>))"

definition SetAck_write :: "set_ack \<Rightarrow> bytes" where
  [codec_defs]: "SetAck_write v = u32_le (sa_generation v) @ u32_le (sa_window v)"

definition AckSync_read :: "ack_sync parser" where
  [codec_defs]: "AckSync_read = bindP read_u32 (\<lambda>g. retP \<lparr>as_generation = g\<rparr>)"

definition AckSync_write :: "ack_sync \<Rightarrow> bytes" where
  [codec_defs]: "AckSync_write v = u32_le (as_generation v)"

lemma SetAck_iff [parse_iff]:
  "SetAck_read (at pre xs) = Inr (v, r') \<longleftrightarrow>
     (\<exists>post. xs = SetAck_write v @ post \<and> r' = at (pre @ SetAck_write v) post)"
  by (cases v) (auto simp: codec_defs parse_iff)

interpretation set_ack: fixed_wire SetAck_read SetAck_write 8
  by unfold_locales (simp_all add: SetAck_iff, simp add: SetAck_read_def)

lemma AckSync_iff [parse_iff]:
  "AckSync_read (at pre xs) = Inr (v, r') \<longleftrightarrow>
     (\<exists>post. xs = AckSync_write v @ post \<and> r' = at (pre @ AckSync_write v) post)"
  by (cases v) (auto simp: codec_defs parse_iff)

interpretation ack_sync: fixed_wire AckSync_read AckSync_write 4
  by unfold_locales (simp_all add: AckSync_iff, simp add: AckSync_read_def)

section \<open>NOTIFY\<close>

definition NOTIFY_MAX_MESSAGE_LEN :: u32 where
  "NOTIFY_MAX_MESSAGE_LEN = 64 * 1024"

record notify =
  nt_timestamp :: u64
  nt_severity :: u32
  nt_visibility :: u32
  nt_what :: u32
  nt_message :: bytes

definition Notify_severity_kind :: "notify \<Rightarrow> notify_severity" where
  "Notify_severity_kind v = NotifySeverity_from_u32 (nt_severity v)"

definition Notify_visibility_kind :: "notify \<Rightarrow> spice_visibility option" where
  "Notify_visibility_kind v = SpiceVisibility_from_u32 (nt_visibility v)"

text \<open>The \<open>peek\<close> clone: consume one byte if it is a NUL.\<close>

definition skip_nul :: "unit parser" where
  "skip_nul r =
     (case read_u8 r of
        Inr (b, r') \<Rightarrow> (if b = 0 then Inr ((), r') else Inr ((), r))
      | Inl _ \<Rightarrow> Inr ((), r))"

definition Notify_read :: "notify parser" where
  [codec_defs]: "Notify_read =
     bindP read_u64 (\<lambda>t. bindP read_u32 (\<lambda>s. bindP read_u32 (\<lambda>vis. bindP read_u32 (\<lambda>w.
     bindP read_u32 (\<lambda>message_len.
       if message_len > NOTIFY_MAX_MESSAGE_LEN
       then failP (TooLarge ''notify message_len'' (unat message_len)
                     (unat NOTIFY_MAX_MESSAGE_LEN))
       else bindP (read_bytes (unat message_len)) (\<lambda>m. bindP skip_nul (\<lambda>_.
              retP \<lparr>nt_timestamp = t, nt_severity = s, nt_visibility = vis, nt_what = w,
                    nt_message = m\<rparr>)))))))"

definition Notify_write :: "notify \<Rightarrow> bytes" where
  [codec_defs]: "Notify_write v =
     u64_le (nt_timestamp v) @ u32_le (nt_severity v) @ u32_le (nt_visibility v)
       @ u32_le (nt_what v) @ u32_le (word_of_nat (length (nt_message v)))
       @ nt_message v @ [0]"

definition Notify_ok :: "notify \<Rightarrow> bool" where
  "Notify_ok v \<longleftrightarrow> length (nt_message v) \<le> unat NOTIFY_MAX_MESSAGE_LEN"

lemma unat_NOTIFY_MAX [simp]: "unat NOTIFY_MAX_MESSAGE_LEN = 65536"
  by (simp add: NOTIFY_MAX_MESSAGE_LEN_def)

lemma skip_nul_at:
  "skip_nul (at pre xs) =
     (case xs of b # ys \<Rightarrow> if b = 0 then Inr ((), at (pre @ [b]) ys) else Inr ((), at pre xs)
      | [] \<Rightarrow> Inr ((), at pre xs))"
proof (cases xs)
  case Nil
  then show ?thesis
    using exactD_Inl [OF exact_read_u8, of "[]" pre] by (auto simp: skip_nul_def)
qed (simp add: skip_nul_def)

lemma Notify_len_word:
  "Notify_ok v \<Longrightarrow> unat (word_of_nat (length (nt_message v)) :: u32) = length (nt_message v)"
  by (simp add: Notify_ok_def unat_of_nat)

lemma Notify_len_not_over:
  "Notify_ok v \<Longrightarrow> \<not> (word_of_nat (length (nt_message v)) > NOTIFY_MAX_MESSAGE_LEN)"
  using Notify_len_word [of v] by (simp add: word_less_nat_alt Notify_ok_def)

interpretation notify: wire_type Notify_read Notify_write Notify_ok
proof
  fix v pre post
  assume ok: "Notify_ok v"
  show "Notify_read (at pre (Notify_write v @ post)) = Inr (v, at (pre @ Notify_write v) post)"
    using Notify_len_word [OF ok] Notify_len_not_over [OF ok]
    by (simp add: codec_defs skip_nul_at)
qed

section \<open>DISCONNECTING\<close>

record disconnecting =
  dc_timestamp :: u64
  dc_reason :: u32

definition Disconnecting_reason_kind :: "disconnecting \<Rightarrow> spice_error" where
  "Disconnecting_reason_kind v = SpiceError_from_u32 (dc_reason v)"

definition Disconnecting_read :: "disconnecting parser" where
  [codec_defs]: "Disconnecting_read =
     bindP read_u64 (\<lambda>t. bindP read_u32 (\<lambda>r. retP \<lparr>dc_timestamp = t, dc_reason = r\<rparr>))"

definition Disconnecting_write :: "disconnecting \<Rightarrow> bytes" where
  [codec_defs]: "Disconnecting_write v = u64_le (dc_timestamp v) @ u32_le (dc_reason v)"

lemma Disconnecting_iff [parse_iff]:
  "Disconnecting_read (at pre xs) = Inr (v, r') \<longleftrightarrow>
     (\<exists>post. xs = Disconnecting_write v @ post \<and> r' = at (pre @ Disconnecting_write v) post)"
  by (cases v) (auto simp: codec_defs parse_iff)

interpretation disconnecting: fixed_wire Disconnecting_read Disconnecting_write 12
  by unfold_locales (simp_all add: Disconnecting_iff, simp add: Disconnecting_read_def)

end
