(* ===== verification/Receive_Buffer.thy ===== *)
theory Receive_Buffer
  imports Messages_Common
begin

text \<open>
  \<open>ReceiveBuffer\<close> (\<open>messages/common.rs\<close>), which every channel fills from its socket and takes
  messages from, and the loop around it (\<open>process_messages\<close> of each channel in
  \<open>shakenfist-spice-renderer/src/channels/\<close>).

  Refinement: \<open>unconsumed\<close> is the abstraction of the buffer to the bytes not yet taken; the
  read offset and the lazy compaction are invisible through it. \<open>rb_moved\<close> is the instrumentation
  the test build keeps to check the bound on bytes moved; it is modelled so that the bound can be
  proved.
\<close>

section \<open>State and operations\<close>

record received_message =
  rm_header :: message_header
  rm_raw :: bytes

definition ReceivedMessage_payload :: "received_message \<Rightarrow> bytes" where
  "ReceivedMessage_payload m = drop HEADER_SIZE (rm_raw m)"

record receive_buffer =
  rb_data :: bytes
  rb_start :: nat
  rb_moved :: nat

definition ReceiveBuffer_new :: receive_buffer where
  "ReceiveBuffer_new = \<lparr>rb_data = [], rb_start = 0, rb_moved = 0\<rparr>"

definition unconsumed :: "receive_buffer \<Rightarrow> bytes" where
  "unconsumed b = drop (rb_start b) (rb_data b)"

definition ReceiveBuffer_len :: "receive_buffer \<Rightarrow> nat" where
  "ReceiveBuffer_len b = length (rb_data b) - rb_start b"

definition ReceiveBuffer_is_empty :: "receive_buffer \<Rightarrow> bool" where
  "ReceiveBuffer_is_empty b \<longleftrightarrow> ReceiveBuffer_len b = 0"

definition compact :: "receive_buffer \<Rightarrow> receive_buffer" where
  "compact b =
     (if rb_start b = 0 then b
      else let remaining = length (rb_data b) - rb_start b in
        if remaining = 0 then b\<lparr>rb_data := [], rb_start := 0\<rparr>
        else if remaining \<le> rb_start b
        then b\<lparr>rb_data := drop (rb_start b) (rb_data b), rb_start := 0,
               rb_moved := rb_moved b + remaining\<rparr>
        else b)"

definition extend_from_slice :: "receive_buffer \<Rightarrow> bytes \<Rightarrow> receive_buffer" where
  "extend_from_slice b xs = (let b' = compact b in b'\<lparr>rb_data := rb_data b' @ xs\<rparr>)"

definition take_message ::
  "nat \<Rightarrow> receive_buffer \<Rightarrow> (io_error_kind + received_message option) \<times> receive_buffer" where
  "take_message max_body b =
     (let waiting = unconsumed b in
      if length waiting < HEADER_SIZE then (Inr None, b)
      else case MessageHeader_read waiting of
        Inl e \<Rightarrow> (Inl e, b)
      | Inr header \<Rightarrow>
          (let body = unat (message_size header) in
           if body > max_body then (Inl InvalidData, b)
           else let total = HEADER_SIZE + body in
             if length waiting < total then (Inr None, b)
             else (Inr (Some \<lparr>rm_header = header, rm_raw = take total waiting\<rparr>),
                   b\<lparr>rb_start := rb_start b + total\<rparr>)))"

text \<open>
  The \<open>while let Some(message) = self.buffer.take_message(MAX_MESSAGE_BODY)?\<close> loop: the messages
  handled, the buffer after it, and the error that ended it, if one did.
\<close>

function take_all ::
  "nat \<Rightarrow> receive_buffer \<Rightarrow> received_message list \<times> receive_buffer \<times> io_error_kind option" where
  "take_all max_body b =
     (case take_message max_body b of
        (Inl e, b') \<Rightarrow> ([], b', Some e)
      | (Inr None, b') \<Rightarrow> ([], b', None)
      | (Inr (Some m), b') \<Rightarrow> (let (ms, b'', e) = take_all max_body b' in (m # ms, b'', e)))"
  by pat_completeness auto
termination
  by (relation "measure (\<lambda>(mx, b). length (unconsumed b))")
    (auto simp: take_message_def HEADER_SIZE_def unconsumed_def Let_def
          split: if_splits sum.splits)

declare take_all.simps [simp del]

section \<open>Invariant\<close>

definition rb_wf :: "receive_buffer \<Rightarrow> bool" where
  "rb_wf b \<longleftrightarrow> rb_start b \<le> length (rb_data b)"

lemma rb_wf_new [simp]: "rb_wf ReceiveBuffer_new"
  by (simp add: rb_wf_def ReceiveBuffer_new_def)

lemma unconsumed_new [simp]: "unconsumed ReceiveBuffer_new = []"
  by (simp add: unconsumed_def ReceiveBuffer_new_def)

lemma rb_wf_compact: "rb_wf b \<Longrightarrow> rb_wf (compact b)"
  by (simp add: rb_wf_def compact_def Let_def)

lemma unconsumed_compact: "rb_wf b \<Longrightarrow> unconsumed (compact b) = unconsumed b"
  by (auto simp: unconsumed_def compact_def rb_wf_def Let_def)

lemma rb_wf_extend: "rb_wf b \<Longrightarrow> rb_wf (extend_from_slice b xs)"
  using rb_wf_compact [of b] by (simp add: rb_wf_def extend_from_slice_def Let_def)

lemma unconsumed_extend:
  "rb_wf b \<Longrightarrow> unconsumed (extend_from_slice b xs) = unconsumed b @ xs"
  using unconsumed_compact [of b] rb_wf_compact [of b]
  by (simp add: extend_from_slice_def unconsumed_def rb_wf_def Let_def)

section \<open>Refinement of the framing specification\<close>

definition header_of :: "bytes \<Rightarrow> message_header" where
  "header_of xs = \<lparr>message_type = le_word (take 2 xs), message_size = le_word (take 4 (drop 2 xs))\<rparr>"

definition rb_parse :: "nat \<Rightarrow> bytes \<Rightarrow> (received_message, io_error_kind) frame" where
  "rb_parse max_body xs =
     (if length xs < HEADER_SIZE then NeedMore
      else let header = header_of xs;
               body = unat (message_size header) in
        if body > max_body then Refuse InvalidData
        else if length xs < HEADER_SIZE + body then NeedMore
        else Frame \<lparr>rm_header = header, rm_raw = take (HEADER_SIZE + body) xs\<rparr> (HEADER_SIZE + body))"

lemma MessageHeader_read_long: "HEADER_SIZE \<le> length d \<Longrightarrow> MessageHeader_read d = Inr (header_of d)"
  by (simp add: MessageHeader_read_def header_of_def)

lemma header_of_append: "HEADER_SIZE \<le> length xs \<Longrightarrow> header_of (xs @ ys) = header_of xs"
  by (simp add: header_of_def HEADER_SIZE_def)

lemma take_message_parse:
  "take_message max_body b =
     (case rb_parse max_body (unconsumed b) of
        NeedMore \<Rightarrow> (Inr None, b)
      | Refuse e \<Rightarrow> (Inl e, b)
      | Frame m n \<Rightarrow> (Inr (Some m), b\<lparr>rb_start := rb_start b + n\<rparr>))"
  by (simp add: take_message_def rb_parse_def Let_def MessageHeader_read_long)

interpretation receive_buffer: framer
  extend_from_slice "take_message mx" "take_all mx" unconsumed rb_wf "rb_parse mx"
  for mx
proof (unfold_locales, goal_cases)
  case (1 b xs)
  then show ?case by (rule rb_wf_extend)
next
  case (2 b xs)
  then show ?case by (rule unconsumed_extend)
next
  case (3 b)
  then show ?case by (simp add: take_message_parse)
next
  case (4 b e)
  then show ?case by (simp add: take_message_parse)
next
  case (5 b m n)
  moreover from 5 have "n \<le> length (unconsumed b)"
    by (auto simp: rb_parse_def Let_def split: if_splits)
  ultimately show ?case
    by (auto simp: take_message_parse rb_wf_def unconsumed_def add.commute)
next
  case (6 b)
  then show ?case by (rule take_all.simps)
next
  case 7
  then show ?case by (simp add: rb_parse_def HEADER_SIZE_def)
next
  case (8 xs m n)
  then show ?case by (auto simp: rb_parse_def HEADER_SIZE_def Let_def split: if_splits)
next
  case (9 xs m n ys)
  then show ?case
    by (auto simp: rb_parse_def Let_def header_of_append split: if_splits)
next
  case (10 xs e ys)
  then show ?case
    by (auto simp: rb_parse_def Let_def header_of_append split: if_splits)
qed

section \<open>Framed messages\<close>

definition framed :: "u16 \<times> bytes \<Rightarrow> received_message" where
  "framed tp = \<lparr>rm_header = \<lparr>message_type = fst tp, message_size = word_of_nat (length (snd tp))\<rparr>,
                rm_raw = make_message (fst tp) (snd tp)\<rparr>"

lemma length_make_message [simp]: "length (make_message t p) = 6 + length p"
  by (simp add: make_message_def)

lemma payload_framed [simp]: "ReceivedMessage_payload (framed (t, p)) = p"
  by (simp add: ReceivedMessage_payload_def framed_def make_message_def HEADER_SIZE_def)

lemma rb_parse_make_message:
  assumes "length p \<le> mx" and "length p < 2 ^ 32"
  shows "rb_parse mx (make_message t p @ xs) = Frame (framed (t, p)) (length (make_message t p))"
proof -
  have "unat (word_of_nat (length p) :: u32) = length p"
    using assms(2) by (simp add: unat_of_nat)
  with assms(1) show ?thesis
    by (simp add: rb_parse_def header_of_def Let_def framed_def make_message_def
        MessageHeader_write_def HEADER_SIZE_def)
qed

section \<open>Compaction cost\<close>

datatype rb_op = Extend bytes | Take nat

definition rb_step :: "receive_buffer \<times> nat \<Rightarrow> rb_op \<Rightarrow> receive_buffer \<times> nat" where
  "rb_step s op =
     (case s of (b, consumed) \<Rightarrow>
       (case op of
          Extend xs \<Rightarrow> (extend_from_slice b xs, consumed)
        | Take mx \<Rightarrow>
            (case take_message mx b of
               (Inr (Some m), b') \<Rightarrow> (b', consumed + length (rm_raw m))
             | (_, b') \<Rightarrow> (b', consumed))))"

definition rb_paid :: "receive_buffer \<times> nat \<Rightarrow> bool" where
  "rb_paid s \<longleftrightarrow> rb_wf (fst s) \<and> rb_moved (fst s) + rb_start (fst s) \<le> snd s"

lemma rb_paid_compact: "rb_paid (b, c) \<Longrightarrow> rb_paid (compact b, c)"
  by (auto simp: rb_paid_def rb_wf_def compact_def Let_def)

lemma rb_paid_extend: "rb_paid (b, c) \<Longrightarrow> rb_paid (extend_from_slice b xs, c)"
  using rb_paid_compact [of b c] by (simp add: rb_paid_def rb_wf_def extend_from_slice_def Let_def)

lemma take_message_start:
  "take_message mx b = (Inr (Some m), b') \<Longrightarrow>
     length (rm_raw m) \<le> length (unconsumed b) \<and> b' = b\<lparr>rb_start := rb_start b + length (rm_raw m)\<rparr>"
  by (auto simp: take_message_parse rb_parse_def Let_def min_def split: if_splits frame.splits)

lemma take_message_other:
  "take_message mx b = (r, b') \<Longrightarrow> (\<And>m. r \<noteq> Inr (Some m)) \<Longrightarrow> b' = b"
  by (auto simp: take_message_parse split: frame.splits)

lemma rb_paid_step:
  assumes "rb_paid s"
  shows "rb_paid (rb_step s op)"
proof (cases op)
  case (Extend xs)
  with assms show ?thesis
    by (cases s) (simp add: rb_step_def rb_paid_extend)
next
  case (Take mx)
  obtain b c where s: "s = (b, c)" by (cases s)
  obtain r b' where t: "take_message mx b = (r, b')" by (cases "take_message mx b")
  show ?thesis
  proof (cases "\<exists>m. r = Inr (Some m)")
    case True
    then obtain m where "r = Inr (Some m)" ..
    with take_message_start [of mx b m b'] t Take s assms show ?thesis
      by (auto simp: rb_step_def rb_paid_def rb_wf_def unconsumed_def)
  next
    case False
    with take_message_other [OF t] have "b' = b" by blast
    with False t Take s assms show ?thesis
      by (auto simp: rb_step_def split: sum.splits option.splits)
  qed
qed

lemma rb_paid_run: "rb_paid s \<Longrightarrow> rb_paid (foldl rb_step s ops)"
  by (induction ops arbitrary: s) (simp_all add: rb_paid_step)

section \<open>Properties\<close>

text \<open>C1: However a channel's byte stream is cut into socket reads, appending each read to the
  receive buffer and taking every complete message delivers exactly the messages of the stream cut
  at once, stops with the same refusal (a header that declares a body over \<open>mx\<close>) and leaves the
  same bytes waiting.\<close>

theorem receive_buffer_chunking:
  "case split_frames (rb_parse mx) (concat reads) of (ms, rest, e) \<Rightarrow>
     \<exists>b. run_chunks extend_from_slice (take_all mx) ReceiveBuffer_new reads = (ms, b, e)
       \<and> (e = None \<longrightarrow> rb_wf b \<and> unconsumed b = rest)"
proof -
  obtain ms rest e where s: "split_frames (rb_parse mx) (concat reads) = (ms, rest, e)"
    by (metis prod_cases3)
  obtain ms' b e' where
    r: "run_chunks extend_from_slice (take_all mx) ReceiveBuffer_new reads = (ms', b, e')"
    by (metis prod_cases3)
  from receive_buffer.run_chunks_split [OF rb_wf_new _ r] s show ?thesis
    by (simp add: r receive_buffer.parse_Nil)
qed

theorem receive_buffer_chunking_witness:
  "case split_frames (rb_parse 16) (concat [[3, 0, 1], [0, 0, 0, 7, 9]]) of (ms, rest, e) \<Rightarrow>
     \<exists>b. run_chunks extend_from_slice (take_all 16) ReceiveBuffer_new [[3, 0, 1], [0, 0, 0, 7, 9]]
         = (ms, b, e)
       \<and> (e = None \<longrightarrow> rb_wf b \<and> unconsumed b = rest)"
  by (rule receive_buffer_chunking)

text \<open>C2: Messages built with \<open>make_message\<close> and sent one after another are received in order, with
  their bodies, and leave the buffer empty, however the stream is cut into reads.\<close>

theorem receive_buffer_roundtrip:
  assumes "\<And>t p. (t, p) \<in> set ms \<Longrightarrow> length p \<le> mx \<and> length p < 2 ^ 32"
    and "concat reads = concat (map (\<lambda>(t, p). make_message t p) ms)"
  shows "\<exists>b. run_chunks extend_from_slice (take_all mx) ReceiveBuffer_new reads
           = (map framed ms, b, None) \<and> ReceiveBuffer_is_empty b
         \<and> map ReceivedMessage_payload (map framed ms) = map snd ms"
proof -
  let ?enc = "\<lambda>m. rm_raw m"
  have enc: "rb_parse mx (?enc m @ xs) = Frame m (length (?enc m))" if "m \<in> set (map framed ms)" for m xs
  proof -
    from that obtain t p where "m = framed (t, p)" "(t, p) \<in> set ms" by auto
    with assms(1) rb_parse_make_message [of p mx t xs] show ?thesis
      by (simp add: framed_def)
  qed
  have cat: "concat reads = concat (map ?enc (map framed ms))"
    using assms(2) by (simp add: comp_def framed_def case_prod_unfold)
  obtain b where b: "run_chunks extend_from_slice (take_all mx) ReceiveBuffer_new reads
      = (map framed ms, b, None)" "rb_wf b" "unconsumed b = []"
    using receive_buffer.run_chunks_encoded [OF rb_wf_new unconsumed_new cat enc] by auto
  then have "ReceiveBuffer_is_empty b"
    by (simp add: ReceiveBuffer_is_empty_def ReceiveBuffer_len_def unconsumed_def)
  moreover have "map ReceivedMessage_payload (map framed ms) = map snd ms"
    by (induction ms) auto
  ultimately show ?thesis using b(1) by auto
qed

theorem receive_buffer_roundtrip_witness:
  "\<exists>b. run_chunks extend_from_slice (take_all 16) ReceiveBuffer_new
        [[3, 0, 1, 0], [0, 0, 7, 4, 0, 0, 0], [0, 0]]
      = (map framed [(3, [7]), (4, [])], b, None) \<and> ReceiveBuffer_is_empty b
    \<and> map ReceivedMessage_payload (map framed [(3, [7]), (4, [])]) = map snd [(3::u16, [7]), (4, [])]"
  by (rule receive_buffer_roundtrip) (auto, code_simp)

text \<open>C8: Over any sequence of appends and takes, the lazy compaction has moved no more bytes than
  have been taken as messages, so its cost is linear in the traffic.\<close>

theorem compaction_bound:
  "rb_moved (fst (foldl rb_step (ReceiveBuffer_new, 0) ops))
     \<le> snd (foldl rb_step (ReceiveBuffer_new, 0) ops)"
proof -
  have "rb_paid (ReceiveBuffer_new, 0)"
    by (simp add: rb_paid_def) (simp add: ReceiveBuffer_new_def)
  from rb_paid_run [OF this, of ops] show ?thesis
    by (simp add: rb_paid_def)
qed

end
