(* ===== verification/Messages_Main.thy ===== *)
theory Messages_Main
  imports Messages_Common
begin

text \<open>
  Main channel messages, \<open>shakenfist-spice-protocol/src/messages/main.rs\<close>: the session's starting
  state, the channel list, mouse modes, the multimedia clock and the agent's tokens. All but the
  channel list have a fixed layout.
\<close>

section \<open>Fixed layouts\<close>

record main_init =
  session_id :: u32
  display_channels_hint :: u32
  supported_mouse_modes :: u32
  current_mouse_mode :: u32
  agent_connected :: u32
  agent_tokens :: u32
  mi_multi_media_time :: u32
  ram_hint :: u32

definition MainInit_read :: "main_init parser" where
  [codec_defs]: "MainInit_read =
     bindP read_u32 (\<lambda>a. bindP read_u32 (\<lambda>b. bindP read_u32 (\<lambda>c.
     bindP read_u32 (\<lambda>d. bindP read_u32 (\<lambda>e. bindP read_u32 (\<lambda>f.
     bindP read_u32 (\<lambda>g. bindP read_u32 (\<lambda>h.
       retP \<lparr>session_id = a, display_channels_hint = b, supported_mouse_modes = c,
             current_mouse_mode = d, agent_connected = e, agent_tokens = f,
             mi_multi_media_time = g, ram_hint = h\<rparr>))))))))"

definition MainInit_write :: "main_init \<Rightarrow> bytes" where
  [codec_defs]: "MainInit_write v =
     u32_le (session_id v) @ u32_le (display_channels_hint v)
       @ u32_le (supported_mouse_modes v) @ u32_le (current_mouse_mode v)
       @ u32_le (agent_connected v) @ u32_le (agent_tokens v) @ u32_le (mi_multi_media_time v)
       @ u32_le (ram_hint v)"

lemma MainInit_iff [parse_iff]:
  "MainInit_read (at pre xs) = Inr (v, r') \<longleftrightarrow>
     (\<exists>post. xs = MainInit_write v @ post \<and> r' = at (pre @ MainInit_write v) post)"
  by (cases v) (auto simp: codec_defs parse_iff)

interpretation main_init: fixed_wire MainInit_read MainInit_write 32
  by unfold_locales (simp_all add: MainInit_iff, simp add: MainInit_read_def)

record main_mouse_mode =
  supported_modes :: u16
  current_mode :: u16

definition MainMouseMode_read :: "main_mouse_mode parser" where
  [codec_defs]: "MainMouseMode_read =
     bindP read_u16 (\<lambda>a. bindP read_u16 (\<lambda>b.
       retP \<lparr>supported_modes = a, current_mode = b\<rparr>))"

definition MainMouseMode_write :: "main_mouse_mode \<Rightarrow> bytes" where
  [codec_defs]: "MainMouseMode_write v =
     u16_le (supported_modes v) @ u16_le (current_mode v)"

lemma MainMouseMode_iff [parse_iff]:
  "MainMouseMode_read (at pre xs) = Inr (v, r') \<longleftrightarrow>
     (\<exists>post. xs = MainMouseMode_write v @ post \<and> r' = at (pre @ MainMouseMode_write v) post)"
  by (cases v) (auto simp: codec_defs parse_iff)

interpretation main_mouse_mode: fixed_wire MainMouseMode_read MainMouseMode_write 4
  by unfold_locales (simp_all add: MainMouseMode_iff, simp add: MainMouseMode_read_def)

record mouse_mode_request =
  mmr_mode :: u16

definition MouseModeRequest_read :: "mouse_mode_request parser" where
  [codec_defs]: "MouseModeRequest_read =
     bindP read_u16 (\<lambda>a.
       retP \<lparr>mmr_mode = a\<rparr>)"

definition MouseModeRequest_write :: "mouse_mode_request \<Rightarrow> bytes" where
  [codec_defs]: "MouseModeRequest_write v =
     u16_le (mmr_mode v)"

lemma MouseModeRequest_iff [parse_iff]:
  "MouseModeRequest_read (at pre xs) = Inr (v, r') \<longleftrightarrow>
     (\<exists>post. xs = MouseModeRequest_write v @ post \<and> r' = at (pre @ MouseModeRequest_write v) post)"
  by (cases v) (auto simp: codec_defs parse_iff)

interpretation mouse_mode_request: fixed_wire MouseModeRequest_read MouseModeRequest_write 2
  by unfold_locales (simp_all add: MouseModeRequest_iff, simp add: MouseModeRequest_read_def)

record multi_media_time =
  mmt_time :: u32

definition MultiMediaTime_read :: "multi_media_time parser" where
  [codec_defs]: "MultiMediaTime_read =
     bindP read_u32 (\<lambda>a.
       retP \<lparr>mmt_time = a\<rparr>)"

definition MultiMediaTime_write :: "multi_media_time \<Rightarrow> bytes" where
  [codec_defs]: "MultiMediaTime_write v =
     u32_le (mmt_time v)"

lemma MultiMediaTime_iff [parse_iff]:
  "MultiMediaTime_read (at pre xs) = Inr (v, r') \<longleftrightarrow>
     (\<exists>post. xs = MultiMediaTime_write v @ post \<and> r' = at (pre @ MultiMediaTime_write v) post)"
  by (cases v) (auto simp: codec_defs parse_iff)

interpretation multi_media_time: fixed_wire MultiMediaTime_read MultiMediaTime_write 4
  by unfold_locales (simp_all add: MultiMediaTime_iff, simp add: MultiMediaTime_read_def)

record agent_tokens_msg =
  num_tokens :: u32

definition AgentTokens_read :: "agent_tokens_msg parser" where
  [codec_defs]: "AgentTokens_read =
     bindP read_u32 (\<lambda>a.
       retP \<lparr>num_tokens = a\<rparr>)"

definition AgentTokens_write :: "agent_tokens_msg \<Rightarrow> bytes" where
  [codec_defs]: "AgentTokens_write v =
     u32_le (num_tokens v)"

lemma AgentTokens_iff [parse_iff]:
  "AgentTokens_read (at pre xs) = Inr (v, r') \<longleftrightarrow>
     (\<exists>post. xs = AgentTokens_write v @ post \<and> r' = at (pre @ AgentTokens_write v) post)"
  by (cases v) (auto simp: codec_defs parse_iff)

interpretation agent_tokens_msg: fixed_wire AgentTokens_read AgentTokens_write 4
  by unfold_locales (simp_all add: AgentTokens_iff, simp add: AgentTokens_read_def)

record agent_disconnected =
  ad_error_code :: u32

definition AgentDisconnected_read :: "agent_disconnected parser" where
  [codec_defs]: "AgentDisconnected_read =
     bindP read_u32 (\<lambda>a.
       retP \<lparr>ad_error_code = a\<rparr>)"

definition AgentDisconnected_write :: "agent_disconnected \<Rightarrow> bytes" where
  [codec_defs]: "AgentDisconnected_write v =
     u32_le (ad_error_code v)"

lemma AgentDisconnected_iff [parse_iff]:
  "AgentDisconnected_read (at pre xs) = Inr (v, r') \<longleftrightarrow>
     (\<exists>post. xs = AgentDisconnected_write v @ post \<and> r' = at (pre @ AgentDisconnected_write v) post)"
  by (cases v) (auto simp: codec_defs parse_iff)

interpretation agent_disconnected: fixed_wire AgentDisconnected_read AgentDisconnected_write 4
  by unfold_locales (simp_all add: AgentDisconnected_iff, simp add: AgentDisconnected_read_def)

definition AgentDisconnected_error_code_kind :: "agent_disconnected \<Rightarrow> spice_error" where
  "AgentDisconnected_error_code_kind v = SpiceError_from_u32 (ad_error_code v)"

section \<open>CHANNELS_LIST\<close>

record channel_entry =
  channel_type :: u8
  channel_id :: u8

record channels_list =
  channels :: "channel_entry list"

definition ChannelEntry_read :: "channel_entry parser" where
  [codec_defs]: "ChannelEntry_read =
     bindP read_u8 (\<lambda>t. bindP read_u8 (\<lambda>i. retP \<lparr>channel_type = t, channel_id = i\<rparr>))"

definition ChannelEntry_write :: "channel_entry \<Rightarrow> bytes" where
  [codec_defs]: "ChannelEntry_write c = [channel_type c, channel_id c]"

definition ChannelsList_read :: "channels_list parser" where
  "ChannelsList_read =
     bindP read_u32 (\<lambda>n.
     bindP (check_count ''num_of_channels'' (unat n) 2) (\<lambda>_.
     bindP (read_times (unat n) ChannelEntry_read) (\<lambda>cs. retP \<lparr>channels = cs\<rparr>)))"

definition ChannelsList_write :: "channels_list \<Rightarrow> bytes" where
  "ChannelsList_write v =
     u32_le (word_of_nat (length (channels v))) @ concat (map ChannelEntry_write (channels v))"

definition ChannelsList_ok :: "channels_list \<Rightarrow> bool" where
  "ChannelsList_ok v \<longleftrightarrow> length (channels v) < 2 ^ 32"

lemma ChannelEntry_iff [parse_iff]:
  "ChannelEntry_read (at pre xs) = Inr (v, r') \<longleftrightarrow>
     (\<exists>post. xs = ChannelEntry_write v @ post \<and> r' = at (pre @ ChannelEntry_write v) post)"
  by (cases v) (auto simp: codec_defs parse_iff)

interpretation channel_entry: fixed_wire ChannelEntry_read ChannelEntry_write 2
  by unfold_locales (simp_all add: ChannelEntry_iff, simp add: ChannelEntry_read_def)

lemma length_ChannelEntries [simp]: "length (concat (map ChannelEntry_write cs)) = 2 * length cs"
  by (induction cs) (simp_all add: channel_entry.length_wr)

interpretation channels_list: wire_type ChannelsList_read ChannelsList_write ChannelsList_ok
proof
  fix v pre post
  assume "ChannelsList_ok v"
  then have "unat (word_of_nat (length (channels v)) :: u32) = length (channels v)"
    by (simp add: ChannelsList_ok_def unat_of_nat)
  then show "ChannelsList_read (at pre (ChannelsList_write v @ post)) =
      Inr (v, at (pre @ ChannelsList_write v) post)"
    by (simp add: ChannelsList_read_def ChannelsList_write_def
        channel_entry.read_times_wr [simplified list_all_iff, simplified])
qed

text \<open>
  What the reader does on an arbitrary body: it never reserves room for more entries than the
  body holds, and the entries it returns are exactly the declared ones.
\<close>

lemma ChannelsList_read_Inr:
  assumes "ChannelsList_read (at pre xs) = Inr (v, r')"
  shows "4 + 2 * length (channels v) \<le> length xs \<and> xs = ChannelsList_write v @ drop (length (ChannelsList_write v)) xs"
proof -
  from assms obtain n post cs post' where xs: "xs = u32_le n @ post"
    and n: "unat n \<le> length post div 2" and cs: "length cs = unat n"
    and post: "post = concat (map ChannelEntry_write cs) @ post'" and v: "v = \<lparr>channels = cs\<rparr>"
    by (auto simp: ChannelsList_read_def parse_iff channel_entry.read_times_iff split: if_splits)
  have "word_of_nat (length cs) = n"
    by (simp add: cs)
  with xs post v n cs show ?thesis
    by (simp add: ChannelsList_write_def)
qed

end
