(* ===== verification/Messages_Inputs.thy ===== *)
theory Messages_Inputs
  imports Messages_Common
begin

unbundle bit_operations_syntax

text \<open>
  Inputs channel messages, \<open>shakenfist-spice-protocol/src/messages/inputs.rs\<close>, and the button
  constants of \<open>src/constants.rs\<close> they convert between: a press names its button by id, the state
  of all buttons is a mask.
\<close>

section \<open>Fixed layouts\<close>

record inputs_init =
  ii_keyboard_modifiers :: u16

definition InputsInit_read :: "inputs_init parser" where
  [codec_defs]: "InputsInit_read =
     bindP read_u16 (\<lambda>a.
       retP \<lparr>ii_keyboard_modifiers = a\<rparr>)"

definition InputsInit_write :: "inputs_init \<Rightarrow> bytes" where
  [codec_defs]: "InputsInit_write v =
     u16_le (ii_keyboard_modifiers v)"

lemma InputsInit_iff [parse_iff]:
  "InputsInit_read (at pre xs) = Inr (v, r') \<longleftrightarrow>
     (\<exists>post. xs = InputsInit_write v @ post \<and> r' = at (pre @ InputsInit_write v) post)"
  by (cases v) (auto simp: codec_defs parse_iff)

interpretation inputs_init: fixed_wire InputsInit_read InputsInit_write 2
  by unfold_locales (simp_all add: InputsInit_iff, simp add: InputsInit_read_def)

record key_modifiers =
  km_modifiers :: u16

definition KeyModifiers_read :: "key_modifiers parser" where
  [codec_defs]: "KeyModifiers_read =
     bindP read_u16 (\<lambda>a.
       retP \<lparr>km_modifiers = a\<rparr>)"

definition KeyModifiers_write :: "key_modifiers \<Rightarrow> bytes" where
  [codec_defs]: "KeyModifiers_write v =
     u16_le (km_modifiers v)"

lemma KeyModifiers_iff [parse_iff]:
  "KeyModifiers_read (at pre xs) = Inr (v, r') \<longleftrightarrow>
     (\<exists>post. xs = KeyModifiers_write v @ post \<and> r' = at (pre @ KeyModifiers_write v) post)"
  by (cases v) (auto simp: codec_defs parse_iff)

interpretation key_modifiers: fixed_wire KeyModifiers_read KeyModifiers_write 2
  by unfold_locales (simp_all add: KeyModifiers_iff, simp add: KeyModifiers_read_def)

record key_event =
  scancode :: u32

definition KeyEvent_read :: "key_event parser" where
  [codec_defs]: "KeyEvent_read =
     bindP read_u32 (\<lambda>a.
       retP \<lparr>scancode = a\<rparr>)"

definition KeyEvent_write :: "key_event \<Rightarrow> bytes" where
  [codec_defs]: "KeyEvent_write v =
     u32_le (scancode v)"

lemma KeyEvent_iff [parse_iff]:
  "KeyEvent_read (at pre xs) = Inr (v, r') \<longleftrightarrow>
     (\<exists>post. xs = KeyEvent_write v @ post \<and> r' = at (pre @ KeyEvent_write v) post)"
  by (cases v) (auto simp: codec_defs parse_iff)

interpretation key_event: fixed_wire KeyEvent_read KeyEvent_write 4
  by unfold_locales (simp_all add: KeyEvent_iff, simp add: KeyEvent_read_def)

record mouse_motion =
  mm_dx :: i32
  mm_dy :: i32
  mm_buttons_state :: u16

definition MouseMotion_read :: "mouse_motion parser" where
  [codec_defs]: "MouseMotion_read =
     bindP read_i32 (\<lambda>a. bindP read_i32 (\<lambda>b. bindP read_u16 (\<lambda>c.
       retP \<lparr>mm_dx = a, mm_dy = b, mm_buttons_state = c\<rparr>)))"

definition MouseMotion_write :: "mouse_motion \<Rightarrow> bytes" where
  [codec_defs]: "MouseMotion_write v =
     u32_le (mm_dx v) @ u32_le (mm_dy v) @ u16_le (mm_buttons_state v)"

lemma MouseMotion_iff [parse_iff]:
  "MouseMotion_read (at pre xs) = Inr (v, r') \<longleftrightarrow>
     (\<exists>post. xs = MouseMotion_write v @ post \<and> r' = at (pre @ MouseMotion_write v) post)"
  by (cases v) (auto simp: codec_defs parse_iff)

interpretation mouse_motion: fixed_wire MouseMotion_read MouseMotion_write 10
  by unfold_locales (simp_all add: MouseMotion_iff, simp add: MouseMotion_read_def)

record mouse_position =
  mp_x :: u32
  mp_y :: u32
  mp_buttons_state :: u16
  mp_display_id :: u8

definition MousePosition_read :: "mouse_position parser" where
  [codec_defs]: "MousePosition_read =
     bindP read_u32 (\<lambda>a. bindP read_u32 (\<lambda>b. bindP read_u16 (\<lambda>c.
     bindP read_u8 (\<lambda>d.
       retP \<lparr>mp_x = a, mp_y = b, mp_buttons_state = c, mp_display_id = d\<rparr>))))"

definition MousePosition_write :: "mouse_position \<Rightarrow> bytes" where
  [codec_defs]: "MousePosition_write v =
     u32_le (mp_x v) @ u32_le (mp_y v) @ u16_le (mp_buttons_state v) @ [mp_display_id v]"

lemma MousePosition_iff [parse_iff]:
  "MousePosition_read (at pre xs) = Inr (v, r') \<longleftrightarrow>
     (\<exists>post. xs = MousePosition_write v @ post \<and> r' = at (pre @ MousePosition_write v) post)"
  by (cases v) (auto simp: codec_defs parse_iff)

interpretation mouse_position: fixed_wire MousePosition_read MousePosition_write 11
  by unfold_locales (simp_all add: MousePosition_iff, simp add: MousePosition_read_def)

record mouse_button =
  mb_button :: u8
  mb_buttons_state :: u16

definition MouseButton_read :: "mouse_button parser" where
  [codec_defs]: "MouseButton_read =
     bindP read_u8 (\<lambda>a. bindP read_u16 (\<lambda>b.
       retP \<lparr>mb_button = a, mb_buttons_state = b\<rparr>))"

definition MouseButton_write :: "mouse_button \<Rightarrow> bytes" where
  [codec_defs]: "MouseButton_write v =
     [mb_button v] @ u16_le (mb_buttons_state v)"

lemma MouseButton_iff [parse_iff]:
  "MouseButton_read (at pre xs) = Inr (v, r') \<longleftrightarrow>
     (\<exists>post. xs = MouseButton_write v @ post \<and> r' = at (pre @ MouseButton_write v) post)"
  by (cases v) (auto simp: codec_defs parse_iff)

interpretation mouse_button: fixed_wire MouseButton_read MouseButton_write 3
  by unfold_locales (simp_all add: MouseButton_iff, simp add: MouseButton_read_def)

section \<open>KEY_SCANCODE\<close>

text \<open>The scan codes run to the end of the message.\<close>

record key_scancode =
  codes :: bytes

definition KeyScancode_read :: "key_scancode parser" where
  "KeyScancode_read =
     bindP get_remaining (\<lambda>n. bindP (read_bytes n) (\<lambda>c. retP \<lparr>codes = c\<rparr>))"

definition KeyScancode_write :: "key_scancode \<Rightarrow> bytes" where
  "KeyScancode_write v = codes v"

interpretation key_scancode: wire_body KeyScancode_read KeyScancode_write "\<lambda>_. True"
  by unfold_locales (simp add: KeyScancode_read_def KeyScancode_write_def)

section \<open>Buttons: masks and ids\<close>

definition BUTTON_MASK_LEFT :: u32 where "BUTTON_MASK_LEFT = push_bit 0 1"
definition BUTTON_MASK_MIDDLE :: u32 where "BUTTON_MASK_MIDDLE = push_bit 1 1"
definition BUTTON_MASK_RIGHT :: u32 where "BUTTON_MASK_RIGHT = push_bit 2 1"
definition BUTTON_MASK_UP :: u32 where "BUTTON_MASK_UP = push_bit 3 1"
definition BUTTON_MASK_DOWN :: u32 where "BUTTON_MASK_DOWN = push_bit 4 1"

lemmas button_masks =
  BUTTON_MASK_LEFT_def BUTTON_MASK_MIDDLE_def BUTTON_MASK_RIGHT_def BUTTON_MASK_UP_def
  BUTTON_MASK_DOWN_def

definition MouseButton_id_for_mask :: "u32 \<Rightarrow> u8" where
  "MouseButton_id_for_mask msk =
     (let m = (ucast (ucast msk :: u8) :: u32) in
      if m = BUTTON_MASK_LEFT then 1
      else if m = BUTTON_MASK_MIDDLE then 2
      else if m = BUTTON_MASK_RIGHT then 3
      else if m = BUTTON_MASK_UP then 4
      else if m = BUTTON_MASK_DOWN then 5
      else 0)"

end
