(* ===== verification/Messages_Playback.thy ===== *)
theory Messages_Playback
  imports Messages_Common
begin

unbundle bit_operations_syntax

text \<open>
  Playback channel messages, \<open>shakenfist-spice-protocol/src/messages/playback.rs\<close>. The borrowed
  \<open>PlaybackPacketRef\<close> and the owned \<open>PlaybackPacket\<close> are the same value in the model; reading the
  second is reading the first and copying.
\<close>

section \<open>Fixed layouts\<close>

record playback_start =
  ps_channels :: u32
  ps_format :: u16
  ps_frequency :: u32
  ps_time :: u32

definition PlaybackStart_read :: "playback_start parser" where
  [codec_defs]: "PlaybackStart_read =
     bindP read_u32 (\<lambda>a. bindP read_u16 (\<lambda>b. bindP read_u32 (\<lambda>c.
     bindP read_u32 (\<lambda>d.
       retP \<lparr>ps_channels = a, ps_format = b, ps_frequency = c, ps_time = d\<rparr>))))"

definition PlaybackStart_write :: "playback_start \<Rightarrow> bytes" where
  [codec_defs]: "PlaybackStart_write v =
     u32_le (ps_channels v) @ u16_le (ps_format v) @ u32_le (ps_frequency v)
       @ u32_le (ps_time v)"

lemma PlaybackStart_iff [parse_iff]:
  "PlaybackStart_read (at pre xs) = Inr (v, r') \<longleftrightarrow>
     (\<exists>post. xs = PlaybackStart_write v @ post \<and> r' = at (pre @ PlaybackStart_write v) post)"
  by (cases v) (auto simp: codec_defs parse_iff)

interpretation playback_start: fixed_wire PlaybackStart_read PlaybackStart_write 14
  by unfold_locales (simp_all add: PlaybackStart_iff, simp add: PlaybackStart_read_def)

record playback_mode =
  pm_time :: u32
  pm_mode :: u16

definition PlaybackMode_read :: "playback_mode parser" where
  [codec_defs]: "PlaybackMode_read =
     bindP read_u32 (\<lambda>a. bindP read_u16 (\<lambda>b.
       retP \<lparr>pm_time = a, pm_mode = b\<rparr>))"

definition PlaybackMode_write :: "playback_mode \<Rightarrow> bytes" where
  [codec_defs]: "PlaybackMode_write v =
     u32_le (pm_time v) @ u16_le (pm_mode v)"

lemma PlaybackMode_iff [parse_iff]:
  "PlaybackMode_read (at pre xs) = Inr (v, r') \<longleftrightarrow>
     (\<exists>post. xs = PlaybackMode_write v @ post \<and> r' = at (pre @ PlaybackMode_write v) post)"
  by (cases v) (auto simp: codec_defs parse_iff)

interpretation playback_mode: fixed_wire PlaybackMode_read PlaybackMode_write 6
  by unfold_locales (simp_all add: PlaybackMode_iff, simp add: PlaybackMode_read_def)

record playback_latency =
  latency_ms :: u32

definition PlaybackLatency_read :: "playback_latency parser" where
  [codec_defs]: "PlaybackLatency_read =
     bindP read_u32 (\<lambda>a.
       retP \<lparr>latency_ms = a\<rparr>)"

definition PlaybackLatency_write :: "playback_latency \<Rightarrow> bytes" where
  [codec_defs]: "PlaybackLatency_write v =
     u32_le (latency_ms v)"

lemma PlaybackLatency_iff [parse_iff]:
  "PlaybackLatency_read (at pre xs) = Inr (v, r') \<longleftrightarrow>
     (\<exists>post. xs = PlaybackLatency_write v @ post \<and> r' = at (pre @ PlaybackLatency_write v) post)"
  by (cases v) (auto simp: codec_defs parse_iff)

interpretation playback_latency: fixed_wire PlaybackLatency_read PlaybackLatency_write 4
  by unfold_locales (simp_all add: PlaybackLatency_iff, simp add: PlaybackLatency_read_def)

section \<open>DATA\<close>

record playback_packet =
  pp_time :: u32
  pp_data :: bytes

definition PlaybackPacketRef_read :: "playback_packet parser" where
  "PlaybackPacketRef_read =
     bindP read_u32 (\<lambda>t. bindP get_remaining (\<lambda>n. bindP (read_bytes n) (\<lambda>d.
       retP \<lparr>pp_time = t, pp_data = d\<rparr>)))"

definition PlaybackPacket_read :: "playback_packet parser" where
  "PlaybackPacket_read = bindP PlaybackPacketRef_read retP"

definition PlaybackPacket_write :: "playback_packet \<Rightarrow> bytes" where
  "PlaybackPacket_write v = u32_le (pp_time v) @ pp_data v"

interpretation playback_packet: wire_body PlaybackPacket_read PlaybackPacket_write "\<lambda>_. True"
  by unfold_locales
    (simp add: PlaybackPacket_read_def PlaybackPacketRef_read_def PlaybackPacket_write_def)

section \<open>VOLUME\<close>

record playback_volume =
  volumes :: "u16 list"

definition MAX_CHANNELS :: nat where
  "MAX_CHANNELS = 255"

definition PlaybackVolume_new :: "u16 list \<Rightarrow> link_error + playback_volume" where
  "PlaybackVolume_new vs =
     (if length vs > MAX_CHANNELS then Inl (TooLarge ''nchannels'' (length vs) MAX_CHANNELS)
      else Inr \<lparr>volumes = vs\<rparr>)"

definition PlaybackVolume_read :: "playback_volume parser" where
  "PlaybackVolume_read =
     bindP read_u8 (\<lambda>n.
     bindP (check_count ''nchannels'' (unat n) 2) (\<lambda>_.
     bindP (read_times (unat n) read_u16) (\<lambda>vs. retP \<lparr>volumes = vs\<rparr>)))"

definition PlaybackVolume_write :: "playback_volume \<Rightarrow> bytes" where
  "PlaybackVolume_write v =
     (let vs = take (min (length (volumes v)) MAX_CHANNELS) (volumes v) in
      [word_of_nat (length vs)] @ concat (map u16_le vs))"

lemma length_u16s [simp]: "length (concat (map u16_le vs)) = 2 * length vs"
  by (induction vs) simp_all

text \<open>
  Whatever list the value holds, the count written matches the volumes that follow it: the body
  reads back as the first 255 of them.
\<close>

lemma PlaybackVolume_read_write:
  "PlaybackVolume_read (at pre (PlaybackVolume_write v @ post)) =
     Inr (\<lparr>volumes = take MAX_CHANNELS (volumes v)\<rparr>, at (pre @ PlaybackVolume_write v) post)"
proof -
  let ?vs = "take MAX_CHANNELS (volumes v)"
  have w: "PlaybackVolume_write v = [word_of_nat (length ?vs)] @ concat (map u16_le ?vs)"
    by (simp add: PlaybackVolume_write_def Let_def min_def)
  have n: "unat (word_of_nat (length ?vs) :: u8) = length ?vs"
    using MAX_CHANNELS_def by (simp add: unat_of_nat)
  have r: "read_times (length ?vs) read_u16 (at p (concat (map u16_le ?vs) @ post)) =
      Inr (?vs, at (p @ concat (map u16_le ?vs)) post)" for p
    by (rule u16_codec.read_times_wr) (simp add: list_all_iff)
  show ?thesis
    unfolding w PlaybackVolume_read_def by (simp add: n r del: length_take)
qed

interpretation playback_volume:
  wire_type PlaybackVolume_read PlaybackVolume_write "\<lambda>v. length (volumes v) \<le> MAX_CHANNELS"
  by unfold_locales (simp add: PlaybackVolume_read_write)

section \<open>MUTE\<close>

record playback_mute =
  mute :: bool

definition PlaybackMute_read :: "playback_mute parser" where
  "PlaybackMute_read = bindP read_u8 (\<lambda>b. retP \<lparr>mute = (b \<noteq> 0)\<rparr>)"

definition PlaybackMute_write :: "playback_mute \<Rightarrow> bytes" where
  "PlaybackMute_write v = [if mute v then 1 else 0]"

interpretation playback_mute: wire_type PlaybackMute_read PlaybackMute_write "\<lambda>_. True"
  by unfold_locales (simp add: PlaybackMute_read_def PlaybackMute_write_def)

end
