(* ===== verification/Messages_Cursor.thy ===== *)
theory Messages_Cursor
  imports Messages_Common
begin

unbundle bit_operations_syntax

text \<open>
  Cursor channel messages, \<open>shakenfist-spice-protocol/src/messages/cursor.rs\<close>. The borrowed
  \<open>SpiceCursorRef\<close> and the owned \<open>SpiceCursor\<close> are the same value in the model.
\<close>

section \<open>Fixed layouts\<close>

record cursor_header =
  unique_id :: u64
  cursor_type :: u8
  ch_width :: u16
  ch_height :: u16
  hot_spot_x :: u16
  hot_spot_y :: u16

definition CursorHeader_read :: "cursor_header parser" where
  [codec_defs]: "CursorHeader_read =
     bindP read_u64 (\<lambda>a. bindP read_u8 (\<lambda>b. bindP read_u16 (\<lambda>c.
     bindP read_u16 (\<lambda>d. bindP read_u16 (\<lambda>e. bindP read_u16 (\<lambda>f.
       retP \<lparr>unique_id = a, cursor_type = b, ch_width = c, ch_height = d, hot_spot_x = e,
             hot_spot_y = f\<rparr>))))))"

definition CursorHeader_write :: "cursor_header \<Rightarrow> bytes" where
  [codec_defs]: "CursorHeader_write v =
     u64_le (unique_id v) @ [cursor_type v] @ u16_le (ch_width v) @ u16_le (ch_height v)
       @ u16_le (hot_spot_x v) @ u16_le (hot_spot_y v)"

lemma CursorHeader_iff [parse_iff]:
  "CursorHeader_read (at pre xs) = Inr (v, r') \<longleftrightarrow>
     (\<exists>post. xs = CursorHeader_write v @ post \<and> r' = at (pre @ CursorHeader_write v) post)"
  by (cases v) (auto simp: codec_defs parse_iff)

interpretation cursor_header: fixed_wire CursorHeader_read CursorHeader_write 17
  by unfold_locales (simp_all add: CursorHeader_iff, simp add: CursorHeader_read_def)

record cursor_init_head =
  ci_x :: i16
  ci_y :: i16
  trail_length :: u16
  trail_frequency :: u16
  ci_visible :: u8

definition CursorInitHead_read :: "cursor_init_head parser" where
  [codec_defs]: "CursorInitHead_read =
     bindP read_i16 (\<lambda>a. bindP read_i16 (\<lambda>b. bindP read_u16 (\<lambda>c.
     bindP read_u16 (\<lambda>d. bindP read_u8 (\<lambda>e.
       retP \<lparr>ci_x = a, ci_y = b, trail_length = c, trail_frequency = d, ci_visible = e\<rparr>)))))"

definition CursorInitHead_write :: "cursor_init_head \<Rightarrow> bytes" where
  [codec_defs]: "CursorInitHead_write v =
     u16_le (ci_x v) @ u16_le (ci_y v) @ u16_le (trail_length v) @ u16_le (trail_frequency v)
       @ [ci_visible v]"

lemma CursorInitHead_iff [parse_iff]:
  "CursorInitHead_read (at pre xs) = Inr (v, r') \<longleftrightarrow>
     (\<exists>post. xs = CursorInitHead_write v @ post \<and> r' = at (pre @ CursorInitHead_write v) post)"
  by (cases v) (auto simp: codec_defs parse_iff)

interpretation cursor_init_head: fixed_wire CursorInitHead_read CursorInitHead_write 9
  by unfold_locales (simp_all add: CursorInitHead_iff, simp add: CursorInitHead_read_def)

record cursor_set_head =
  cs_x :: i16
  cs_y :: i16
  cs_visible :: u8

definition CursorSetHead_read :: "cursor_set_head parser" where
  [codec_defs]: "CursorSetHead_read =
     bindP read_i16 (\<lambda>a. bindP read_i16 (\<lambda>b. bindP read_u8 (\<lambda>c.
       retP \<lparr>cs_x = a, cs_y = b, cs_visible = c\<rparr>)))"

definition CursorSetHead_write :: "cursor_set_head \<Rightarrow> bytes" where
  [codec_defs]: "CursorSetHead_write v =
     u16_le (cs_x v) @ u16_le (cs_y v) @ [cs_visible v]"

lemma CursorSetHead_iff [parse_iff]:
  "CursorSetHead_read (at pre xs) = Inr (v, r') \<longleftrightarrow>
     (\<exists>post. xs = CursorSetHead_write v @ post \<and> r' = at (pre @ CursorSetHead_write v) post)"
  by (cases v) (auto simp: codec_defs parse_iff)

interpretation cursor_set_head: fixed_wire CursorSetHead_read CursorSetHead_write 5
  by unfold_locales (simp_all add: CursorSetHead_iff, simp add: CursorSetHead_read_def)

record cursor_move =
  cm_x :: i16
  cm_y :: i16

definition CursorMove_read :: "cursor_move parser" where
  [codec_defs]: "CursorMove_read =
     bindP read_i16 (\<lambda>a. bindP read_i16 (\<lambda>b.
       retP \<lparr>cm_x = a, cm_y = b\<rparr>))"

definition CursorMove_write :: "cursor_move \<Rightarrow> bytes" where
  [codec_defs]: "CursorMove_write v =
     u16_le (cm_x v) @ u16_le (cm_y v)"

lemma CursorMove_iff [parse_iff]:
  "CursorMove_read (at pre xs) = Inr (v, r') \<longleftrightarrow>
     (\<exists>post. xs = CursorMove_write v @ post \<and> r' = at (pre @ CursorMove_write v) post)"
  by (cases v) (auto simp: codec_defs parse_iff)

interpretation cursor_move: fixed_wire CursorMove_read CursorMove_write 4
  by unfold_locales (simp_all add: CursorMove_iff, simp add: CursorMove_read_def)

record cursor_inval_one =
  inval_id :: u64

definition CursorInvalOne_read :: "cursor_inval_one parser" where
  [codec_defs]: "CursorInvalOne_read =
     bindP read_u64 (\<lambda>a.
       retP \<lparr>inval_id = a\<rparr>)"

definition CursorInvalOne_write :: "cursor_inval_one \<Rightarrow> bytes" where
  [codec_defs]: "CursorInvalOne_write v =
     u64_le (inval_id v)"

lemma CursorInvalOne_iff [parse_iff]:
  "CursorInvalOne_read (at pre xs) = Inr (v, r') \<longleftrightarrow>
     (\<exists>post. xs = CursorInvalOne_write v @ post \<and> r' = at (pre @ CursorInvalOne_write v) post)"
  by (cases v) (auto simp: codec_defs parse_iff)

interpretation cursor_inval_one: fixed_wire CursorInvalOne_read CursorInvalOne_write 8
  by unfold_locales (simp_all add: CursorInvalOne_iff, simp add: CursorInvalOne_read_def)

section \<open>The cursor itself\<close>

definition CURSOR_NONE :: u16 where "CURSOR_NONE = push_bit 0 1"
definition CURSOR_CACHE_ME :: u16 where "CURSOR_CACHE_ME = push_bit 1 1"
definition CURSOR_FROM_CACHE :: u16 where "CURSOR_FROM_CACHE = push_bit 2 1"

record spice_cursor =
  sc_flags :: u16
  sc_header :: "cursor_header option"
  sc_data :: bytes

definition SpiceCursor_none :: spice_cursor where
  "SpiceCursor_none = \<lparr>sc_flags = CURSOR_NONE, sc_header = None, sc_data = []\<rparr>"

definition SpiceCursor_has_flag :: "spice_cursor \<Rightarrow> u16 \<Rightarrow> bool" where
  "SpiceCursor_has_flag c b \<longleftrightarrow> sc_flags c AND b \<noteq> 0"

definition SpiceCursorRef_read :: "spice_cursor parser" where
  "SpiceCursorRef_read =
     bindP read_u16 (\<lambda>flags.
     bindP (if flags AND CURSOR_NONE = 0
            then bindP CursorHeader_read (\<lambda>h. retP (Some h)) else retP None) (\<lambda>header.
     bindP get_remaining (\<lambda>n. bindP (read_bytes n) (\<lambda>d.
       retP \<lparr>sc_flags = flags, sc_header = header, sc_data = d\<rparr>))))"

definition SpiceCursor_read :: "spice_cursor parser" where
  "SpiceCursor_read = bindP SpiceCursorRef_read retP"

definition SpiceCursor_write :: "spice_cursor \<Rightarrow> bytes" where
  "SpiceCursor_write c =
     u16_le (sc_flags c)
       @ (case sc_header c of Some h \<Rightarrow> CursorHeader_write h | None \<Rightarrow> []) @ sc_data c"

text \<open>The invariant the reader keeps and the writer relies on.\<close>

definition SpiceCursor_ok :: "spice_cursor \<Rightarrow> bool" where
  "SpiceCursor_ok c \<longleftrightarrow> (sc_header c = None \<longleftrightarrow> SpiceCursor_has_flag c CURSOR_NONE)"

lemma SpiceCursor_none_ok: "SpiceCursor_ok SpiceCursor_none"
  by (simp add: SpiceCursor_ok_def SpiceCursor_none_def SpiceCursor_has_flag_def CURSOR_NONE_def)

lemma CursorHeader_forward [simp]:
  "CursorHeader_read (at pre (CursorHeader_write h @ post)) = Inr (h, at (pre @ CursorHeader_write h) post)"
  by (rule cursor_header.roundtrip) simp

lemma SpiceCursor_read_write:
  "SpiceCursor_ok c \<Longrightarrow>
     SpiceCursor_read (at pre (SpiceCursor_write c)) = Inr (c, at (pre @ SpiceCursor_write c) [])"
  by (cases "sc_header c")
    (simp_all add: SpiceCursor_read_def SpiceCursorRef_read_def SpiceCursor_write_def
      SpiceCursor_ok_def SpiceCursor_has_flag_def)

lemma SpiceCursor_read_ok:
  "SpiceCursor_read r = Inr (c, r') \<Longrightarrow> SpiceCursor_ok c"
  by (auto simp: SpiceCursor_read_def SpiceCursorRef_read_def parse_iff SpiceCursor_ok_def
      SpiceCursor_has_flag_def split: if_splits)

interpretation spice_cursor: wire_body SpiceCursor_read SpiceCursor_write SpiceCursor_ok
  by unfold_locales (rule SpiceCursor_read_write)

section \<open>INIT and SET\<close>

record cursor_init =
  init_head :: cursor_init_head
  init_cursor :: spice_cursor

definition CursorInit_read :: "cursor_init parser" where
  "CursorInit_read =
     bindP CursorInitHead_read (\<lambda>h. bindP SpiceCursor_read (\<lambda>c.
       retP \<lparr>init_head = h, init_cursor = c\<rparr>))"

definition CursorInit_write :: "cursor_init \<Rightarrow> bytes" where
  "CursorInit_write v = CursorInitHead_write (init_head v) @ SpiceCursor_write (init_cursor v)"

record cursor_set =
  set_head :: cursor_set_head
  set_cursor :: spice_cursor

definition CursorSet_read :: "cursor_set parser" where
  "CursorSet_read =
     bindP CursorSetHead_read (\<lambda>h. bindP SpiceCursor_read (\<lambda>c.
       retP \<lparr>set_head = h, set_cursor = c\<rparr>))"

definition CursorSet_write :: "cursor_set \<Rightarrow> bytes" where
  "CursorSet_write v = CursorSetHead_write (set_head v) @ SpiceCursor_write (set_cursor v)"

interpretation cursor_init:
  wire_body CursorInit_read CursorInit_write "\<lambda>v. SpiceCursor_ok (init_cursor v)"
  by unfold_locales
    (simp add: CursorInit_read_def CursorInit_write_def cursor_init_head.roundtrip
      SpiceCursor_read_write)

interpretation cursor_set:
  wire_body CursorSet_read CursorSet_write "\<lambda>v. SpiceCursor_ok (set_cursor v)"
  by unfold_locales
    (simp add: CursorSet_read_def CursorSet_write_def cursor_set_head.roundtrip
      SpiceCursor_read_write)

end
