(* ===== verification/Messages_VdAgent.thy ===== *)
theory Messages_VdAgent
  imports Messages_Common
begin

unbundle bit_operations_syntax

text \<open>
  Guest agent messages, \<open>shakenfist-spice-protocol/src/messages/vd_agent.rs\<close>: the agent header,
  monitor configuration, capability announcements and the clipboard messages, whose layout depends
  on whether the peer announced the selection capability (\<open>hs\<close>, the code's \<open>has_selection\<close>).
\<close>

definition VD_AGENT_PROTOCOL :: u32 where "VD_AGENT_PROTOCOL = 1"
definition VD_AGENT_SUCCESS :: u32 where "VD_AGENT_SUCCESS = 1"
definition VD_AGENT_CONFIG_MONITORS_FLAG_PHYSICAL_SIZE :: u32 where
  "VD_AGENT_CONFIG_MONITORS_FLAG_PHYSICAL_SIZE = push_bit 1 1"
definition VD_AGENT_CLIPBOARD_SELECTION_CLIPBOARD :: u8 where
  "VD_AGENT_CLIPBOARD_SELECTION_CLIPBOARD = 0"

section \<open>Fixed layouts\<close>

record vd_agent_header =
  vh_protocol :: u32
  vh_message_type :: u32
  vh_opaque :: u64
  vh_size :: u32

definition VdAgentMessageHeader_read :: "vd_agent_header parser" where
  [codec_defs]: "VdAgentMessageHeader_read =
     bindP read_u32 (\<lambda>a. bindP read_u32 (\<lambda>b. bindP read_u64 (\<lambda>c.
     bindP read_u32 (\<lambda>d.
       retP \<lparr>vh_protocol = a, vh_message_type = b, vh_opaque = c, vh_size = d\<rparr>))))"

definition VdAgentMessageHeader_write :: "vd_agent_header \<Rightarrow> bytes" where
  [codec_defs]: "VdAgentMessageHeader_write v =
     u32_le (vh_protocol v) @ u32_le (vh_message_type v) @ u64_le (vh_opaque v)
       @ u32_le (vh_size v)"

lemma VdAgentMessageHeader_iff [parse_iff]:
  "VdAgentMessageHeader_read (at pre xs) = Inr (v, r') \<longleftrightarrow>
     (\<exists>post. xs = VdAgentMessageHeader_write v @ post \<and> r' = at (pre @ VdAgentMessageHeader_write v) post)"
  by (cases v) (auto simp: codec_defs parse_iff)

interpretation vd_agent_header: fixed_wire VdAgentMessageHeader_read VdAgentMessageHeader_write 20
  by unfold_locales (simp_all add: VdAgentMessageHeader_iff, simp add: VdAgentMessageHeader_read_def)

definition VdAgentMessageHeader_new :: "u32 \<Rightarrow> u32 \<Rightarrow> vd_agent_header" where
  "VdAgentMessageHeader_new mt sz =
     \<lparr>vh_protocol = VD_AGENT_PROTOCOL, vh_message_type = mt, vh_opaque = 0, vh_size = sz\<rparr>"

record mon_config =
  mc_height :: u32
  mc_width :: u32
  mc_depth :: u32
  mc_x :: i32
  mc_y :: i32

definition MonConfig_read :: "mon_config parser" where
  [codec_defs]: "MonConfig_read =
     bindP read_u32 (\<lambda>a. bindP read_u32 (\<lambda>b. bindP read_u32 (\<lambda>c.
     bindP read_i32 (\<lambda>d. bindP read_i32 (\<lambda>e.
       retP \<lparr>mc_height = a, mc_width = b, mc_depth = c, mc_x = d, mc_y = e\<rparr>)))))"

definition MonConfig_write :: "mon_config \<Rightarrow> bytes" where
  [codec_defs]: "MonConfig_write v =
     u32_le (mc_height v) @ u32_le (mc_width v) @ u32_le (mc_depth v) @ u32_le (mc_x v)
       @ u32_le (mc_y v)"

lemma MonConfig_iff [parse_iff]:
  "MonConfig_read (at pre xs) = Inr (v, r') \<longleftrightarrow>
     (\<exists>post. xs = MonConfig_write v @ post \<and> r' = at (pre @ MonConfig_write v) post)"
  by (cases v) (auto simp: codec_defs parse_iff)

interpretation mon_config: fixed_wire MonConfig_read MonConfig_write 20
  by unfold_locales (simp_all add: MonConfig_iff, simp add: MonConfig_read_def)

record monitor_mm =
  mmm_height :: u16
  mmm_width :: u16

definition MonitorMm_read :: "monitor_mm parser" where
  [codec_defs]: "MonitorMm_read =
     bindP read_u16 (\<lambda>a. bindP read_u16 (\<lambda>b.
       retP \<lparr>mmm_height = a, mmm_width = b\<rparr>))"

definition MonitorMm_write :: "monitor_mm \<Rightarrow> bytes" where
  [codec_defs]: "MonitorMm_write v =
     u16_le (mmm_height v) @ u16_le (mmm_width v)"

lemma MonitorMm_iff [parse_iff]:
  "MonitorMm_read (at pre xs) = Inr (v, r') \<longleftrightarrow>
     (\<exists>post. xs = MonitorMm_write v @ post \<and> r' = at (pre @ MonitorMm_write v) post)"
  by (cases v) (auto simp: codec_defs parse_iff)

interpretation monitor_mm: fixed_wire MonitorMm_read MonitorMm_write 4
  by unfold_locales (simp_all add: MonitorMm_iff, simp add: MonitorMm_read_def)

record vd_agent_reply =
  reply_type :: u32
  reply_error :: u32

definition VdAgentReply_read :: "vd_agent_reply parser" where
  [codec_defs]: "VdAgentReply_read =
     bindP read_u32 (\<lambda>a. bindP read_u32 (\<lambda>b.
       retP \<lparr>reply_type = a, reply_error = b\<rparr>))"

definition VdAgentReply_write :: "vd_agent_reply \<Rightarrow> bytes" where
  [codec_defs]: "VdAgentReply_write v =
     u32_le (reply_type v) @ u32_le (reply_error v)"

lemma VdAgentReply_iff [parse_iff]:
  "VdAgentReply_read (at pre xs) = Inr (v, r') \<longleftrightarrow>
     (\<exists>post. xs = VdAgentReply_write v @ post \<and> r' = at (pre @ VdAgentReply_write v) post)"
  by (cases v) (auto simp: codec_defs parse_iff)

interpretation vd_agent_reply: fixed_wire VdAgentReply_read VdAgentReply_write 8
  by unfold_locales (simp_all add: VdAgentReply_iff, simp add: VdAgentReply_read_def)

definition VdAgentReply_is_success :: "vd_agent_reply \<Rightarrow> bool" where
  "VdAgentReply_is_success v \<longleftrightarrow> reply_error v = VD_AGENT_SUCCESS"

section \<open>MONITORS_CONFIG\<close>

record monitors_config =
  mcfg_flags :: u32
  mcfg_monitors :: "mon_config list"
  mcfg_physical_sizes :: "monitor_mm list"

definition has_physical_size :: "monitors_config \<Rightarrow> bool" where
  "has_physical_size v \<longleftrightarrow> mcfg_flags v AND VD_AGENT_CONFIG_MONITORS_FLAG_PHYSICAL_SIZE \<noteq> 0"

definition MonitorMm_default :: monitor_mm where
  "MonitorMm_default = \<lparr>mmm_height = 0, mmm_width = 0\<rparr>"

definition MonitorsConfig_read :: "monitors_config parser" where
  "MonitorsConfig_read =
     bindP read_u32 (\<lambda>n. bindP read_u32 (\<lambda>flags.
     let physical = (flags AND VD_AGENT_CONFIG_MONITORS_FLAG_PHYSICAL_SIZE \<noteq> 0);
         element = 20 + (if physical then 4 else 0) in
     bindP (check_count ''num_of_monitors'' (unat n) element) (\<lambda>_.
     bindP (read_times (unat n) MonConfig_read) (\<lambda>ms.
     bindP (if physical then read_times (unat n) MonitorMm_read else retP []) (\<lambda>ps.
       retP \<lparr>mcfg_flags = flags, mcfg_monitors = ms, mcfg_physical_sizes = ps\<rparr>)))))"

text \<open>\<open>physical_sizes.get(i).copied().unwrap_or_default()\<close> for each monitor index.\<close>

definition physical_size_at :: "monitors_config \<Rightarrow> nat \<Rightarrow> monitor_mm" where
  "physical_size_at v i =
     (if i < length (mcfg_physical_sizes v) then mcfg_physical_sizes v ! i else MonitorMm_default)"

definition MonitorsConfig_write :: "monitors_config \<Rightarrow> bytes" where
  "MonitorsConfig_write v =
     u32_le (word_of_nat (length (mcfg_monitors v))) @ u32_le (mcfg_flags v)
       @ concat (map MonConfig_write (mcfg_monitors v))
       @ (if has_physical_size v
          then concat (map (\<lambda>i. MonitorMm_write (physical_size_at v i))
                 [0..<length (mcfg_monitors v)])
          else [])"

text \<open>
  The value the writer's output denotes: exactly one physical size per monitor when the flag is
  set (padded with zeros or cut), none when it is clear.
\<close>

definition MonitorsConfig_normal :: "monitors_config \<Rightarrow> monitors_config" where
  "MonitorsConfig_normal v =
     v\<lparr>mcfg_physical_sizes :=
         (if has_physical_size v
          then map (physical_size_at v) [0..<length (mcfg_monitors v)] else [])\<rparr>"

lemma length_MonConfigs [simp]: "length (concat (map MonConfig_write ms)) = 20 * length ms"
  by (induction ms) (simp_all add: mon_config.length_wr)

lemma length_MonitorMms [simp]: "length (concat (map MonitorMm_write ms)) = 4 * length ms"
  by (induction ms) (simp_all add: monitor_mm.length_wr)

lemma MonitorsConfig_read_write:
  assumes "length (mcfg_monitors v) < 2 ^ 32"
  shows "MonitorsConfig_read (at pre (MonitorsConfig_write v @ post)) =
     Inr (MonitorsConfig_normal v, at (pre @ MonitorsConfig_write v) post)"
proof -
  let ?ms = "mcfg_monitors v"
  let ?ps = "map (physical_size_at v) [0..<length ?ms]"
  have n: "unat (word_of_nat (length ?ms) :: u32) = length ?ms"
    using assms by (simp add: unat_of_nat)
  have ms: "read_times (length ?ms) MonConfig_read (at p (concat (map MonConfig_write ?ms) @ q)) =
      Inr (?ms, at (p @ concat (map MonConfig_write ?ms)) q)" for p q
    by (rule mon_config.read_times_wr) (simp add: list_all_iff)
  have ps: "read_times (length ?ps) MonitorMm_read (at p (concat (map MonitorMm_write ?ps) @ q)) =
      Inr (?ps, at (p @ concat (map MonitorMm_write ?ps)) q)" for p q
    by (rule monitor_mm.read_times_wr) (simp add: list_all_iff)
  have w: "concat (map (\<lambda>i. MonitorMm_write (physical_size_at v i)) [0..<length ?ms]) =
      concat (map MonitorMm_write ?ps)"
    by (simp add: comp_def)
  have l: "length (concat (map MonitorMm_write ?ps)) = 4 * length ?ms"
    by (simp only: length_MonitorMms) simp
  have eq: "\<lparr>mcfg_flags = mcfg_flags v, mcfg_monitors = ?ms, mcfg_physical_sizes = qs\<rparr> =
      v\<lparr>mcfg_physical_sizes := qs\<rparr>" for qs
    by (cases v) simp
  show ?thesis
    using ps [simplified length_map length_upt] ms
    unfolding MonitorsConfig_read_def MonitorsConfig_write_def w
    by (simp add: n has_physical_size_def MonitorsConfig_normal_def l Let_def eq
        del: map_map length_concat)
qed

interpretation monitors_config:
  wire_type MonitorsConfig_read MonitorsConfig_write
    "\<lambda>v. length (mcfg_monitors v) < 2 ^ 32 \<and> MonitorsConfig_normal v = v"
  by unfold_locales (use MonitorsConfig_read_write in force)

section \<open>ANNOUNCE_CAPABILITIES\<close>

record announce_capabilities =
  ac_request :: u32
  ac_caps :: "u32 list"

definition MAX_CAPABILITY :: u32 where
  "MAX_CAPABILITY = 32 * 16"

definition has_capability :: "announce_capabilities \<Rightarrow> u32 \<Rightarrow> bool" where
  "has_capability a cap =
     (let i = unat cap div 32 in
      i < length (ac_caps a) \<and> (ac_caps a ! i) AND push_bit (unat (cap mod 32)) 1 \<noteq> 0)"

definition set_capability :: "announce_capabilities \<Rightarrow> u32 \<Rightarrow> announce_capabilities" where
  "set_capability a cap =
     (if cap \<ge> MAX_CAPABILITY then a
      else let word = unat cap div 32;
               caps = (if length (ac_caps a) \<le> word
                       then ac_caps a @ replicate (word + 1 - length (ac_caps a)) 0
                       else ac_caps a)
           in a\<lparr>ac_caps := caps[word := (caps ! word) OR push_bit (unat (cap mod 32)) 1]\<rparr>)"

definition AnnounceCapabilities_read :: "announce_capabilities parser" where
  "AnnounceCapabilities_read =
     bindP read_u32 (\<lambda>r. bindP get_remaining (\<lambda>n. bindP (read_vec_u32 (n div 4) (n div 4)) (\<lambda>cs.
       retP \<lparr>ac_request = r, ac_caps = cs\<rparr>)))"

definition AnnounceCapabilities_write :: "announce_capabilities \<Rightarrow> bytes" where
  "AnnounceCapabilities_write v = u32_le (ac_request v) @ concat (map u32_le (ac_caps v))"

lemma length_u32s [simp]: "length (concat (map u32_le ws)) = 4 * length ws"
  by (induction ws) simp_all

lemma read_vec_u32_write [simp]:
  "n = length ws \<Longrightarrow> read_vec_u32 n n (at pre (concat (map u32_le ws))) =
     Inr (ws, at (pre @ concat (map u32_le ws)) [])"
  using u32_codec.read_times_wr [of ws pre "[]"] by (simp add: read_vec_u32_def list_all_iff)

interpretation announce_capabilities:
  wire_body AnnounceCapabilities_read AnnounceCapabilities_write "\<lambda>_. True"
  by unfold_locales (simp add: AnnounceCapabilities_read_def AnnounceCapabilities_write_def)

lemma and_push_bit_1: "w AND push_bit n 1 = 0 \<longleftrightarrow> \<not> bit (w :: 'a::len word) n"
  by (auto simp: bit_eq_iff [where 'a = "'a word"] bit_simps dest: bit_imp_le_length)

lemma has_capability_bit:
  "has_capability a cap \<longleftrightarrow>
     (let i = unat cap div 32 in i < length (ac_caps a) \<and> bit (ac_caps a ! i) (unat cap mod 32))"
  by (simp add: has_capability_def and_push_bit_1 Let_def unat_mod del: push_bit_of_1)

lemma has_set_capability:
  assumes "cap < MAX_CAPABILITY"
  shows "has_capability (set_capability a cap) cap' \<longleftrightarrow> cap' = cap \<or> has_capability a cap'"
proof -
  let ?w = "unat cap div 32" and ?w' = "unat cap' div 32"
  let ?caps = "if length (ac_caps a) \<le> ?w
     then ac_caps a @ replicate (?w + 1 - length (ac_caps a)) 0 else ac_caps a"
  have set: "ac_caps (set_capability a cap) =
      ?caps[?w := (?caps ! ?w) OR push_bit (unat cap mod 32) 1]"
    using assms unfolding set_capability_def Let_def unat_mod by (simp add: not_le [symmetric])
  have w: "?w < length ?caps" by simp
  have old: "?w' < length ?caps \<and> bit (?caps ! ?w') k \<longleftrightarrow>
      ?w' < length (ac_caps a) \<and> bit (ac_caps a ! ?w') k" for k
    by (auto simp: nth_append)
  have eq: "cap' = cap \<longleftrightarrow> ?w' = ?w \<and> unat cap' mod 32 = unat cap mod 32"
    by (metis mod_mult_div_eq word_unat_eq_iff)
  have "bit (push_bit (unat cap mod 32) (1 :: u32)) (unat cap' mod 32) \<longleftrightarrow>
      unat cap' mod 32 = unat cap mod 32"
    by (auto simp: bit_simps)
  with w old eq show ?thesis
    unfolding has_capability_bit set Let_def
    by (cases "?w' = ?w") (auto simp: bit_simps nth_list_update)
qed

section \<open>Clipboard messages\<close>

definition read_selection :: "bool \<Rightarrow> u8 parser" where
  "read_selection hs =
     (if \<not> hs then retP VD_AGENT_CLIPBOARD_SELECTION_CLIPBOARD
      else bindP (read_array 4) (\<lambda>h. retP (h ! 0)))"

definition write_selection :: "u8 \<Rightarrow> bool \<Rightarrow> bytes" where
  "write_selection s hs = (if hs then [s, 0, 0, 0] else [])"

record clipboard_grab =
  grab_selection :: u8
  grab_types :: "u32 list"

definition ClipboardGrab_offers :: "clipboard_grab \<Rightarrow> u32 \<Rightarrow> bool" where
  "ClipboardGrab_offers v t \<longleftrightarrow> t \<in> set (grab_types v)"

definition ClipboardGrab_read_with :: "bool \<Rightarrow> clipboard_grab parser" where
  "ClipboardGrab_read_with hs =
     bindP (read_selection hs) (\<lambda>s. bindP get_remaining (\<lambda>n.
     bindP (read_vec_u32 (n div 4) (n div 4)) (\<lambda>ts.
       retP \<lparr>grab_selection = s, grab_types = ts\<rparr>)))"

definition ClipboardGrab_write_with :: "bool \<Rightarrow> clipboard_grab \<Rightarrow> bytes" where
  "ClipboardGrab_write_with hs v =
     write_selection (grab_selection v) hs @ concat (map u32_le (grab_types v))"

record clipboard_request =
  req_selection :: u8
  req_type :: u32

definition ClipboardRequest_read_with :: "bool \<Rightarrow> clipboard_request parser" where
  "ClipboardRequest_read_with hs =
     bindP (read_selection hs) (\<lambda>s. bindP read_u32 (\<lambda>t.
       retP \<lparr>req_selection = s, req_type = t\<rparr>))"

definition ClipboardRequest_write_with :: "bool \<Rightarrow> clipboard_request \<Rightarrow> bytes" where
  "ClipboardRequest_write_with hs v = write_selection (req_selection v) hs @ u32_le (req_type v)"

record clipboard =
  cb_selection :: u8
  cb_type :: u32
  cb_data :: bytes

definition Clipboard_read_with :: "bool \<Rightarrow> clipboard parser" where
  "Clipboard_read_with hs =
     bindP (read_selection hs) (\<lambda>s. bindP read_u32 (\<lambda>t. bindP get_remaining (\<lambda>n.
     bindP (read_bytes n) (\<lambda>d. retP \<lparr>cb_selection = s, cb_type = t, cb_data = d\<rparr>))))"

definition Clipboard_write_with :: "bool \<Rightarrow> clipboard \<Rightarrow> bytes" where
  "Clipboard_write_with hs v =
     write_selection (cb_selection v) hs @ u32_le (cb_type v) @ cb_data v"

record clipboard_release =
  rel_selection :: u8

definition ClipboardRelease_read_with :: "bool \<Rightarrow> clipboard_release parser" where
  "ClipboardRelease_read_with hs = bindP (read_selection hs) (\<lambda>s. retP \<lparr>rel_selection = s\<rparr>)"

definition ClipboardRelease_write_with :: "bool \<Rightarrow> clipboard_release \<Rightarrow> bytes" where
  "ClipboardRelease_write_with hs v = write_selection (rel_selection v) hs"

text \<open>
  Without the capability the selection is implicitly the clipboard one, so only values with that
  selection survive.
\<close>

definition selection_ok :: "bool \<Rightarrow> u8 \<Rightarrow> bool" where
  "selection_ok hs s \<longleftrightarrow> hs \<or> s = VD_AGENT_CLIPBOARD_SELECTION_CLIPBOARD"

lemma read_selection_write [simp]:
  "selection_ok hs s \<Longrightarrow> read_selection hs (at pre (write_selection s hs @ post)) =
     Inr (s, at (pre @ write_selection s hs) post)"
  by (auto simp: read_selection_def write_selection_def selection_ok_def parse_iff)

lemma read_selection_write_end [simp]:
  "selection_ok hs s \<Longrightarrow> read_selection hs (at pre (write_selection s hs)) =
     Inr (s, at (pre @ write_selection s hs) [])"
  using read_selection_write [of hs s pre "[]"] by simp

interpretation clipboard_grab:
  wire_body "ClipboardGrab_read_with hs" "ClipboardGrab_write_with hs"
    "\<lambda>v. selection_ok hs (grab_selection v)" for hs
  by unfold_locales (simp add: ClipboardGrab_read_with_def ClipboardGrab_write_with_def)

interpretation clipboard_request:
  wire_type "ClipboardRequest_read_with hs" "ClipboardRequest_write_with hs"
    "\<lambda>v. selection_ok hs (req_selection v)" for hs
  by unfold_locales (simp add: ClipboardRequest_read_with_def ClipboardRequest_write_with_def)

interpretation clipboard:
  wire_body "Clipboard_read_with hs" "Clipboard_write_with hs"
    "\<lambda>v. selection_ok hs (cb_selection v)" for hs
  by unfold_locales (simp add: Clipboard_read_with_def Clipboard_write_with_def)

interpretation clipboard_release:
  wire_type "ClipboardRelease_read_with hs" "ClipboardRelease_write_with hs"
    "\<lambda>v. selection_ok hs (rel_selection v)" for hs
  by unfold_locales (simp add: ClipboardRelease_read_with_def ClipboardRelease_write_with_def)

end
