(* ===== verification/Agent_Stream.thy ===== *)
theory Agent_Stream
  imports Messages_VdAgent
begin

text \<open>
  \<open>AgentReassembler\<close> (\<open>shakenfist-spice-protocol/src/messages/agent_stream.rs\<close>): guest agent
  messages put back together from the bodies of AGENT_DATA messages. The state machine has the
  source's four states; \<open>step_agent\<close> consumes what a state wants from the front of the bytes left,
  and \<open>push_loop\<close> is the \<open>while\<close> loop of \<open>push\<close>. \<open>None\<close> is the panic of the \<open>expect\<close> in the
  header state, which the invariant \<open>ra_ok\<close> rules out.

  The capacity of a body's \<open>Vec\<close> is not part of its value: the machine carries the bytes, and
  \<open>grow\<close>, which chooses the capacity, is modelled beside it.
\<close>

section \<open>State and operations\<close>

definition MAX_AGENT_MESSAGE_SIZE :: nat where
  "MAX_AGENT_MESSAGE_SIZE = 100 * 1024 * 1024 + 4096"

definition VD_HEADER_SIZE :: nat where "VD_HEADER_SIZE = 20"

record agent_message =
  am_header :: vd_agent_header
  am_payload :: bytes

datatype agent_stream_item =
  Message agent_message
| Oversized vd_agent_header
| BadProtocol vd_agent_header

datatype agent_state =
  Header bytes nat
| Body vd_agent_header bytes
| Skip nat
| Resync

record agent_reassembler =
  ra_max :: nat
  ra_state :: agent_state

definition State_header :: agent_state where
  "State_header = Header (replicate VD_HEADER_SIZE 0) 0"

definition AgentReassembler_new :: "nat \<Rightarrow> agent_reassembler" where
  "AgentReassembler_new mx = \<lparr>ra_max = mx, ra_state = State_header\<rparr>"

definition AgentReassembler_default :: agent_reassembler where
  "AgentReassembler_default = AgentReassembler_new MAX_AGENT_MESSAGE_SIZE"

definition AgentReassembler_reset :: "agent_reassembler \<Rightarrow> agent_reassembler" where
  "AgentReassembler_reset r = r\<lparr>ra_state := State_header\<rparr>"

definition at_message_boundary :: "agent_reassembler \<Rightarrow> bool" where
  "at_message_boundary r =
     (case ra_state r of
        Header b filled \<Rightarrow> filled = 0
      | Resync \<Rightarrow> True
      | Body h p \<Rightarrow> False
      | Skip n \<Rightarrow> False)"

definition start_body ::
  "nat \<Rightarrow> vd_agent_header \<Rightarrow> bytes \<Rightarrow> agent_state \<times> bytes \<times> agent_stream_item list" where
  "start_body mx header rest =
     (let sz = unat (vh_size header) in
      if vh_protocol header \<noteq> VD_AGENT_PROTOCOL then (Resync, [], [BadProtocol header])
      else if sz > mx then (Skip sz, rest, [Oversized header])
      else if sz = 0
      then (State_header, rest, [Message \<lparr>am_header = header, am_payload = []\<rparr>])
      else (Body header [], rest, []))"

fun step_agent ::
  "nat \<Rightarrow> agent_state \<Rightarrow> bytes \<Rightarrow> (agent_state \<times> bytes \<times> agent_stream_item list) option" where
  "step_agent mx (Header buf filled) rest =
     (let n = min (VD_HEADER_SIZE - filled) (length rest);
          buf' = take filled buf @ take n rest @ drop (filled + n) buf;
          filled' = filled + n;
          rest' = drop n rest in
      if filled' < VD_HEADER_SIZE then Some (Header buf' filled', rest', [])
      else case decode VdAgentMessageHeader_read buf' of
        Inl e \<Rightarrow> None
      | Inr header \<Rightarrow> Some (start_body mx header rest'))"
| "step_agent mx (Body header payload) rest =
     (let sz = unat (vh_size header);
          n = min (sz - length payload) (length rest);
          payload' = payload @ take n rest;
          rest' = drop n rest in
      if length payload' < sz then Some (Body header payload', rest', [])
      else Some (State_header, rest', [Message \<lparr>am_header = header, am_payload = payload'\<rparr>]))"
| "step_agent mx (Skip left) rest =
     (let n = min left (length rest);
          rest' = drop n rest in
      if left > n then Some (Skip (left - n), rest', []) else Some (State_header, rest', []))"
| "step_agent mx Resync rest = Some (Resync, [], [])"

text \<open>A state that wants nothing moves on to one that does, so the loop ends from every state.\<close>

fun stale :: "agent_state \<Rightarrow> bool" where
  "stale (Header b filled) \<longleftrightarrow> VD_HEADER_SIZE \<le> filled"
| "stale (Body h p) \<longleftrightarrow> unat (vh_size h) \<le> length p"
| "stale (Skip n) \<longleftrightarrow> n = 0"
| "stale Resync \<longleftrightarrow> False"

lemma stale_State_header [simp]: "\<not> stale State_header"
  by (simp add: State_header_def VD_HEADER_SIZE_def)

lemma start_body_progress:
  "start_body mx h rest = (st', rest', out) \<Longrightarrow> length rest' \<le> length rest \<and> \<not> stale st'"
  by (auto simp: start_body_def Let_def split: if_splits)

lemma step_agent_progress:
  assumes "step_agent mx st rest = Some (st', rest', out)" and "rest \<noteq> []"
  shows "length rest' < length rest \<or> length rest' = length rest \<and> stale st \<and> \<not> stale st'"
proof (cases st)
  case (Header b filled)
  with assms show ?thesis
    using start_body_progress [of mx _ "drop (min (VD_HEADER_SIZE - filled) (length rest)) rest"]
    by (fastforce simp: Let_def split: if_splits sum.splits)
qed (use assms in \<open>auto simp: Let_def split: if_splits\<close>)

function push_loop ::
  "nat \<Rightarrow> agent_state \<Rightarrow> bytes \<Rightarrow> (agent_stream_item list \<times> agent_state) option" where
  "push_loop mx st rest =
     (if rest = [] then Some ([], st)
      else case step_agent mx st rest of
        None \<Rightarrow> None
      | Some (st', rest', out) \<Rightarrow>
          (case push_loop mx st' rest' of
             None \<Rightarrow> None
           | Some (out', st'') \<Rightarrow> Some (out @ out', st'')))"
  by pat_completeness auto
termination
  by (relation "measures [\<lambda>(mx, st, rest). length rest, \<lambda>(mx, st, rest). of_bool (stale st)]")
    (auto dest: step_agent_progress [rotated])

declare push_loop.simps [simp del]

definition push ::
  "agent_reassembler \<Rightarrow> bytes \<Rightarrow> (agent_stream_item list \<times> agent_reassembler) option" where
  "push r chunk =
     (let st = (if ra_state r = Resync then State_header else ra_state r) in
      case push_loop (ra_max r) st chunk of
        None \<Rightarrow> None
      | Some (out, st') \<Rightarrow> Some (out, r\<lparr>ra_state := st'\<rparr>))"

fun push_all ::
  "agent_reassembler \<Rightarrow> bytes list \<Rightarrow> (agent_stream_item list \<times> agent_reassembler) option" where
  "push_all r [] = Some ([], r)"
| "push_all r (c # cs) =
     (case push r c of
        None \<Rightarrow> None
      | Some (out, r') \<Rightarrow>
          (case push_all r' cs of None \<Rightarrow> None | Some (out', r'') \<Rightarrow> Some (out @ out', r'')))"

definition grow :: "nat \<Rightarrow> nat \<Rightarrow> nat \<Rightarrow> nat \<Rightarrow> nat" where
  "grow len capacity extra tot =
     (let needed = len + extra in
      if needed > capacity
      then (let target = min (max needed (min (capacity * 2) USIZE_MAX)) tot in
            len + (target - len))
      else capacity)"

section \<open>Invariant: nothing over the cap is buffered, and no push panics\<close>

fun ra_ok :: "nat \<Rightarrow> agent_state \<Rightarrow> bool" where
  "ra_ok mx (Header b filled) \<longleftrightarrow> length b = VD_HEADER_SIZE \<and> filled < VD_HEADER_SIZE"
| "ra_ok mx (Body h p) \<longleftrightarrow> vh_protocol h = VD_AGENT_PROTOCOL \<and> length p < unat (vh_size h)
     \<and> unat (vh_size h) \<le> mx"
| "ra_ok mx (Skip n) \<longleftrightarrow> 0 < n"
| "ra_ok mx Resync \<longleftrightarrow> True"

fun item_ok :: "nat \<Rightarrow> agent_stream_item \<Rightarrow> bool" where
  "item_ok mx (Message m) \<longleftrightarrow> vh_protocol (am_header m) = VD_AGENT_PROTOCOL
     \<and> length (am_payload m) = unat (vh_size (am_header m)) \<and> length (am_payload m) \<le> mx"
| "item_ok mx (Oversized h) \<longleftrightarrow> vh_protocol h = VD_AGENT_PROTOCOL \<and> unat (vh_size h) > mx"
| "item_ok mx (BadProtocol h) \<longleftrightarrow> vh_protocol h \<noteq> VD_AGENT_PROTOCOL"

lemma ra_ok_State_header [simp]: "ra_ok mx State_header"
  by (simp add: State_header_def VD_HEADER_SIZE_def)

lemma start_body_ok:
  "start_body mx h rest = (st', rest', out) \<Longrightarrow> ra_ok mx st' \<and> list_all (item_ok mx) out"
  by (auto simp: start_body_def Let_def split: if_splits)

lemma decode_header_20:
  "length buf = VD_HEADER_SIZE \<Longrightarrow> \<exists>h. decode VdAgentMessageHeader_read buf = Inr h"
  by (simp add: vd_agent_header.decode_succeeds_iff VD_HEADER_SIZE_def)

lemma step_agent_ok:
  assumes "ra_ok mx st"
  shows "\<exists>st' rest' out. step_agent mx st rest = Some (st', rest', out)
           \<and> ra_ok mx st' \<and> list_all (item_ok mx) out"
proof (cases st)
  case (Header b filled)
  let ?n = "min (VD_HEADER_SIZE - filled) (length rest)"
  let ?b = "take filled b @ take ?n rest @ drop (filled + ?n) b"
  have "length ?b = VD_HEADER_SIZE"
    using assms Header by (auto simp: min_def)
  from decode_header_20 [OF this] obtain h where "decode VdAgentMessageHeader_read ?b = Inr h" ..
  with \<open>length ?b = _\<close> start_body_ok [of mx h "drop ?n rest"] assms Header show ?thesis
    by (cases "start_body mx h (drop ?n rest)") (auto simp: Let_def)
qed (use assms in \<open>auto simp: Let_def\<close>)

lemma push_loop_ok:
  "ra_ok mx st \<Longrightarrow>
     \<exists>out st'. push_loop mx st rest = Some (out, st') \<and> ra_ok mx st' \<and> list_all (item_ok mx) out"
proof (induction mx st rest rule: push_loop.induct)
  case (1 mx st rest)
  show ?case
  proof (cases "rest = []")
    case True
    with "1.prems" show ?thesis by (simp add: push_loop.simps)
  next
    case False
    from step_agent_ok [OF "1.prems", of rest] obtain st1 rest1 out1 where
      s: "step_agent mx st rest = Some (st1, rest1, out1)" "ra_ok mx st1" "list_all (item_ok mx) out1"
      by blast
    from "1.IH" [OF False s(1) refl refl s(2)] s False show ?thesis
      by (subst push_loop.simps) auto
  qed
qed

lemma push_ok:
  assumes "ra_ok (ra_max r) (ra_state r)"
  shows "\<exists>out r'. push r chunk = Some (out, r') \<and> ra_max r' = ra_max r
           \<and> ra_ok (ra_max r') (ra_state r') \<and> list_all (item_ok (ra_max r)) out"
proof -
  have "ra_ok (ra_max r) (if ra_state r = Resync then State_header else ra_state r)"
    using assms by simp
  from push_loop_ok [OF this, of chunk] show ?thesis
    by (auto simp: push_def Let_def)
qed

lemma push_all_ok:
  "ra_ok (ra_max r) (ra_state r) \<Longrightarrow>
     \<exists>out r'. push_all r chunks = Some (out, r') \<and> ra_max r' = ra_max r
           \<and> ra_ok (ra_max r') (ra_state r') \<and> list_all (item_ok (ra_max r)) out"
proof (induction chunks arbitrary: r)
  case Nil
  then show ?case by simp
next
  case (Cons c cs)
  from push_ok [OF Cons.prems, of c] obtain out r' where
    r': "push r c = Some (out, r')" "ra_max r' = ra_max r" "ra_ok (ra_max r') (ra_state r')"
      "list_all (item_ok (ra_max r)) out"
    by blast
  from Cons.IH [OF r'(3)] r' show ?case by auto
qed

section \<open>Chunking\<close>

text \<open>
  Either a step takes all it wants from the first part, or it takes all of the first part and the
  next step goes on where it stopped.
\<close>

lemma step_agent_append:
  assumes "ra_ok mx st" and "step_agent mx st xs = Some (st', rest, out)" and "st' \<noteq> Resync"
    and "ys \<noteq> []"
  shows "step_agent mx st (xs @ ys) = Some (st', rest @ ys, out)
       \<or> rest = [] \<and> out = [] \<and> step_agent mx st (xs @ ys) = step_agent mx st' ys"
proof (cases st)
  case (Header b filled)
  show ?thesis
  proof (cases "length xs < VD_HEADER_SIZE - filled")
    case True
    let ?b = "take filled b @ xs @ drop (filled + length xs) b"
    define n where "n = min (VD_HEADER_SIZE - (filled + length xs)) (length ys)"
    from True Header assms have st':
      "st' = Header ?b (filled + length xs)" "rest = []" "out = []"
      by (simp_all add: Let_def less_diff_conv add.commute)
    have n1: "min (VD_HEADER_SIZE - filled) (length (xs @ ys)) = length xs + n"
      using True by (simp add: n_def)
    have buf: "take filled b @ take (length xs + n) (xs @ ys) @ drop (filled + (length xs + n)) b =
        take (filled + length xs) ?b @ take n ys @ drop (filled + length xs + n) ?b"
      using assms(1) Header True by (simp add: ac_simps)
    have "drop (length xs + n) (xs @ ys) = drop n ys" by simp
    then have "step_agent mx st (xs @ ys) = step_agent mx st' ys"
      unfolding Header st'(1) step_agent.simps Let_def n1 n_def [symmetric] buf
      by (simp only: add.assoc)
    with st' show ?thesis by simp
  next
    case False
    with Header assms show ?thesis
      by (auto simp: Let_def min_def start_body_def split: sum.splits if_splits)
  qed
next
  case (Body h p)
  show ?thesis
  proof (cases "length xs < unat (vh_size h) - length p")
    case True
    define n where "n = min (unat (vh_size h) - (length p + length xs)) (length ys)"
    from True Body assms have st': "st' = Body h (p @ xs)" "rest = []" "out = []"
      by (simp_all add: Let_def less_diff_conv add.commute)
    have n1: "min (unat (vh_size h) - length p) (length (xs @ ys)) = length xs + n"
      using True by (simp add: n_def)
    have "drop (length xs + n) (xs @ ys) = drop n ys" by simp
    then have "step_agent mx st (xs @ ys) = step_agent mx st' ys"
      unfolding Body st'(1) step_agent.simps Let_def n1
      unfolding length_append n_def [symmetric] by simp
    with st' show ?thesis by simp
  next
    case False
    with Body assms show ?thesis by (auto simp: Let_def min_def split: if_splits)
  qed
next
  case (Skip n)
  with assms show ?thesis
    by (cases "length xs < n") (auto simp: Let_def min_def split: if_splits)
next
  case Resync
  with assms show ?thesis by simp
qed

lemma push_loop_Nil [simp]: "push_loop mx st [] = Some ([], st)"
  by (simp add: push_loop.simps)

lemma push_loop_append:
  "ra_ok mx st \<Longrightarrow> push_loop mx st xs = Some (out, st') \<Longrightarrow> st' \<noteq> Resync \<Longrightarrow>
     push_loop mx st (xs @ ys) =
       (case push_loop mx st' ys of None \<Rightarrow> None | Some (out', st'') \<Rightarrow> Some (out @ out', st''))"
proof (induction mx st xs arbitrary: out rule: push_loop.induct)
  case (1 mx st xs)
  show ?case
  proof (cases "xs = [] \<or> ys = []")
    case True
    with "1.prems" show ?thesis
      by (auto split: option.splits)
  next
    case False
    from step_agent_ok [OF "1.prems"(1), of xs] obtain st1 xs1 out1 where
      s: "step_agent mx st xs = Some (st1, xs1, out1)" "ra_ok mx st1"
      by blast
    with "1.prems"(2) False obtain out2 where
      l: "push_loop mx st1 xs1 = Some (out2, st')" "out = out1 @ out2"
      by (subst (asm) push_loop.simps) (auto split: option.splits)
    have "st1 \<noteq> Resync"
    proof
      assume "st1 = Resync"
      with l(1) "1.prems"(3) show False
        by (cases "xs1 = []") (simp_all add: push_loop.simps)
    qed
    from step_agent_append [OF "1.prems"(1) s(1) this] False
    consider "step_agent mx st (xs @ ys) = Some (st1, xs1 @ ys, out1)"
      | "xs1 = []" "out1 = []" "step_agent mx st (xs @ ys) = step_agent mx st1 ys"
      by blast
    then show ?thesis
    proof cases
      case 1
      with "1.IH" [OF _ s(1) refl refl s(2) l(1) "1.prems"(3)] False l(2) show ?thesis
        by (subst push_loop.simps) (simp split: option.splits)
    next
      case 2
      with l False show ?thesis
        by (subst (1 2) push_loop.simps) (auto split: option.splits)
    qed
  qed
qed

text \<open>A bad header drops the rest of the bytes it came with, so more of them change nothing.\<close>

lemma step_agent_Resync:
  assumes "ra_ok mx st" and "st \<noteq> Resync" and "step_agent mx st xs = Some (Resync, rest, out)"
  shows "rest = [] \<and> step_agent mx st (xs @ ys) = Some (Resync, [], out)"
proof (cases st)
  case (Header b filled)
  have "VD_HEADER_SIZE - filled \<le> length xs"
    by (rule ccontr) (use assms Header in \<open>auto simp: Let_def min_def split: if_splits\<close>)
  with Header assms show ?thesis
    by (auto simp: Let_def min_def start_body_def State_header_def split: sum.splits if_splits)
qed (use assms in \<open>auto simp: Let_def State_header_def split: if_splits\<close>)

lemma push_loop_Resync:
  "ra_ok mx st \<Longrightarrow> st \<noteq> Resync \<Longrightarrow> push_loop mx st xs = Some (out, Resync) \<Longrightarrow>
     push_loop mx st (xs @ ys) = Some (out, Resync)"
proof (induction mx st xs arbitrary: out rule: push_loop.induct)
  case (1 mx st xs)
  show ?case
  proof (cases "xs = [] \<or> ys = []")
    case True
    with "1.prems" show ?thesis by auto
  next
    case False
    from step_agent_ok [OF "1.prems"(1), of xs] obtain st1 xs1 out1 where
      s: "step_agent mx st xs = Some (st1, xs1, out1)" "ra_ok mx st1"
      by blast
    with "1.prems"(3) False obtain out2 where
      l: "push_loop mx st1 xs1 = Some (out2, Resync)" "out = out1 @ out2"
      by (subst (asm) push_loop.simps) (auto split: option.splits)
    show ?thesis
    proof (cases "st1 = Resync")
      case True
      with step_agent_Resync [OF "1.prems"(1,2), of xs xs1 out1 ys] s l False show ?thesis
        by (subst push_loop.simps) auto
    next
      case st1: False
      from step_agent_append [OF "1.prems"(1) s(1) st1] False
      consider "step_agent mx st (xs @ ys) = Some (st1, xs1 @ ys, out1)"
        | "xs1 = []" "out1 = []" "step_agent mx st (xs @ ys) = step_agent mx st1 ys"
        by blast
      then show ?thesis
      proof cases
        case 1
        with "1.IH" [OF _ s(1) refl refl s(2) st1 l(1)] False l(2) show ?thesis
          by (subst push_loop.simps) simp
      next
        case 2
        with l(1) st1 show ?thesis by simp
      qed
    qed
  qed
qed

text \<open>Without a bad header, how the stream is cut into AGENT_DATA bodies does not matter.\<close>

lemma push_all_concat:
  assumes "ra_ok (ra_max r) (ra_state r)" and "ra_state r \<noteq> Resync"
    and "push_loop (ra_max r) (ra_state r) (concat chunks) = Some (out, st')"
    and "st' \<noteq> Resync"
  shows "push_all r chunks = Some (out, r\<lparr>ra_state := st'\<rparr>)"
  using assms
proof (induction chunks arbitrary: r out)
  case Nil
  then show ?case by simp
next
  case (Cons c cs)
  from push_loop_ok [OF Cons.prems(1), of c] obtain out1 st1 where
    s: "push_loop (ra_max r) (ra_state r) c = Some (out1, st1)" "ra_ok (ra_max r) st1"
    by blast
  have st1: "st1 \<noteq> Resync"
    using push_loop_Resync [OF Cons.prems(1,2), of c out1 "concat cs"] s Cons.prems(3,4) by auto
  from push_loop_append [OF Cons.prems(1) s(1) st1, of "concat cs"] Cons.prems(3) obtain out2 where
    l: "push_loop (ra_max r) st1 (concat cs) = Some (out2, st')" "out = out1 @ out2"
    by (auto split: option.splits)
  from Cons.IH [of "r\<lparr>ra_state := st1\<rparr>" out2] s st1 l Cons.prems show ?case
    by (simp add: push_def Let_def)
qed

section \<open>Whole messages\<close>

text \<open>A message as the sender writes it, and the item a reassembler with cap \<open>mx\<close> makes of it.\<close>

definition agent_wire :: "agent_message \<Rightarrow> bytes" where
  "agent_wire m = VdAgentMessageHeader_write (am_header m) @ am_payload m"

definition sendable :: "agent_message \<Rightarrow> bool" where
  "sendable m \<longleftrightarrow> vh_protocol (am_header m) = VD_AGENT_PROTOCOL
     \<and> unat (vh_size (am_header m)) = length (am_payload m)"

definition received_item :: "nat \<Rightarrow> agent_message \<Rightarrow> agent_stream_item" where
  "received_item mx m =
     (if length (am_payload m) > mx then Oversized (am_header m) else Message m)"

lemma length_header [simp]: "length (VdAgentMessageHeader_write h) = VD_HEADER_SIZE"
  by (simp add: vd_agent_header.length_wr VD_HEADER_SIZE_def)

lemma VD_HEADER_SIZE_pos [simp]: "0 < VD_HEADER_SIZE" "VdAgentMessageHeader_write h \<noteq> []"
  by (simp_all add: VD_HEADER_SIZE_def flip: length_greater_0_conv)

lemma push_loop_header:
  "push_loop mx State_header (VdAgentMessageHeader_write h @ xs) =
     (let (st, rest, out) = start_body mx h xs in
      case push_loop mx st rest of None \<Rightarrow> None | Some (out', st') \<Rightarrow> Some (out @ out', st'))"
proof -
  have "step_agent mx State_header (VdAgentMessageHeader_write h @ xs) = Some (start_body mx h xs)"
    by (simp add: State_header_def Let_def vd_agent_header.decode_wr)
  then show ?thesis
    by (subst push_loop.simps) (simp add: split: prod.splits)
qed

lemma push_loop_body:
  assumes "p \<noteq> []" and "unat (vh_size h) = length p"
  shows "push_loop mx (Body h []) (p @ xs) =
     (case push_loop mx State_header xs of
        None \<Rightarrow> None
      | Some (out, st) \<Rightarrow> Some (Message \<lparr>am_header = h, am_payload = p\<rparr> # out, st))"
  using assms by (subst push_loop.simps) (simp add: Let_def split: option.splits)

lemma push_loop_skip:
  assumes "p \<noteq> []"
  shows "push_loop mx (Skip (length p)) (p @ xs) = push_loop mx State_header xs"
  using assms by (subst push_loop.simps) (simp add: Let_def split: option.splits)

lemma push_loop_wire:
  assumes "sendable m"
  shows "push_loop mx State_header (agent_wire m @ xs) =
     (case push_loop mx State_header xs of
        None \<Rightarrow> None | Some (out, st) \<Rightarrow> Some (received_item mx m # out, st))"
  using assms push_loop_body [of "am_payload m" "am_header m" mx xs] push_loop_skip [of "am_payload m" mx xs]
  by (cases "am_payload m = []")
    (auto simp: agent_wire_def push_loop_header start_body_def Let_def sendable_def received_item_def
      split: option.splits)

lemma push_loop_wires:
  "list_all sendable ms \<Longrightarrow>
     push_loop mx State_header (concat (map agent_wire ms) @ xs) =
       (case push_loop mx State_header xs of
          None \<Rightarrow> None | Some (out, st) \<Rightarrow> Some (map (received_item mx) ms @ out, st))"
proof (induction ms)
  case Nil
  then show ?case by (simp split: option.splits)
next
  case (Cons m ms)
  then show ?case
    using push_loop_wire [of m mx "concat (map agent_wire ms) @ xs"]
    by (auto split: option.splits)
qed

lemma State_header_not_Resync [simp]: "State_header \<noteq> Resync"
  by (simp add: State_header_def)

lemma push_all_wires:
  assumes "list_all sendable ms" and "concat chunks = concat (map agent_wire ms)"
    and "ra_state r = State_header"
  shows "push_all r chunks = Some (map (received_item (ra_max r)) ms, r)"
proof -
  have "push_loop (ra_max r) (ra_state r) (concat chunks) =
      Some (map (received_item (ra_max r)) ms, State_header)"
    using push_loop_wires [OF assms(1), of "ra_max r" "[]"] assms(2,3) by simp
  from push_all_concat [OF _ _ this] assms(3) show ?thesis
    by simp
qed

section \<open>Buffer growth\<close>

text \<open>Body bytes arriving in runs: the length and the capacity after each \<open>grow\<close> and append.\<close>

fun grow_all :: "nat \<Rightarrow> nat \<times> nat \<Rightarrow> nat list \<Rightarrow> nat \<times> nat" where
  "grow_all tot s [] = s"
| "grow_all tot (len, capacity) (n # ns) = grow_all tot (len + n, grow len capacity n tot) ns"

lemma grow_bounds:
  assumes "len + n \<le> tot" and "capacity \<le> 2 * len" and "capacity \<le> tot"
  shows "len + n \<le> grow len capacity n tot" and "grow len capacity n tot \<le> 2 * (len + n)"
    and "grow len capacity n tot \<le> tot"
  using assms by (auto simp: grow_def Let_def)

lemma grow_all_bounds:
  assumes "len + sum_list ns \<le> tot" and "len \<le> capacity" and "capacity \<le> 2 * len"
    and "capacity \<le> tot" and "grow_all tot (len, capacity) ns = (len', capacity')"
  shows "len' = len + sum_list ns \<and> len' \<le> capacity' \<and> capacity' \<le> 2 * len' \<and> capacity' \<le> tot"
  using assms
proof (induction ns arbitrary: len capacity)
  case (Cons n ns)
  have "grow_all tot (len + n, grow len capacity n tot) ns = (len', capacity')"
    using Cons.prems by simp
  from Cons.IH [OF _ _ _ _ this] grow_bounds [of len n tot capacity] Cons.prems show ?case
    by simp
qed simp

section \<open>Properties\<close>

lemma ra_ok_new: "ra_ok (ra_max (AgentReassembler_new mx)) (ra_state (AgentReassembler_new mx))"
  by (simp add: AgentReassembler_new_def)

text \<open>C6: Whatever AGENT_DATA bodies a server sends, the reassembler never panics, never holds a
  partial body over its cap, and every message it delivers carries the right protocol, exactly
  \<open>header.size\<close> bytes and no more than the cap.\<close>

theorem reassembler_safe:
  "\<exists>out r. push_all (AgentReassembler_new mx) chunks = Some (out, r)
     \<and> ra_ok mx (ra_state r) \<and> list_all (item_ok mx) out"
  using push_all_ok [OF ra_ok_new, of mx chunks]
  by (force simp: AgentReassembler_new_def)

text \<open>C5: However the server cuts a stream of agent messages into AGENT_DATA bodies, the reassembler
  delivers each of them, in order, reports one whose body is over the cap as oversized without
  losing the ones after it, and is back at a message boundary.\<close>

theorem reassembler_roundtrip:
  assumes "list_all sendable ms" and "concat chunks = concat (map agent_wire ms)"
  shows "push_all (AgentReassembler_new mx) chunks
           = Some (map (received_item mx) ms, AgentReassembler_new mx)
         \<and> at_message_boundary (AgentReassembler_new mx)"
  using push_all_wires [OF assms, of "AgentReassembler_new mx"]
  by (simp add: AgentReassembler_new_def at_message_boundary_def State_header_def)

theorem reassembler_roundtrip_witness:
  "let small = \<lparr>am_header = VdAgentMessageHeader_new 3 1, am_payload = [5]\<rparr>;
       big = \<lparr>am_header = VdAgentMessageHeader_new 4 3, am_payload = [6, 7, 8]\<rparr>;
       bs = agent_wire big @ agent_wire small in
   push_all (AgentReassembler_new 2) [take 7 bs, drop 7 bs]
     = Some (map (received_item 2) [big, small], AgentReassembler_new 2)
   \<and> at_message_boundary (AgentReassembler_new 2)"
  unfolding Let_def
  by (rule reassembler_roundtrip)
    (simp add: sendable_def VdAgentMessageHeader_new_def,
     simp only: concat.simps list.map append_Nil2 append_take_drop_id)

text \<open>C7: A header with the wrong protocol is reported after the messages before it, drops the rest
  of its AGENT_DATA body, and the next body is read exactly as by a fresh reassembler.\<close>

theorem reassembler_resync:
  assumes "list_all sendable ms" and "vh_protocol h \<noteq> VD_AGENT_PROTOCOL"
    and "bad = concat (map agent_wire ms) @ VdAgentMessageHeader_write h @ junk"
  shows "\<exists>r. push (AgentReassembler_new mx) bad
           = Some (map (received_item mx) ms @ [BadProtocol h], r)
         \<and> push r chunk = push (AgentReassembler_new mx) chunk"
proof -
  have "push_loop mx State_header bad
      = Some (map (received_item mx) ms @ [BadProtocol h], Resync)"
    using assms(2)
    by (simp add: assms(3) push_loop_wires [OF assms(1)] push_loop_header start_body_def)
  then show ?thesis
    by (auto simp: push_def AgentReassembler_new_def Let_def split: option.splits)
qed

theorem reassembler_resync_witness:
  "let h = \<lparr>vh_protocol = 9, vh_message_type = 1, vh_opaque = 0, vh_size = 0\<rparr> in
   \<exists>r. push (AgentReassembler_new 2) (VdAgentMessageHeader_write h @ [1, 2])
        = Some (map (received_item 2) [] @ [BadProtocol h], r)
     \<and> push r [1] = push (AgentReassembler_new 2) [1]"
  unfolding Let_def by (rule reassembler_resync) (simp_all add: VD_AGENT_PROTOCOL_def)

text \<open>However a body arrives, its buffer is never larger than the declared size, and never more
  than twice what has arrived: a header costs nothing until the data behind it does.\<close>

theorem grow_follows_data:
  assumes "sum_list ns \<le> tot" and "grow_all tot (0, 0) ns = (len, capacity)"
  shows "len = sum_list ns \<and> len \<le> capacity \<and> capacity \<le> 2 * len \<and> capacity \<le> tot"
  using grow_all_bounds [of 0 ns tot 0 len capacity] assms by simp

theorem grow_follows_data_witness:
  "(3000::nat) = sum_list [1000, 2000] \<and> (3000::nat) \<le> 3000 \<and> (3000::nat) \<le> 2 * 3000
     \<and> (3000::nat) \<le> 5000"
  by (rule grow_follows_data) (simp_all add: grow_def USIZE_MAX_def)

end
