(* ===== verification/Agent_Queue.thy ===== *)
theory Agent_Queue
  imports Prelude "HOL-Library.Sublist"
begin

text \<open>
  \<open>AgentSendQueue\<close> (\<open>shakenfist-spice-renderer/src/channels/agent_queue.rs\<close>): outgoing guest agent
  messages, released one AGENT_DATA chunk per server token. What the queue promises is that the
  chunks, put end to end, are whole messages in the order they were queued, whatever the
  interleaving of queueing, sending and agent disconnects: once the first chunk of a message is out,
  every other byte of it follows before anything else.
\<close>

section \<open>State and operations\<close>

definition MAX_AGENT_CHUNK :: nat where
  "MAX_AGENT_CHUNK = 2048 - 6"

definition MAX_QUEUED_AGENT_MESSAGES :: nat where
  "MAX_QUEUED_AGENT_MESSAGES = 32"

record pending_message =
  pm_data :: bytes
  pm_sent :: nat

record agent_send_queue =
  aq_messages :: "pending_message list"

definition AgentSendQueue_default :: agent_send_queue where
  "AgentSendQueue_default = \<lparr>aq_messages = []\<rparr>"

definition aq_push :: "agent_send_queue \<Rightarrow> bytes \<Rightarrow> bool \<times> agent_send_queue" where
  "aq_push q message =
     (if length (aq_messages q) \<ge> MAX_QUEUED_AGENT_MESSAGES then (False, q)
      else (True,
        if message \<noteq> []
        then q\<lparr>aq_messages := aq_messages q @ [\<lparr>pm_data = message, pm_sent = 0\<rparr>]\<rparr>
        else q))"

definition next_chunk :: "agent_send_queue \<Rightarrow> (bytes \<times> agent_send_queue) option" where
  "next_chunk q =
     (case aq_messages q of
        [] \<Rightarrow> None
      | front # rest \<Rightarrow>
          (let e = min (pm_sent front + MAX_AGENT_CHUNK) (length (pm_data front));
               chunk = take (e - pm_sent front) (drop (pm_sent front) (pm_data front));
               front' = front\<lparr>pm_sent := e\<rparr> in
           Some (chunk,
             q\<lparr>aq_messages := (if e = length (pm_data front) then rest else front' # rest)\<rparr>)))"

definition discard_unstarted :: "agent_send_queue \<Rightarrow> agent_send_queue" where
  "discard_unstarted q =
     (let keep = (case aq_messages q of [] \<Rightarrow> 0 | m # _ \<Rightarrow> if pm_sent m > 0 then 1 else 0) in
      q\<lparr>aq_messages := take keep (aq_messages q)\<rparr>)"

definition aq_is_empty :: "agent_send_queue \<Rightarrow> bool" where
  "aq_is_empty q \<longleftrightarrow> aq_messages q = []"

definition aq_len :: "agent_send_queue \<Rightarrow> nat" where
  "aq_len q = length (aq_messages q)"

section \<open>Invariant and abstraction\<close>

definition aq_ok :: "agent_send_queue \<Rightarrow> bool" where
  "aq_ok q \<longleftrightarrow> length (aq_messages q) \<le> MAX_QUEUED_AGENT_MESSAGES
     \<and> list_all (\<lambda>m. pm_sent m < length (pm_data m)) (aq_messages q)
     \<and> list_all (\<lambda>m. pm_sent m = 0) (tl (aq_messages q))"

text \<open>The bytes still to go, in order; the part of them that belongs to a message already begun;
  and the messages not begun.\<close>

definition owed :: "agent_send_queue \<Rightarrow> bytes" where
  "owed q = concat (map (\<lambda>m. drop (pm_sent m) (pm_data m)) (aq_messages q))"

definition started_tail :: "agent_send_queue \<Rightarrow> bytes" where
  "started_tail q =
     (case aq_messages q of
        [] \<Rightarrow> [] | m # _ \<Rightarrow> if pm_sent m > 0 then drop (pm_sent m) (pm_data m) else [])"

definition unstarted :: "agent_send_queue \<Rightarrow> bytes list" where
  "unstarted q = map pm_data (filter (\<lambda>m. pm_sent m = 0) (aq_messages q))"

lemma MAX_AGENT_CHUNK_pos [simp]: "0 < MAX_AGENT_CHUNK"
  by (simp add: MAX_AGENT_CHUNK_def)

lemma aq_ok_default [simp]: "aq_ok AgentSendQueue_default"
  by (simp add: aq_ok_def AgentSendQueue_default_def)

lemma aq_ok_push: "aq_ok q \<Longrightarrow> aq_ok (snd (aq_push q m))"
  by (cases "aq_messages q") (auto simp: aq_ok_def aq_push_def)

lemma in_set_tl: "x \<in> set (tl xs) \<Longrightarrow> x \<in> set xs"
  by (cases xs) simp_all

lemma next_chunk_cases:
  assumes "aq_ok q" and "next_chunk q = Some (c, q')"
  obtains front rest where "aq_messages q = front # rest" "c \<noteq> []" "length c \<le> MAX_AGENT_CHUNK"
      "drop (pm_sent front) (pm_data front) = c" "aq_messages q' = rest"
    | front rest where "aq_messages q = front # rest" "c \<noteq> []" "length c \<le> MAX_AGENT_CHUNK"
      "drop (pm_sent front) (pm_data front) = c @ drop (pm_sent front + length c) (pm_data front)"
      "pm_sent front + length c < length (pm_data front)"
      "aq_messages q' = front\<lparr>pm_sent := pm_sent front + length c\<rparr> # rest"
proof (cases "aq_messages q")
  case Nil
  with assms show ?thesis by (simp add: next_chunk_def)
next
  case (Cons front rest)
  let ?d = "drop (pm_sent front) (pm_data front)"
  have sent: "pm_sent front < length (pm_data front)"
    using assms(1) Cons by (simp add: aq_ok_def)
  show ?thesis
  proof (cases "pm_sent front + MAX_AGENT_CHUNK < length (pm_data front)")
    case True
    with assms(2) Cons have c: "c = take MAX_AGENT_CHUNK ?d"
      "aq_messages q' = front\<lparr>pm_sent := pm_sent front + MAX_AGENT_CHUNK\<rparr> # rest"
      by (auto simp: next_chunk_def Let_def)
    from True c(1) have len: "length c = MAX_AGENT_CHUNK" by simp
    have "?d = c @ drop (pm_sent front + MAX_AGENT_CHUNK) (pm_data front)"
      unfolding c(1) by (simp flip: drop_drop add: add.commute)
    moreover from len have "c \<noteq> []"
      using MAX_AGENT_CHUNK_pos by fastforce
    ultimately show ?thesis
      using True c(2) len by (intro that(2) [OF Cons]) simp_all
  next
    case False
    with assms(2) Cons sent have "c = ?d" "aq_messages q' = rest"
      by (auto simp: next_chunk_def Let_def min_def split: if_splits)
    with False sent show ?thesis
      by (intro that(1) [OF Cons]) simp_all
  qed
qed

lemma aq_ok_next_chunk:
  assumes "aq_ok q" and "next_chunk q = Some (c, q')"
  shows "aq_ok q'"
  by (rule next_chunk_cases [OF assms])
    (insert assms(1), auto simp: aq_ok_def list_all_iff dest: in_set_tl)

lemma aq_ok_discard: "aq_ok q \<Longrightarrow> aq_ok (discard_unstarted q)"
  by (cases "aq_messages q") (auto simp: aq_ok_def discard_unstarted_def Let_def)

lemma unstarted_tl:
  "list_all (\<lambda>m. pm_sent m = 0) ms \<Longrightarrow> filter (\<lambda>m. pm_sent m = 0) ms = ms"
  by (induction ms) auto

lemma owed_split: "aq_ok q \<Longrightarrow> owed q = started_tail q @ concat (unstarted q)"
  by (cases "aq_messages q")
    (auto simp: aq_ok_def owed_def started_tail_def unstarted_def unstarted_tl list_all_iff
      intro!: arg_cong [where f = concat])

lemma next_chunk_owed:
  assumes "aq_ok q" and "next_chunk q = Some (c, q')"
  shows "owed q = c @ owed q' \<and> c \<noteq> [] \<and> length c \<le> MAX_AGENT_CHUNK"
  by (rule next_chunk_cases [OF assms]) (simp_all add: owed_def)

lemma next_chunk_None: "next_chunk q = None \<longleftrightarrow> aq_is_empty q"
  by (auto simp: next_chunk_def aq_is_empty_def Let_def split: list.splits)

section \<open>Interleavings\<close>

text \<open>
  What the main channel does to the queue, in any order: it queues a message, sends the next
  chunk for a token, or learns that the agent has gone. The trace keeps the chunks sent and the
  messages accepted.
\<close>

datatype aq_op = Queue bytes | Token | Gone

record aq_trace =
  tr_queue :: agent_send_queue
  tr_chunks :: "bytes list"
  tr_accepted :: "bytes list"

definition aq_step :: "aq_trace \<Rightarrow> aq_op \<Rightarrow> aq_trace" where
  "aq_step t op =
     (case op of
        Queue m \<Rightarrow>
          (let (ok, q) = aq_push (tr_queue t) m in
           t\<lparr>tr_queue := q, tr_accepted := tr_accepted t @ (if ok \<and> m \<noteq> [] then [m] else [])\<rparr>)
      | Token \<Rightarrow>
          (case next_chunk (tr_queue t) of
             None \<Rightarrow> t
           | Some (c, q) \<Rightarrow> t\<lparr>tr_queue := q, tr_chunks := tr_chunks t @ [c]\<rparr>)
      | Gone \<Rightarrow> t\<lparr>tr_queue := discard_unstarted (tr_queue t)\<rparr>)"

definition aq_start :: aq_trace where
  "aq_start = \<lparr>tr_queue = AgentSendQueue_default, tr_chunks = [], tr_accepted = []\<rparr>"

definition aq_run :: "aq_op list \<Rightarrow> aq_trace" where
  "aq_run ops = foldl aq_step aq_start ops"

definition whole_messages :: "aq_trace \<Rightarrow> bool" where
  "whole_messages t \<longleftrightarrow> aq_ok (tr_queue t)
     \<and> list_all (\<lambda>c. c \<noteq> [] \<and> length c \<le> MAX_AGENT_CHUNK) (tr_chunks t)
     \<and> (\<exists>ms. concat (tr_chunks t) @ started_tail (tr_queue t) = concat ms
             \<and> subseq (ms @ unstarted (tr_queue t)) (tr_accepted t))"

lemma push_abstract:
  assumes "aq_push q m = (ok, q')"
  shows "started_tail q' = started_tail q"
    and "unstarted q' = unstarted q @ (if ok \<and> m \<noteq> [] then [m] else [])"
  using assms
  by (auto simp: aq_push_def started_tail_def unstarted_def split: if_splits list.splits)

lemma discard_abstract:
  "started_tail (discard_unstarted q) = started_tail q" "unstarted (discard_unstarted q) = []"
  by (auto simp: discard_unstarted_def started_tail_def unstarted_def Let_def split: list.splits)

text \<open>A chunk either goes on with the message begun or begins the next one.\<close>

lemma next_chunk_abstract:
  assumes "aq_ok q" and "next_chunk q = Some (c, q')"
  shows "started_tail q = c @ started_tail q' \<and> started_tail q \<noteq> [] \<and> unstarted q' = unstarted q
     \<or> started_tail q = [] \<and> (\<exists>m. unstarted q = m # unstarted q' \<and> m = c @ started_tail q')"
proof (rule next_chunk_cases [OF assms], goal_cases)
  case (1 front rest)
  then show ?case
    using assms(1)
    by (cases "pm_sent front") (auto simp: started_tail_def unstarted_def aq_ok_def split: list.splits)
next
  case (2 front rest)
  then show ?case
    by (cases "pm_sent front") (auto simp: started_tail_def unstarted_def)
qed

lemma whole_messages_step:
  assumes "whole_messages t"
  shows "whole_messages (aq_step t op)"
proof -
  from assms obtain ms where ok: "aq_ok (tr_queue t)"
    and chunks: "list_all (\<lambda>c. c \<noteq> [] \<and> length c \<le> MAX_AGENT_CHUNK) (tr_chunks t)"
    and ms: "concat (tr_chunks t) @ started_tail (tr_queue t) = concat ms"
      "subseq (ms @ unstarted (tr_queue t)) (tr_accepted t)"
    by (auto simp: whole_messages_def)
  show ?thesis
  proof (cases op)
    case (Queue m)
    obtain b q where p: "aq_push (tr_queue t) m = (b, q)" by fastforce
    from ms(2) have "subseq (ms @ unstarted (tr_queue t) @ us) (tr_accepted t @ us)" for us
      by (metis append_assoc list_emb_append_mono subseq_order.order_refl)
    with Queue p ok chunks ms aq_ok_push [of "tr_queue t" m] push_abstract [OF p] show ?thesis
      by (auto simp: whole_messages_def aq_step_def)
  next
    case Token
    show ?thesis
    proof (cases "next_chunk (tr_queue t)")
      case None
      with Token assms show ?thesis by (simp add: aq_step_def)
    next
      case (Some cq)
      then obtain c q where n: "next_chunk (tr_queue t) = Some (c, q)" by (cases cq) simp
      note next_chunk_owed [OF ok n] aq_ok_next_chunk [OF ok n]
      moreover have "\<exists>ms'. concat (tr_chunks t) @ c @ started_tail q = concat ms'
          \<and> subseq (ms' @ unstarted q) (tr_accepted t)"
        using next_chunk_abstract [OF ok n] ms by (force intro: exI [of _ "ms @ [_]"])
      ultimately show ?thesis
        using Token n chunks by (auto simp: whole_messages_def aq_step_def)
    qed
  next
    case Gone
    have "subseq ms (tr_accepted t)"
      using ms(2) by (meson list_emb_append2 subseq_order.trans subseq_rev_drop_many subseq_order.order_refl)
    with Gone ok chunks ms(1) show ?thesis
      by (auto simp: whole_messages_def aq_step_def discard_abstract aq_ok_discard)
  qed
qed

lemma whole_messages_run: "whole_messages (aq_run ops)"
proof -
  have "whole_messages t \<Longrightarrow> whole_messages (foldl aq_step t ops)" for t
    by (induction ops arbitrary: t) (simp_all add: whole_messages_step)
  moreover have "whole_messages aq_start"
    by (simp add: whole_messages_def aq_start_def started_tail_def unstarted_def
        AgentSendQueue_default_def aq_ok_def exI [of _ "[]"])
  ultimately show ?thesis by (simp add: aq_run_def)
qed

lemma drain_all:
  assumes "aq_ok (tr_queue t)" and "length (owed (tr_queue t)) \<le> n"
  shows "aq_is_empty (tr_queue (foldl aq_step t (replicate n Token)))
       \<and> concat (tr_chunks (foldl aq_step t (replicate n Token)))
           = concat (tr_chunks t) @ owed (tr_queue t)"
  using assms
proof (induction n arbitrary: t)
  case 0
  then have "aq_messages (tr_queue t) = []"
    by (cases "aq_messages (tr_queue t)") (auto simp: aq_ok_def owed_def)
  then show ?case by (simp add: aq_is_empty_def owed_def)
next
  case (Suc n)
  show ?case
  proof (cases "next_chunk (tr_queue t)")
    case None
    then have e: "aq_is_empty (tr_queue t)" by (simp add: next_chunk_None)
    then have "aq_step t Token = t" and "owed (tr_queue t) = []"
      using None by (simp_all add: aq_step_def aq_is_empty_def owed_def)
    with Suc show ?thesis by simp
  next
    case (Some cq)
    then obtain c q where n: "next_chunk (tr_queue t) = Some (c, q)" by (cases cq) simp
    with next_chunk_owed [OF Suc.prems(1) n] aq_ok_next_chunk [OF Suc.prems(1) n] Suc.prems(2)
      Suc.IH [of "aq_step t Token"]
    show ?thesis by (auto simp: aq_step_def neq_Nil_conv)
  qed
qed

section \<open>Properties\<close>

text \<open>C3: In every interleaving of queueing, token grants and agent disconnects, no more than 32
  messages wait, every chunk sent is non-empty and at most 2042 bytes, and the chunks put end to
  end, with the tail kept at the front of the queue, are whole accepted messages in the order they
  were accepted: a message is never abandoned part-way (issue 447).\<close>

theorem agent_queue_whole_messages:
  "aq_len (tr_queue (aq_run ops)) \<le> MAX_QUEUED_AGENT_MESSAGES
     \<and> list_all (\<lambda>c. c \<noteq> [] \<and> length c \<le> 2042) (tr_chunks (aq_run ops))
     \<and> (\<exists>ms. concat (tr_chunks (aq_run ops)) @ started_tail (tr_queue (aq_run ops)) = concat ms
             \<and> subseq (ms @ unstarted (tr_queue (aq_run ops))) (tr_accepted (aq_run ops)))"
  using whole_messages_run [of ops]
  by (simp add: whole_messages_def aq_ok_def aq_len_def MAX_AGENT_CHUNK_def)

text \<open>C4: Enough tokens empty the queue: after as many tokens as bytes owed, nothing waits, and what
  was sent in between is exactly what was owed.\<close>

theorem agent_queue_drains:
  assumes "n \<ge> length (owed (tr_queue (aq_run ops)))"
  shows "aq_is_empty (tr_queue (aq_run (ops @ replicate n Token)))
       \<and> concat (tr_chunks (aq_run (ops @ replicate n Token)))
           = concat (tr_chunks (aq_run ops)) @ owed (tr_queue (aq_run ops))"
  using drain_all [OF _ assms] whole_messages_run [of ops]
  by (simp add: whole_messages_def aq_run_def)

theorem agent_queue_drains_witness:
  "aq_is_empty (tr_queue (aq_run ([Queue [1, 2, 3]] @ replicate 3 Token)))
     \<and> concat (tr_chunks (aq_run ([Queue [1, 2, 3]] @ replicate 3 Token)))
         = concat (tr_chunks (aq_run [Queue [1, 2, 3]])) @ owed (tr_queue (aq_run [Queue [1, 2, 3]]))"
  by (rule agent_queue_drains)
    (simp add: aq_run_def aq_start_def aq_step_def aq_push_def owed_def AgentSendQueue_default_def
      MAX_QUEUED_AGENT_MESSAGES_def)

end
