(* ===== verification/Utf8.thy ===== *)
theory Utf8
  imports Prelude
begin

unbundle bit_operations_syntax

text \<open>
  What the program uses of the standard library's UTF-8 support: a \<open>str\<close> is its bytes, and
  \<open>String::from_utf8_lossy\<close> replaces each maximal invalid run of up to three bytes by the
  replacement character. \<open>utf8_next\<close> is one step of the library's scanner: whether the bytes start
  with a character, and how many bytes belong to it (or to the invalid run).
\<close>

definition safe_get :: "bytes \<Rightarrow> nat \<Rightarrow> u8" where
  "safe_get xs i = (if i < length xs then xs ! i else 0)"

definition utf8_cont :: "u8 \<Rightarrow> bool" where
  "utf8_cont b \<longleftrightarrow> b AND 192 = 128"

definition utf8_char_width :: "u8 \<Rightarrow> nat" where
  "utf8_char_width b =
     (if b < 0x80 then 1
      else if 0xC2 \<le> b \<and> b \<le> 0xDF then 2
      else if 0xE0 \<le> b \<and> b \<le> 0xEF then 3
      else if 0xF0 \<le> b \<and> b \<le> 0xF4 then 4 else 0)"

definition second_of_3 :: "u8 \<Rightarrow> u8 \<Rightarrow> bool" where
  "second_of_3 b c \<longleftrightarrow>
     (if b = 0xE0 then 0xA0 \<le> c \<and> c \<le> 0xBF
      else if b = 0xED then 0x80 \<le> c \<and> c \<le> 0x9F
      else 0x80 \<le> c \<and> c \<le> 0xBF)"

definition second_of_4 :: "u8 \<Rightarrow> u8 \<Rightarrow> bool" where
  "second_of_4 b c \<longleftrightarrow>
     (if b = 0xF0 then 0x90 \<le> c \<and> c \<le> 0xBF
      else if b = 0xF4 then 0x80 \<le> c \<and> c \<le> 0x8F
      else 0x80 \<le> c \<and> c \<le> 0xBF)"

definition utf8_next :: "bytes \<Rightarrow> bool \<times> nat" where
  "utf8_next xs =
     (let b = safe_get xs 0; w = utf8_char_width b in
      if w = 1 then (True, 1)
      else if w = 2 then (if utf8_cont (safe_get xs 1) then (True, 2) else (False, 1))
      else if w = 3 then
        (if \<not> second_of_3 b (safe_get xs 1) then (False, 1)
         else if \<not> utf8_cont (safe_get xs 2) then (False, 2) else (True, 3))
      else if w = 4 then
        (if \<not> second_of_4 b (safe_get xs 1) then (False, 1)
         else if \<not> utf8_cont (safe_get xs 2) then (False, 2)
         else if \<not> utf8_cont (safe_get xs 3) then (False, 3) else (True, 4))
      else (False, 1))"

definition REPLACEMENT :: bytes where
  "REPLACEMENT = [0xEF, 0xBF, 0xBD]"

lemma utf8_next_pos: "utf8_next xs = (ok, n) \<Longrightarrow> 0 < n"
  by (auto simp: utf8_next_def Let_def split: if_splits)

function from_utf8_lossy :: "bytes \<Rightarrow> bytes" where
  "from_utf8_lossy xs =
     (if xs = [] then []
      else let (ok, n) = utf8_next xs in
        (if ok then take n xs else REPLACEMENT) @ from_utf8_lossy (drop n xs))"
  by pat_completeness auto
termination
  by (relation "measure length") (auto dest: utf8_next_pos [OF sym])

function utf8_valid :: "bytes \<Rightarrow> bool" where
  "utf8_valid xs =
     (if xs = [] then True else let (ok, n) = utf8_next xs in ok \<and> utf8_valid (drop n xs))"
  by pat_completeness auto
termination
  by (relation "measure length") (auto dest: utf8_next_pos [OF sym])

declare from_utf8_lossy.simps [simp del] utf8_valid.simps [simp del]

lemma lossy_Nil [simp]: "from_utf8_lossy [] = []"
  by (simp add: from_utf8_lossy.simps)

lemma valid_Nil [simp]: "utf8_valid []"
  by (simp add: utf8_valid.simps)

lemma lossy_valid: "utf8_valid xs \<Longrightarrow> from_utf8_lossy xs = xs"
proof (induction xs rule: from_utf8_lossy.induct)
  case (1 xs)
  show ?case
  proof (cases "xs = []")
    case False
    obtain ok n where n: "utf8_next xs = (ok, n)" by fastforce
    with "1.prems" False have "ok" "utf8_valid (drop n xs)"
      by (simp_all add: utf8_valid.simps [of xs])
    with "1.IH" [OF False n [symmetric] refl] n False show ?thesis
      by (simp add: from_utf8_lossy.simps [of xs])
  qed simp
qed

text \<open>A character is recognised from its own bytes.\<close>

lemma safe_get_pos: "safe_get xs i \<noteq> 0 \<Longrightarrow> i < length xs"
  by (auto simp: safe_get_def split: if_splits)

lemma cont_pos: "utf8_cont (safe_get xs i) \<Longrightarrow> i < length xs"
  by (rule safe_get_pos) (auto simp: utf8_cont_def)

lemma second_pos:
  "second_of_3 b (safe_get xs i) \<Longrightarrow> i < length xs"
  "second_of_4 b (safe_get xs i) \<Longrightarrow> i < length xs"
  by (auto intro!: safe_get_pos simp: second_of_3_def second_of_4_def split: if_splits)

lemma utf8_next_len: "utf8_next xs = (True, n) \<Longrightarrow> xs \<noteq> [] \<Longrightarrow> n \<le> length xs"
  by (cases xs) (auto simp: utf8_next_def Let_def Suc_le_eq dest!: cont_pos split: if_splits)

lemma safe_get_take: "i < n \<Longrightarrow> n \<le> length xs \<Longrightarrow> safe_get (take n xs @ ys) i = safe_get xs i"
  by (simp add: safe_get_def nth_append)

lemma utf8_next_take:
  assumes "utf8_next xs = (True, n)" and "xs \<noteq> []"
  shows "utf8_next (take n xs @ ys) = (True, n)"
proof -
  have n: "n \<le> length xs" using assms by (rule utf8_next_len)
  have "safe_get (take n xs @ ys) i = safe_get xs i" if "i < n" for i
    using that n by (rule safe_get_take)
  with assms(1) show ?thesis
    by (auto simp: utf8_next_def Let_def split: if_splits)
qed

lemma utf8_next_REPLACEMENT: "utf8_next (REPLACEMENT @ ys) = (True, 3)"
  by (simp add: utf8_next_def REPLACEMENT_def safe_get_def utf8_char_width_def second_of_3_def
      utf8_cont_def)

lemma valid_lossy: "utf8_valid (from_utf8_lossy xs)"
proof (induction xs rule: from_utf8_lossy.induct)
  case (1 xs)
  show ?case
  proof (cases "xs = []")
    case False
    obtain ok n where n: "utf8_next xs = (ok, n)" by fastforce
    note IH = "1.IH" [OF False n [symmetric] refl]
    show ?thesis
    proof (cases ok)
      case True
      with n False have "utf8_next (take n xs @ from_utf8_lossy (drop n xs)) = (True, n)"
        by (simp add: utf8_next_take)
      moreover have "length (take n xs) = n" "take n xs \<noteq> []"
        using n True False utf8_next_len [of xs n] utf8_next_pos [OF n] by auto
      ultimately show ?thesis
        using IH n True False
        by (simp add: from_utf8_lossy.simps [of xs]
            utf8_valid.simps [of "take n xs @ from_utf8_lossy (drop n xs)"])
    next
      case False
      with IH n \<open>xs \<noteq> []\<close> utf8_next_REPLACEMENT [of "from_utf8_lossy (drop n xs)"] show ?thesis
        by (simp add: from_utf8_lossy.simps [of xs] REPLACEMENT_def
            utf8_valid.simps [of "_ # _ # _ # from_utf8_lossy (drop n xs)"])
    qed
  qed simp
qed

lemma ascii_valid: "list_all (\<lambda>b. b < 0x80) xs \<Longrightarrow> utf8_valid xs"
  by (induction xs)
    (simp_all add: utf8_valid.simps [of "_ # _"] utf8_next_def safe_get_def utf8_char_width_def)

end
