(* ===== verification/Usbredir_Messages.thy ===== *)
theory Usbredir_Messages
  imports Wire Utf8
begin

unbundle bit_operations_syntax

text \<open>
  usbredir messages, \<open>shakenfist-spice-usbredir/src/messages.rs\<close>. Each \<open>read\<close> of the source checks
  the length of the data and then reads fields through a cursor: \<open>io_read\<close> is that pattern over the
  field readers of the wire library, so that the laws of \<open>fixed_wire\<close> carry over.
\<close>

section \<open>Header and framing\<close>

record usbredir_header =
  uh_msg_type :: u32
  uh_length :: u32
  uh_id :: u32

definition UsbredirHeader_fields :: "usbredir_header parser" where
  [codec_defs]: "UsbredirHeader_fields =
     bindP read_u32 (\<lambda>a. bindP read_u32 (\<lambda>b. bindP read_u32 (\<lambda>c.
       retP \<lparr>uh_msg_type = a, uh_length = b, uh_id = c\<rparr>)))"

definition UsbredirHeader_read :: "bytes \<Rightarrow> io_error_kind + usbredir_header" where
  "UsbredirHeader_read data = io_read 12 UsbredirHeader_fields data"

definition UsbredirHeader_write :: "usbredir_header \<Rightarrow> bytes" where
  [codec_defs]: "UsbredirHeader_write v =
     u32_le (uh_msg_type v) @ u32_le (uh_length v) @ u32_le (uh_id v)"

lemma UsbredirHeader_fields_iff [parse_iff]:
  "UsbredirHeader_fields (at pre xs) = Inr (v, r') \<longleftrightarrow>
     (\<exists>post. xs = UsbredirHeader_write v @ post \<and> r' = at (pre @ UsbredirHeader_write v) post)"
  by (cases v) (auto simp: codec_defs parse_iff)

interpretation usbredir_header: fixed_wire UsbredirHeader_fields UsbredirHeader_write 12
  by unfold_locales (simp_all add: UsbredirHeader_fields_iff, simp add: UsbredirHeader_fields_def)

definition make_usbredir_message :: "u32 \<Rightarrow> u32 \<Rightarrow> bytes \<Rightarrow> bytes" where
  "make_usbredir_message mt i payload =
     UsbredirHeader_write \<lparr>uh_msg_type = mt, uh_length = word_of_nat (length payload), uh_id = i\<rparr>
       @ payload"

section \<open>Control messages\<close>

record hello =
  hello_version :: bytes
  hello_capabilities :: u32

definition Hello_read :: "bytes \<Rightarrow> io_error_kind + hello" where
  "Hello_read data =
     (if length data < 68 then Inl UnexpectedEof
      else let version_bytes = take 64 data;
               version = from_utf8_lossy (takeWhile (\<lambda>b. b \<noteq> 0) version_bytes) in
        Inr \<lparr>hello_version = version, hello_capabilities = le_word (take 4 (drop 64 data))\<rparr>)"

definition Hello_write :: "hello \<Rightarrow> bytes" where
  "Hello_write v =
     (let len = min (length (hello_version v)) 63 in
      take len (hello_version v) @ replicate (64 - len) 0 @ u32_le (hello_capabilities v))"

definition Hello_ok :: "hello \<Rightarrow> bool" where
  "Hello_ok v \<longleftrightarrow> length (hello_version v) \<le> 63 \<and> utf8_valid (hello_version v) \<and> 0 \<notin> set (hello_version v)"

lemma Hello_read_write:
  assumes "Hello_ok v"
  shows "Hello_read (Hello_write v @ post) = Inr v"
proof -
  have "takeWhile (\<lambda>b. b \<noteq> 0) (hello_version v @ replicate n 0) = hello_version v" for n
    using assms by (subst takeWhile_append2) (auto simp: Hello_ok_def)
  with assms show ?thesis
    by (cases v) (simp add: Hello_read_def Hello_write_def Hello_ok_def min_absorb1 lossy_valid)
qed

record device_connect =
  dc_speed :: u8
  dc_class :: u8
  dc_subclass :: u8
  dc_protocol :: u8
  dc_vendor_id :: u16
  dc_product_id :: u16
  dc_version_bcd :: u16

definition DeviceConnect_fields :: "device_connect parser" where
  [codec_defs]: "DeviceConnect_fields =
     bindP read_u8 (\<lambda>a. bindP read_u8 (\<lambda>b. bindP read_u8 (\<lambda>c.
     bindP read_u8 (\<lambda>d. bindP read_u16 (\<lambda>e. bindP read_u16 (\<lambda>f.
     bindP read_u16 (\<lambda>g.
       retP \<lparr>dc_speed = a, dc_class = b, dc_subclass = c, dc_protocol = d, dc_vendor_id = e,
             dc_product_id = f, dc_version_bcd = g\<rparr>)))))))"

definition DeviceConnect_read :: "bytes \<Rightarrow> io_error_kind + device_connect" where
  "DeviceConnect_read data = io_read 10 DeviceConnect_fields data"

definition DeviceConnect_write :: "device_connect \<Rightarrow> bytes" where
  [codec_defs]: "DeviceConnect_write v =
     [dc_speed v] @ [dc_class v] @ [dc_subclass v] @ [dc_protocol v] @ u16_le (dc_vendor_id v)
       @ u16_le (dc_product_id v) @ u16_le (dc_version_bcd v)"

lemma DeviceConnect_fields_iff [parse_iff]:
  "DeviceConnect_fields (at pre xs) = Inr (v, r') \<longleftrightarrow>
     (\<exists>post. xs = DeviceConnect_write v @ post \<and> r' = at (pre @ DeviceConnect_write v) post)"
  by (cases v) (auto simp: codec_defs parse_iff)

interpretation device_connect: fixed_wire DeviceConnect_fields DeviceConnect_write 10
  by unfold_locales (simp_all add: DeviceConnect_fields_iff, simp add: DeviceConnect_fields_def)

record interface_info =
  ii_count :: u32
  ii_interface :: bytes
  ii_class :: bytes
  ii_subclass :: bytes
  ii_protocol :: bytes

definition InterfaceInfo_fields :: "interface_info parser" where
  "InterfaceInfo_fields =
     bindP read_u32 (\<lambda>a. bindP (read_array 32) (\<lambda>b. bindP (read_array 32) (\<lambda>c.
     bindP (read_array 32) (\<lambda>d. bindP (read_array 32) (\<lambda>e.
       retP \<lparr>ii_count = a, ii_interface = b, ii_class = c, ii_subclass = d, ii_protocol = e\<rparr>)))))"

definition InterfaceInfo_read :: "bytes \<Rightarrow> io_error_kind + interface_info" where
  "InterfaceInfo_read data = io_read 132 InterfaceInfo_fields data"

definition InterfaceInfo_write :: "interface_info \<Rightarrow> bytes" where
  "InterfaceInfo_write v =
     u32_le (ii_count v) @ ii_interface v @ ii_class v @ ii_subclass v @ ii_protocol v"

text \<open>The four tables are arrays of 32 bytes.\<close>

definition InterfaceInfo_ok :: "interface_info \<Rightarrow> bool" where
  "InterfaceInfo_ok v \<longleftrightarrow> length (ii_interface v) = 32 \<and> length (ii_class v) = 32
     \<and> length (ii_subclass v) = 32 \<and> length (ii_protocol v) = 32"

lemma read_array_forward [simp]:
  "n = length bs \<Longrightarrow> read_array n (at pre (bs @ post)) = Inr (bs, at (pre @ bs) post)"
  by (auto simp: parse_iff)

interpretation interface_info:
  wire_type InterfaceInfo_fields InterfaceInfo_write InterfaceInfo_ok
  by unfold_locales (simp add: InterfaceInfo_fields_def InterfaceInfo_write_def InterfaceInfo_ok_def)

record ep_info =
  ep_type :: bytes
  ep_interval :: bytes
  ep_interface :: bytes
  ep_max_packet_size :: "u16 list"

definition EpInfo_fields :: "ep_info parser" where
  "EpInfo_fields =
     bindP (read_array 32) (\<lambda>a. bindP (read_array 32) (\<lambda>b. bindP (read_array 32) (\<lambda>c.
     bindP (read_times 32 read_u16) (\<lambda>d.
       retP \<lparr>ep_type = a, ep_interval = b, ep_interface = c, ep_max_packet_size = d\<rparr>))))"

definition EpInfo_read :: "bytes \<Rightarrow> io_error_kind + ep_info" where
  "EpInfo_read data = io_read 160 EpInfo_fields data"

definition EpInfo_write :: "ep_info \<Rightarrow> bytes" where
  "EpInfo_write v =
     ep_type v @ ep_interval v @ ep_interface v @ concat (map u16_le (ep_max_packet_size v))"

definition EpInfo_ok :: "ep_info \<Rightarrow> bool" where
  "EpInfo_ok v \<longleftrightarrow> length (ep_type v) = 32 \<and> length (ep_interval v) = 32
     \<and> length (ep_interface v) = 32 \<and> length (ep_max_packet_size v) = 32"

lemma read_u16s_forward:
  "n = length vs \<Longrightarrow> read_times n read_u16 (at pre (concat (map u16_le vs) @ post)) =
     Inr (vs, at (pre @ concat (map u16_le vs)) post)"
  using u16_codec.read_times_wr [of vs pre post] by (simp add: list_all_iff)

interpretation ep_info: wire_type EpInfo_fields EpInfo_write EpInfo_ok
  by unfold_locales (simp add: EpInfo_fields_def EpInfo_write_def EpInfo_ok_def read_u16s_forward)

lemma length_InterfaceInfo: "InterfaceInfo_ok v \<Longrightarrow> length (InterfaceInfo_write v) = 132"
  by (simp add: InterfaceInfo_write_def InterfaceInfo_ok_def)

lemma length_EpInfo: "EpInfo_ok v \<Longrightarrow> length (EpInfo_write v) = 160"
  by (simp add: EpInfo_write_def EpInfo_ok_def length_concat comp_def sum_list_triv)

record set_configuration =
  sc_configuration :: u8

definition SetConfiguration_read :: "bytes \<Rightarrow> io_error_kind + set_configuration" where
  "SetConfiguration_read data =
     (if data = [] then Inl UnexpectedEof else Inr \<lparr>sc_configuration = data ! 0\<rparr>)"

record configuration_status =
  cs_status :: u8
  cs_configuration :: u8

definition ConfigurationStatus_fields :: "configuration_status parser" where
  [codec_defs]: "ConfigurationStatus_fields =
     bindP read_u8 (\<lambda>a. bindP read_u8 (\<lambda>b.
       retP \<lparr>cs_status = a, cs_configuration = b\<rparr>))"

definition ConfigurationStatus_read :: "bytes \<Rightarrow> io_error_kind + configuration_status" where
  "ConfigurationStatus_read data = io_read 2 ConfigurationStatus_fields data"

definition ConfigurationStatus_write :: "configuration_status \<Rightarrow> bytes" where
  [codec_defs]: "ConfigurationStatus_write v =
     [cs_status v] @ [cs_configuration v]"

lemma ConfigurationStatus_fields_iff [parse_iff]:
  "ConfigurationStatus_fields (at pre xs) = Inr (v, r') \<longleftrightarrow>
     (\<exists>post. xs = ConfigurationStatus_write v @ post \<and> r' = at (pre @ ConfigurationStatus_write v) post)"
  by (cases v) (auto simp: codec_defs parse_iff)

interpretation configuration_status: fixed_wire ConfigurationStatus_fields ConfigurationStatus_write 2
  by unfold_locales (simp_all add: ConfigurationStatus_fields_iff, simp add: ConfigurationStatus_fields_def)

record set_alt_setting =
  sas_interface :: u8
  sas_alt_setting :: u8

definition SetAltSetting_read :: "bytes \<Rightarrow> io_error_kind + set_alt_setting" where
  "SetAltSetting_read data =
     (if length data < 2 then Inl UnexpectedEof else Inr \<lparr>sas_interface = data ! 0, sas_alt_setting = data ! 1\<rparr>)"

record get_alt_setting =
  gas_interface :: u8

definition GetAltSetting_read :: "bytes \<Rightarrow> io_error_kind + get_alt_setting" where
  "GetAltSetting_read data =
     (if data = [] then Inl UnexpectedEof else Inr \<lparr>gas_interface = data ! 0\<rparr>)"

record alt_setting_status =
  ass_status :: u8
  ass_interface :: u8
  ass_alt_setting :: u8

definition AltSettingStatus_fields :: "alt_setting_status parser" where
  [codec_defs]: "AltSettingStatus_fields =
     bindP read_u8 (\<lambda>a. bindP read_u8 (\<lambda>b. bindP read_u8 (\<lambda>c.
       retP \<lparr>ass_status = a, ass_interface = b, ass_alt_setting = c\<rparr>)))"

definition AltSettingStatus_read :: "bytes \<Rightarrow> io_error_kind + alt_setting_status" where
  "AltSettingStatus_read data = io_read 3 AltSettingStatus_fields data"

definition AltSettingStatus_write :: "alt_setting_status \<Rightarrow> bytes" where
  [codec_defs]: "AltSettingStatus_write v =
     [ass_status v] @ [ass_interface v] @ [ass_alt_setting v]"

lemma AltSettingStatus_fields_iff [parse_iff]:
  "AltSettingStatus_fields (at pre xs) = Inr (v, r') \<longleftrightarrow>
     (\<exists>post. xs = AltSettingStatus_write v @ post \<and> r' = at (pre @ AltSettingStatus_write v) post)"
  by (cases v) (auto simp: codec_defs parse_iff)

interpretation alt_setting_status: fixed_wire AltSettingStatus_fields AltSettingStatus_write 3
  by unfold_locales (simp_all add: AltSettingStatus_fields_iff, simp add: AltSettingStatus_fields_def)

record start_interrupt_receiving =
  start_endpoint :: u8

definition StartInterruptReceiving_read :: "bytes \<Rightarrow> io_error_kind + start_interrupt_receiving" where
  "StartInterruptReceiving_read data =
     (if data = [] then Inl UnexpectedEof else Inr \<lparr>start_endpoint = data ! 0\<rparr>)"

record stop_interrupt_receiving =
  stop_endpoint :: u8

definition StopInterruptReceiving_read :: "bytes \<Rightarrow> io_error_kind + stop_interrupt_receiving" where
  "StopInterruptReceiving_read data =
     (if data = [] then Inl UnexpectedEof else Inr \<lparr>stop_endpoint = data ! 0\<rparr>)"

record interrupt_receiving_status =
  irs_status :: u8
  irs_endpoint :: u8

definition InterruptReceivingStatus_fields :: "interrupt_receiving_status parser" where
  [codec_defs]: "InterruptReceivingStatus_fields =
     bindP read_u8 (\<lambda>a. bindP read_u8 (\<lambda>b.
       retP \<lparr>irs_status = a, irs_endpoint = b\<rparr>))"

definition InterruptReceivingStatus_read :: "bytes \<Rightarrow> io_error_kind + interrupt_receiving_status" where
  "InterruptReceivingStatus_read data = io_read 2 InterruptReceivingStatus_fields data"

definition InterruptReceivingStatus_write :: "interrupt_receiving_status \<Rightarrow> bytes" where
  [codec_defs]: "InterruptReceivingStatus_write v =
     [irs_status v] @ [irs_endpoint v]"

lemma InterruptReceivingStatus_fields_iff [parse_iff]:
  "InterruptReceivingStatus_fields (at pre xs) = Inr (v, r') \<longleftrightarrow>
     (\<exists>post. xs = InterruptReceivingStatus_write v @ post \<and> r' = at (pre @ InterruptReceivingStatus_write v) post)"
  by (cases v) (auto simp: codec_defs parse_iff)

interpretation interrupt_receiving_status: fixed_wire InterruptReceivingStatus_fields InterruptReceivingStatus_write 2
  by unfold_locales (simp_all add: InterruptReceivingStatus_fields_iff, simp add: InterruptReceivingStatus_fields_def)

section \<open>Data packets\<close>

record control_packet_header =
  cp_endpoint :: u8
  cp_request :: u8
  cp_request_type :: u8
  cp_status :: u8
  cp_value :: u16
  cp_index :: u16
  cp_length :: u16

definition ControlPacketHeader_fields :: "control_packet_header parser" where
  [codec_defs]: "ControlPacketHeader_fields =
     bindP read_u8 (\<lambda>a. bindP read_u8 (\<lambda>b. bindP read_u8 (\<lambda>c.
     bindP read_u8 (\<lambda>d. bindP read_u16 (\<lambda>e. bindP read_u16 (\<lambda>f.
     bindP read_u16 (\<lambda>g.
       retP \<lparr>cp_endpoint = a, cp_request = b, cp_request_type = c, cp_status = d, cp_value = e,
             cp_index = f, cp_length = g\<rparr>)))))))"

definition ControlPacketHeader_read :: "bytes \<Rightarrow> io_error_kind + control_packet_header" where
  "ControlPacketHeader_read data = io_read 10 ControlPacketHeader_fields data"

definition ControlPacketHeader_write :: "control_packet_header \<Rightarrow> bytes" where
  [codec_defs]: "ControlPacketHeader_write v =
     [cp_endpoint v] @ [cp_request v] @ [cp_request_type v] @ [cp_status v]
       @ u16_le (cp_value v) @ u16_le (cp_index v) @ u16_le (cp_length v)"

lemma ControlPacketHeader_fields_iff [parse_iff]:
  "ControlPacketHeader_fields (at pre xs) = Inr (v, r') \<longleftrightarrow>
     (\<exists>post. xs = ControlPacketHeader_write v @ post \<and> r' = at (pre @ ControlPacketHeader_write v) post)"
  by (cases v) (auto simp: codec_defs parse_iff)

interpretation control_packet_header: fixed_wire ControlPacketHeader_fields ControlPacketHeader_write 10
  by unfold_locales (simp_all add: ControlPacketHeader_fields_iff, simp add: ControlPacketHeader_fields_def)

record bulk_packet_header =
  bp_endpoint :: u8
  bp_status :: u8
  bp_length :: u16
  bp_stream_id :: u32
  bp_length_high :: u16

definition BulkPacketHeader_fields :: "bulk_packet_header parser" where
  [codec_defs]: "BulkPacketHeader_fields =
     bindP read_u8 (\<lambda>a. bindP read_u8 (\<lambda>b. bindP read_u16 (\<lambda>c.
     bindP read_u32 (\<lambda>d. bindP read_u16 (\<lambda>e.
       retP \<lparr>bp_endpoint = a, bp_status = b, bp_length = c, bp_stream_id = d, bp_length_high = e\<rparr>)))))"

definition BulkPacketHeader_read :: "bytes \<Rightarrow> io_error_kind + bulk_packet_header" where
  "BulkPacketHeader_read data = io_read 10 BulkPacketHeader_fields data"

definition BulkPacketHeader_write :: "bulk_packet_header \<Rightarrow> bytes" where
  [codec_defs]: "BulkPacketHeader_write v =
     [bp_endpoint v] @ [bp_status v] @ u16_le (bp_length v) @ u32_le (bp_stream_id v)
       @ u16_le (bp_length_high v)"

lemma BulkPacketHeader_fields_iff [parse_iff]:
  "BulkPacketHeader_fields (at pre xs) = Inr (v, r') \<longleftrightarrow>
     (\<exists>post. xs = BulkPacketHeader_write v @ post \<and> r' = at (pre @ BulkPacketHeader_write v) post)"
  by (cases v) (auto simp: codec_defs parse_iff)

interpretation bulk_packet_header: fixed_wire BulkPacketHeader_fields BulkPacketHeader_write 10
  by unfold_locales (simp_all add: BulkPacketHeader_fields_iff, simp add: BulkPacketHeader_fields_def)

definition actual_length :: "bulk_packet_header \<Rightarrow> u32" where
  "actual_length v = push_bit 16 (ucast (bp_length_high v)) OR ucast (bp_length v)"

record interrupt_packet_header =
  ip_endpoint :: u8
  ip_status :: u8
  ip_length :: u16

definition InterruptPacketHeader_fields :: "interrupt_packet_header parser" where
  [codec_defs]: "InterruptPacketHeader_fields =
     bindP read_u8 (\<lambda>a. bindP read_u8 (\<lambda>b. bindP read_u16 (\<lambda>c.
       retP \<lparr>ip_endpoint = a, ip_status = b, ip_length = c\<rparr>)))"

definition InterruptPacketHeader_read :: "bytes \<Rightarrow> io_error_kind + interrupt_packet_header" where
  "InterruptPacketHeader_read data = io_read 4 InterruptPacketHeader_fields data"

definition InterruptPacketHeader_write :: "interrupt_packet_header \<Rightarrow> bytes" where
  [codec_defs]: "InterruptPacketHeader_write v =
     [ip_endpoint v] @ [ip_status v] @ u16_le (ip_length v)"

lemma InterruptPacketHeader_fields_iff [parse_iff]:
  "InterruptPacketHeader_fields (at pre xs) = Inr (v, r') \<longleftrightarrow>
     (\<exists>post. xs = InterruptPacketHeader_write v @ post \<and> r' = at (pre @ InterruptPacketHeader_write v) post)"
  by (cases v) (auto simp: codec_defs parse_iff)

interpretation interrupt_packet_header: fixed_wire InterruptPacketHeader_fields InterruptPacketHeader_write 4
  by unfold_locales (simp_all add: InterruptPacketHeader_fields_iff, simp add: InterruptPacketHeader_fields_def)

section \<open>Parsed messages\<close>

datatype usbredir_payload =
  UHello hello
| UDeviceConnect device_connect
| UDeviceDisconnect
| UReset
| UInterfaceInfo interface_info
| UEpInfo ep_info
| USetConfiguration set_configuration
| UGetConfiguration
| UConfigurationStatus configuration_status
| USetAltSetting set_alt_setting
| UGetAltSetting get_alt_setting
| UAltSettingStatus alt_setting_status
| UStartInterruptReceiving start_interrupt_receiving
| UStopInterruptReceiving stop_interrupt_receiving
| UInterruptReceivingStatus interrupt_receiving_status
| UCancelDataPacket
| UFilterReject
| UDeviceDisconnectAck
| UControlPacket control_packet_header bytes
| UBulkPacket bulk_packet_header bytes
| UInterruptPacket interrupt_packet_header bytes
| UUnknown u32 bytes

record usbredir_message =
  um_id :: u32
  um_payload :: usbredir_payload

end
