(* ===== verification/Usbredir.thy ===== *)
theory Usbredir
  imports Usbredir_Messages Framing
begin

text \<open>
  \<open>UsbredirParser\<close> (\<open>shakenfist-spice-usbredir/src/parser.rs\<close>) and the loop around it
  (\<open>handle_vmc_data\<close> of \<open>shakenfist-spice-renderer/src/channels/usbredir.rs\<close>): usbredir messages
  taken from the byte stream of the SpiceVMC channel. The parser is an instance of the framing
  contract, and its payload parser is the inverse of the messages' writers.
\<close>

section \<open>Message types\<close>

definition USB_HELLO :: u32 where "USB_HELLO = 0"
definition USB_DEVICE_CONNECT :: u32 where "USB_DEVICE_CONNECT = 1"
definition USB_DEVICE_DISCONNECT :: u32 where "USB_DEVICE_DISCONNECT = 2"
definition USB_RESET :: u32 where "USB_RESET = 3"
definition USB_INTERFACE_INFO :: u32 where "USB_INTERFACE_INFO = 4"
definition USB_EP_INFO :: u32 where "USB_EP_INFO = 5"
definition USB_SET_CONFIGURATION :: u32 where "USB_SET_CONFIGURATION = 6"
definition USB_GET_CONFIGURATION :: u32 where "USB_GET_CONFIGURATION = 7"
definition USB_CONFIGURATION_STATUS :: u32 where "USB_CONFIGURATION_STATUS = 8"
definition USB_SET_ALT_SETTING :: u32 where "USB_SET_ALT_SETTING = 9"
definition USB_GET_ALT_SETTING :: u32 where "USB_GET_ALT_SETTING = 10"
definition USB_ALT_SETTING_STATUS :: u32 where "USB_ALT_SETTING_STATUS = 11"
definition USB_START_INTERRUPT_RECEIVING :: u32 where "USB_START_INTERRUPT_RECEIVING = 15"
definition USB_STOP_INTERRUPT_RECEIVING :: u32 where "USB_STOP_INTERRUPT_RECEIVING = 16"
definition USB_INTERRUPT_RECEIVING_STATUS :: u32 where "USB_INTERRUPT_RECEIVING_STATUS = 17"
definition USB_CANCEL_DATA_PACKET :: u32 where "USB_CANCEL_DATA_PACKET = 21"
definition USB_FILTER_REJECT :: u32 where "USB_FILTER_REJECT = 22"
definition USB_DEVICE_DISCONNECT_ACK :: u32 where "USB_DEVICE_DISCONNECT_ACK = 24"
definition USB_CONTROL_PACKET :: u32 where "USB_CONTROL_PACKET = 100"
definition USB_BULK_PACKET :: u32 where "USB_BULK_PACKET = 101"
definition USB_INTERRUPT_PACKET :: u32 where "USB_INTERRUPT_PACKET = 103"

lemmas usb_types =
  USB_HELLO_def USB_DEVICE_CONNECT_def USB_DEVICE_DISCONNECT_def USB_RESET_def
  USB_INTERFACE_INFO_def USB_EP_INFO_def USB_SET_CONFIGURATION_def USB_GET_CONFIGURATION_def
  USB_CONFIGURATION_STATUS_def USB_SET_ALT_SETTING_def USB_GET_ALT_SETTING_def
  USB_ALT_SETTING_STATUS_def USB_START_INTERRUPT_RECEIVING_def USB_STOP_INTERRUPT_RECEIVING_def
  USB_INTERRUPT_RECEIVING_STATUS_def USB_CANCEL_DATA_PACKET_def USB_FILTER_REJECT_def
  USB_DEVICE_DISCONNECT_ACK_def USB_CONTROL_PACKET_def USB_BULK_PACKET_def
  USB_INTERRUPT_PACKET_def

section \<open>State and operations\<close>

datatype usb_error = PayloadTooLarge u32 | BadPayload io_error_kind

definition MAX_PAYLOAD_SIZE :: u32 where
  "MAX_PAYLOAD_SIZE = 16 * 1024 * 1024"

record usbredir_parser =
  up_buf :: bytes

definition UsbredirParser_new :: usbredir_parser where
  "UsbredirParser_new = \<lparr>up_buf = []\<rparr>"

definition UsbredirParser_feed :: "usbredir_parser \<Rightarrow> bytes \<Rightarrow> usbredir_parser" where
  "UsbredirParser_feed p data = p\<lparr>up_buf := up_buf p @ data\<rparr>"

definition map_ok :: "('a \<Rightarrow> 'b) \<Rightarrow> 'e + 'a \<Rightarrow> 'e + 'b" where
  "map_ok f r = (case r of Inl e \<Rightarrow> Inl e | Inr v \<Rightarrow> Inr (f v))"

definition parse_payload :: "u32 \<Rightarrow> bytes \<Rightarrow> io_error_kind + usbredir_payload" where
  "parse_payload mt data =
     (if mt = USB_HELLO then map_ok UHello (Hello_read data)
      else if mt = USB_DEVICE_CONNECT then map_ok UDeviceConnect (DeviceConnect_read data)
      else if mt = USB_DEVICE_DISCONNECT then Inr UDeviceDisconnect
      else if mt = USB_RESET then Inr UReset
      else if mt = USB_INTERFACE_INFO then map_ok UInterfaceInfo (InterfaceInfo_read data)
      else if mt = USB_EP_INFO then map_ok UEpInfo (EpInfo_read data)
      else if mt = USB_SET_CONFIGURATION then map_ok USetConfiguration (SetConfiguration_read data)
      else if mt = USB_GET_CONFIGURATION then Inr UGetConfiguration
      else if mt = USB_CONFIGURATION_STATUS
      then map_ok UConfigurationStatus (ConfigurationStatus_read data)
      else if mt = USB_SET_ALT_SETTING then map_ok USetAltSetting (SetAltSetting_read data)
      else if mt = USB_GET_ALT_SETTING then map_ok UGetAltSetting (GetAltSetting_read data)
      else if mt = USB_ALT_SETTING_STATUS then map_ok UAltSettingStatus (AltSettingStatus_read data)
      else if mt = USB_START_INTERRUPT_RECEIVING
      then map_ok UStartInterruptReceiving (StartInterruptReceiving_read data)
      else if mt = USB_STOP_INTERRUPT_RECEIVING
      then map_ok UStopInterruptReceiving (StopInterruptReceiving_read data)
      else if mt = USB_INTERRUPT_RECEIVING_STATUS
      then map_ok UInterruptReceivingStatus (InterruptReceivingStatus_read data)
      else if mt = USB_CANCEL_DATA_PACKET then Inr UCancelDataPacket
      else if mt = USB_FILTER_REJECT then Inr UFilterReject
      else if mt = USB_DEVICE_DISCONNECT_ACK then Inr UDeviceDisconnectAck
      else if mt = USB_CONTROL_PACKET
      then map_ok (\<lambda>h. UControlPacket h (drop 10 data)) (ControlPacketHeader_read data)
      else if mt = USB_BULK_PACKET
      then map_ok (\<lambda>h. UBulkPacket h (drop 10 data)) (BulkPacketHeader_read data)
      else if mt = USB_INTERRUPT_PACKET
      then map_ok (\<lambda>h. UInterruptPacket h (drop 4 data)) (InterruptPacketHeader_read data)
      else Inr (UUnknown mt data))"

definition next_message ::
  "usbredir_parser \<Rightarrow> (usb_error + usbredir_message option) \<times> usbredir_parser" where
  "next_message p =
     (if length (up_buf p) < 12 then (Inr None, p)
      else case UsbredirHeader_read (up_buf p) of
        Inl e \<Rightarrow> (Inl (BadPayload e), p)
      | Inr header \<Rightarrow>
          (if uh_length header > MAX_PAYLOAD_SIZE
           then (Inl (PayloadTooLarge (uh_length header)), p\<lparr>up_buf := drop 12 (up_buf p)\<rparr>)
           else let tot = 12 + unat (uh_length header) in
             if length (up_buf p) < tot then (Inr None, p)
             else let payload_bytes = take (tot - 12) (drop 12 (up_buf p));
                      p' = p\<lparr>up_buf := drop tot (up_buf p)\<rparr> in
               case parse_payload (uh_msg_type header) payload_bytes of
                 Inl e \<Rightarrow> (Inl (BadPayload e), p')
               | Inr payload \<Rightarrow>
                   (Inr (Some \<lparr>um_id = uh_id header, um_payload = payload\<rparr>), p')))"

text \<open>The \<open>while let Some(msg) = self.parser.next_message()?\<close> loop of \<open>handle_vmc_data\<close>.\<close>

function next_messages ::
  "usbredir_parser \<Rightarrow> usbredir_message list \<times> usbredir_parser \<times> usb_error option" where
  "next_messages p =
     (case next_message p of
        (Inl e, p') \<Rightarrow> ([], p', Some e)
      | (Inr None, p') \<Rightarrow> ([], p', None)
      | (Inr (Some m), p') \<Rightarrow> (let (ms, p'', e) = next_messages p' in (m # ms, p'', e)))"
  by pat_completeness auto
termination
  by (relation "measure (\<lambda>p. length (up_buf p))")
    (auto simp: next_message_def Let_def split: if_splits sum.splits)

declare next_messages.simps [simp del]

section \<open>Refinement of the framing specification\<close>

definition usb_header_of :: "bytes \<Rightarrow> usbredir_header" where
  "usb_header_of xs =
     \<lparr>uh_msg_type = le_word (take 4 xs), uh_length = le_word (take 4 (drop 4 xs)),
      uh_id = le_word (take 4 (drop 8 xs))\<rparr>"

definition usb_parse :: "bytes \<Rightarrow> (usbredir_message, usb_error) frame" where
  "usb_parse xs =
     (if length xs < 12 then NeedMore
      else let h = usb_header_of xs; n = unat (uh_length h) in
        if uh_length h > MAX_PAYLOAD_SIZE then Refuse (PayloadTooLarge (uh_length h))
        else if length xs < 12 + n then NeedMore
        else case parse_payload (uh_msg_type h) (take n (drop 12 xs)) of
          Inl e \<Rightarrow> Refuse (BadPayload e)
        | Inr p \<Rightarrow> Frame \<lparr>um_id = uh_id h, um_payload = p\<rparr> (12 + n))"

lemma usb_header_of_append: "12 \<le> length xs \<Longrightarrow> usb_header_of (xs @ ys) = usb_header_of xs"
  by (simp add: usb_header_of_def)

lemma UsbredirHeader_read_long:
  assumes "12 \<le> length xs"
  shows "UsbredirHeader_read xs = Inr (usb_header_of xs)"
proof -
  from assms obtain h where "io_read 12 UsbredirHeader_fields xs = Inr h"
    by (metis not_le old.sum.exhaust usbredir_header.io_read_Inl_iff)
  then obtain post where "xs = UsbredirHeader_write h @ post" and h: "UsbredirHeader_read xs = Inr h"
    by (auto simp: usbredir_header.io_read_Inr_iff UsbredirHeader_read_def)
  then show ?thesis
    by (cases h) (simp add: usb_header_of_def UsbredirHeader_write_def)
qed

lemma next_message_parse:
  "next_message p =
     (case usb_parse (up_buf p) of
        NeedMore \<Rightarrow> (Inr None, p)
      | Refuse e \<Rightarrow> (Inl e, snd (next_message p))
      | Frame m n \<Rightarrow> (Inr (Some m), p\<lparr>up_buf := drop n (up_buf p)\<rparr>))"
  by (auto simp: next_message_def usb_parse_def Let_def UsbredirHeader_read_long split: sum.splits)

interpretation usbredir: framer
  UsbredirParser_feed next_message next_messages up_buf "\<lambda>_. True" usb_parse
proof (unfold_locales, goal_cases)
  case (3 b)
  then show ?case by (subst next_message_parse) simp
next
  case (4 b e)
  then show ?case by (subst next_message_parse) simp
next
  case (5 b m n)
  then show ?case by (subst next_message_parse) simp
next
  case (6 b)
  then show ?case by (rule next_messages.simps)
next
  case (8 xs m n)
  then show ?case by (auto simp: usb_parse_def Let_def split: if_splits sum.splits)
next
  case (9 xs m n ys)
  then show ?case
    by (auto simp: usb_parse_def Let_def usb_header_of_append split: if_splits sum.splits)
next
  case (10 xs e ys)
  then show ?case
    by (auto simp: usb_parse_def Let_def usb_header_of_append split: if_splits sum.splits)
qed (simp_all add: UsbredirParser_feed_def usb_parse_def)

lemma usb_parse_make:
  assumes "length payload \<le> 16 * 1024 * 1024" and "parse_payload mt payload = Inr p"
  shows "usb_parse (make_usbredir_message mt i payload @ xs)
           = Frame \<lparr>um_id = i, um_payload = p\<rparr> (length (make_usbredir_message mt i payload))"
proof -
  have n: "unat (word_of_nat (length payload) :: u32) = length payload"
    using assms(1) by (simp add: unat_of_nat)
  then have "\<not> (word_of_nat (length payload) :: u32) > MAX_PAYLOAD_SIZE"
    using assms(1) by (simp add: word_less_nat_alt MAX_PAYLOAD_SIZE_def)
  with n assms(2) show ?thesis
    by (simp add: usb_parse_def usb_header_of_def make_usbredir_message_def UsbredirHeader_write_def
        Let_def)
qed

lemma actual_length_value:
  "unat (actual_length v) = unat (bp_length_high v) * 2 ^ 16 + unat (bp_length v)"
proof -
  have "push_bit 16 (ucast (bp_length_high v)) + ucast (bp_length v) = actual_length v"
    unfolding actual_length_def
    by (rule disjunctive_add) (auto simp: bit_simps dest: bit_imp_le_length)
  moreover have "unat (bp_length_high v) < 2 ^ 16" "unat (bp_length v) < 2 ^ 16"
    using unsigned_less [of "bp_length_high v"] unsigned_less [of "bp_length v"] by simp_all
  ultimately show ?thesis
    by (simp flip: \<open>_ = actual_length v\<close>
        add: push_bit_eq_mult unat_word_ariths unsigned_ucast_eq take_bit_nat_eq_self)
qed

lemmas usb_reads =
  DeviceConnect_read_def ConfigurationStatus_read_def AltSettingStatus_read_def
  InterruptReceivingStatus_read_def ControlPacketHeader_read_def BulkPacketHeader_read_def
  InterruptPacketHeader_read_def

lemmas usb_io_reads =
  device_connect.io_read_wr [of _ "[]", simplified]
  configuration_status.io_read_wr [of _ "[]", simplified]
  alt_setting_status.io_read_wr [of _ "[]", simplified]
  interrupt_receiving_status.io_read_wr [of _ "[]", simplified]
  control_packet_header.io_read_wr bulk_packet_header.io_read_wr interrupt_packet_header.io_read_wr

lemma usb_table_reads:
  "InterfaceInfo_ok ii \<Longrightarrow> InterfaceInfo_read (InterfaceInfo_write ii) = Inr ii"
  "EpInfo_ok ei \<Longrightarrow> EpInfo_read (EpInfo_write ei) = Inr ei"
  by (simp_all add: InterfaceInfo_read_def EpInfo_read_def io_read_def length_InterfaceInfo
      length_EpInfo interface_info.decode_wr ep_info.decode_wr)

lemma usb_payload_writers:
  "parse_payload USB_DEVICE_CONNECT (DeviceConnect_write dc) = Inr (UDeviceConnect dc)"
  "parse_payload USB_CONFIGURATION_STATUS (ConfigurationStatus_write cs) = Inr (UConfigurationStatus cs)"
  "parse_payload USB_ALT_SETTING_STATUS (AltSettingStatus_write ass) = Inr (UAltSettingStatus ass)"
  "parse_payload USB_INTERRUPT_RECEIVING_STATUS (InterruptReceivingStatus_write irs)
     = Inr (UInterruptReceivingStatus irs)"
  "parse_payload USB_CONTROL_PACKET (ControlPacketHeader_write cp @ d) = Inr (UControlPacket cp d)"
  "parse_payload USB_BULK_PACKET (BulkPacketHeader_write bp @ d) = Inr (UBulkPacket bp d)"
  "parse_payload USB_INTERRUPT_PACKET (InterruptPacketHeader_write ip @ d) = Inr (UInterruptPacket ip d)"
  "Hello_ok h \<Longrightarrow> parse_payload USB_HELLO (Hello_write h) = Inr (UHello h)"
  "InterfaceInfo_ok ii \<Longrightarrow> parse_payload USB_INTERFACE_INFO (InterfaceInfo_write ii) = Inr (UInterfaceInfo ii)"
  "EpInfo_ok ei \<Longrightarrow> parse_payload USB_EP_INFO (EpInfo_write ei) = Inr (UEpInfo ei)"
  "length x < 10 \<Longrightarrow> parse_payload USB_BULK_PACKET x = Inl UnexpectedEof"
  using Hello_read_write [of h "[]"]
  by (simp_all add: parse_payload_def map_ok_def usb_types usb_table_reads usb_reads usb_io_reads
      control_packet_header.length_wr bulk_packet_header.length_wr
      interrupt_packet_header.length_wr io_read_def [of 10 _ x])

section \<open>Properties\<close>

text \<open>C36: However the usbredir byte stream is cut into SpiceVMC data messages, the parser and its
  loop deliver exactly the messages of the stream parsed at once, and stop with the same error: a
  declared payload over 16 MiB or a payload too short for its type.\<close>

theorem usbredir_chunking:
  "case split_frames usb_parse (concat reads) of (ms, rest, e) \<Rightarrow>
     \<exists>p. run_chunks UsbredirParser_feed next_messages UsbredirParser_new reads = (ms, p, e)
       \<and> (e = None \<longrightarrow> up_buf p = rest)"
proof -
  obtain ms rest e where s: "split_frames usb_parse (concat reads) = (ms, rest, e)"
    by (metis prod_cases3)
  obtain ms' p e' where
    r: "run_chunks UsbredirParser_feed next_messages UsbredirParser_new reads = (ms', p, e')"
    by (metis prod_cases3)
  have "up_buf UsbredirParser_new = []" by (simp add: UsbredirParser_new_def)
  with usbredir.run_chunks_split [OF _ _ r] s r show ?thesis
    by (simp add: usbredir.parse_Nil)
qed

theorem usbredir_chunking_witness:
  "case split_frames usb_parse (concat [[3, 0, 0, 0, 0, 0, 0], [0, 9, 0, 0, 0, 7]]) of (ms, rest, e) \<Rightarrow>
     \<exists>p. run_chunks UsbredirParser_feed next_messages UsbredirParser_new
           [[3, 0, 0, 0, 0, 0, 0], [0, 9, 0, 0, 0, 7]] = (ms, p, e)
       \<and> (e = None \<longrightarrow> up_buf p = rest)"
  by (rule usbredir_chunking)

text \<open>C37: usbredir messages built with \<open>make_usbredir_message\<close> arrive in order, with their id and
  their parsed payload, through any cutting of the stream.\<close>

theorem usbredir_roundtrip:
  assumes "\<And>mt i b p. ((mt, i, b), p) \<in> set ms \<Longrightarrow>
      length b \<le> 16 * 1024 * 1024 \<and> parse_payload mt b = Inr p"
    and "concat reads = concat (map (\<lambda>((mt, i, b), p). make_usbredir_message mt i b) ms)"
  shows "\<exists>q. run_chunks UsbredirParser_feed next_messages UsbredirParser_new reads
           = (map (\<lambda>((mt, i, b), p). \<lparr>um_id = i, um_payload = p\<rparr>) ms, q, None) \<and> up_buf q = []"
proof -
  have split: "split_frames usb_parse (concat (map (\<lambda>((mt, i, b), p). make_usbredir_message mt i b) ms))
      = (map (\<lambda>((mt, i, b), p). \<lparr>um_id = i, um_payload = p\<rparr>) ms, [], None)"
    using assms(1)
  proof (induction ms)
    case Nil
    then show ?case by (simp add: usbredir.split_NeedMore usbredir.parse_Nil)
  next
    case (Cons m ms)
    obtain mt i b p where m: "m = ((mt, i, b), p)" by (metis prod_cases4 surj_pair)
    have "length b \<le> 16 * 1024 * 1024 \<and> parse_payload mt b = Inr p"
      by (rule Cons.prems [of mt i]) (simp add: m)
    moreover have "split_frames usb_parse
        (concat (map (\<lambda>((mt, i, b), p). make_usbredir_message mt i b) ms))
        = (map (\<lambda>((mt, i, b), p). \<lparr>um_id = i, um_payload = p\<rparr>) ms, [], None)"
      by (rule Cons.IH) (metis Cons.prems list.set_intros(2))
    ultimately show ?case
      by (simp add: m usbredir.split_Frame [OF usb_parse_make])
  qed
  obtain us q e where r: "run_chunks UsbredirParser_feed next_messages UsbredirParser_new reads = (us, q, e)"
    by (metis prod_cases3)
  have "up_buf UsbredirParser_new = []" by (simp add: UsbredirParser_new_def)
  with usbredir.run_chunks_split [OF _ _ r] split assms(2) r show ?thesis
    by (simp add: usbredir.parse_Nil)
qed

theorem usbredir_roundtrip_witness:
  "let ms = [((USB_RESET, 5, []), UReset), ((USB_SET_CONFIGURATION, 6, [1]),
       USetConfiguration \<lparr>sc_configuration = 1\<rparr>)];
       bs = concat (map (\<lambda>((mt, i, b), p). make_usbredir_message mt i b) ms) in
   \<exists>q. run_chunks UsbredirParser_feed next_messages UsbredirParser_new [take 5 bs, drop 5 bs]
        = (map (\<lambda>((mt, i, b), p). \<lparr>um_id = i, um_payload = p\<rparr>) ms, q, None) \<and> up_buf q = []"
  unfolding Let_def
  by (rule usbredir_roundtrip)
    (auto simp: parse_payload_def usb_types map_ok_def SetConfiguration_read_def
      simp del: take_append drop_append)

text \<open>C38: The payload parser is the inverse of every payload writer of the crate, data packets keep
  the bytes after their header, a bulk packet's split length is read without loss, and a packet
  shorter than its header is an end-of-file error.\<close>

theorem usbredir_payloads:
  "parse_payload USB_DEVICE_CONNECT (DeviceConnect_write dc) = Inr (UDeviceConnect dc)
   \<and> parse_payload USB_CONFIGURATION_STATUS (ConfigurationStatus_write cs) = Inr (UConfigurationStatus cs)
   \<and> parse_payload USB_ALT_SETTING_STATUS (AltSettingStatus_write ass) = Inr (UAltSettingStatus ass)
   \<and> parse_payload USB_INTERRUPT_RECEIVING_STATUS (InterruptReceivingStatus_write irs)
       = Inr (UInterruptReceivingStatus irs)
   \<and> parse_payload USB_CONTROL_PACKET (ControlPacketHeader_write cp @ d) = Inr (UControlPacket cp d)
   \<and> parse_payload USB_BULK_PACKET (BulkPacketHeader_write bp @ d) = Inr (UBulkPacket bp d)
   \<and> parse_payload USB_INTERRUPT_PACKET (InterruptPacketHeader_write ip @ d) = Inr (UInterruptPacket ip d)
   \<and> (Hello_ok h \<longrightarrow> parse_payload USB_HELLO (Hello_write h) = Inr (UHello h))
   \<and> (InterfaceInfo_ok ii \<longrightarrow>
        parse_payload USB_INTERFACE_INFO (InterfaceInfo_write ii) = Inr (UInterfaceInfo ii))
   \<and> (EpInfo_ok ei \<longrightarrow> parse_payload USB_EP_INFO (EpInfo_write ei) = Inr (UEpInfo ei))
   \<and> unat (actual_length bp) = unat (bp_length_high bp) * 2 ^ 16 + unat (bp_length bp)
   \<and> (length x < 10 \<longrightarrow> parse_payload USB_BULK_PACKET x = Inl UnexpectedEof)"
  by (simp add: usb_payload_writers actual_length_value)

theorem usbredir_payloads_witness:
  "let dc = \<lparr>dc_speed = 1, dc_class = 2, dc_subclass = 3, dc_protocol = 4, dc_vendor_id = 5,
             dc_product_id = 6, dc_version_bcd = 7\<rparr>;
       h = \<lparr>hello_version = [0x72, 0x79], hello_capabilities = 3\<rparr>;
       z = replicate 32 0;
       ii = \<lparr>ii_count = 1, ii_interface = z, ii_class = z, ii_subclass = z, ii_protocol = z\<rparr>;
       ei = \<lparr>ep_type = z, ep_interval = z, ep_interface = z, ep_max_packet_size = replicate 32 0\<rparr> in
   parse_payload USB_DEVICE_CONNECT (DeviceConnect_write dc) = Inr (UDeviceConnect dc)
   \<and> parse_payload USB_HELLO (Hello_write h) = Inr (UHello h)
   \<and> parse_payload USB_INTERFACE_INFO (InterfaceInfo_write ii) = Inr (UInterfaceInfo ii)
   \<and> parse_payload USB_EP_INFO (EpInfo_write ei) = Inr (UEpInfo ei)
   \<and> parse_payload USB_BULK_PACKET [1, 2] = Inl UnexpectedEof"
proof -
  let ?h = "\<lparr>hello_version = [0x72, 0x79], hello_capabilities = 3\<rparr>"
  let ?z = "replicate 32 0"
  let ?ii = "\<lparr>ii_count = 1, ii_interface = ?z, ii_class = ?z, ii_subclass = ?z, ii_protocol = ?z\<rparr>"
  let ?ei = "\<lparr>ep_type = ?z, ep_interval = ?z, ep_interface = ?z, ep_max_packet_size = replicate 32 0\<rparr>"
  have "Hello_ok ?h" "InterfaceInfo_ok ?ii" "EpInfo_ok ?ei"
    by (simp_all add: Hello_ok_def InterfaceInfo_ok_def EpInfo_ok_def ascii_valid)
  with usbredir_payloads [of "\<lparr>dc_speed = 1, dc_class = 2, dc_subclass = 3, dc_protocol = 4,
      dc_vendor_id = 5, dc_product_id = 6, dc_version_bcd = 7\<rparr>" _ _ _ _ _ _ _ ?h ?ii ?ei "[1, 2]"]
  show ?thesis
    unfolding Let_def by simp
qed

end
