(* ===== verification/Webdav_Mux.thy ===== *)
theory Webdav_Mux
  imports Framing
begin

text \<open>
  The WebDAV multiplexing protocol (\<open>shakenfist-spice-renderer/src/webdav/mux.rs\<close>) and the
  demultiplexing loop of \<open>handle_vmc_data\<close> (\<open>channels/webdav.rs\<close>). A client id is an \<open>i64\<close>, kept as
  its 64 bits. \<open>encode_mux_frame\<close> is partial: \<open>None\<close> is the panic of its \<open>assert!\<close>.
\<close>

section \<open>State and operations\<close>

definition MUX_HEADER_SIZE :: nat where "MUX_HEADER_SIZE = 10"

definition MAX_MUX_SIZE :: nat where "MAX_MUX_SIZE = 65535"

record mux_frame =
  mf_client_id :: i64
  mf_data :: bytes

record mux_demuxer =
  dm_buf :: bytes

definition MuxDemuxer_new :: mux_demuxer where
  "MuxDemuxer_new = \<lparr>dm_buf = []\<rparr>"

definition MuxDemuxer_feed :: "mux_demuxer \<Rightarrow> bytes \<Rightarrow> mux_demuxer" where
  "MuxDemuxer_feed d data = d\<lparr>dm_buf := dm_buf d @ data\<rparr>"

definition next_frame :: "mux_demuxer \<Rightarrow> mux_frame option \<times> mux_demuxer" where
  "next_frame d =
     (if length (dm_buf d) < MUX_HEADER_SIZE then (None, d)
      else let client_id = le_word (take 8 (dm_buf d));
               data_size = unat (le_word (take 2 (drop 8 (dm_buf d))) :: u16);
               total_size = MUX_HEADER_SIZE + data_size in
        if length (dm_buf d) < total_size then (None, d)
        else (Some \<lparr>mf_client_id = client_id,
                    mf_data = take data_size (drop MUX_HEADER_SIZE (dm_buf d))\<rparr>,
              d\<lparr>dm_buf := drop total_size (dm_buf d)\<rparr>))"

definition MuxDemuxer_buffered :: "mux_demuxer \<Rightarrow> nat" where
  "MuxDemuxer_buffered d = length (dm_buf d)"

definition encode_mux_frame :: "i64 \<Rightarrow> bytes \<Rightarrow> bytes option" where
  "encode_mux_frame client_id data =
     (if length data \<le> MAX_MUX_SIZE
      then Some (u64_le client_id @ u16_le (word_of_nat (length data)) @ data) else None)"

text \<open>The \<open>while let Some(frame) = self.demuxer.next_frame()\<close> loop.\<close>

function next_frames :: "mux_demuxer \<Rightarrow> mux_frame list \<times> mux_demuxer" where
  "next_frames d =
     (case next_frame d of
        (None, d') \<Rightarrow> ([], d')
      | (Some f, d') \<Rightarrow> (let (fs, d'') = next_frames d' in (f # fs, d'')))"
  by pat_completeness auto
termination
  by (relation "measure (\<lambda>d. length (dm_buf d))")
    (auto simp: next_frame_def Let_def MUX_HEADER_SIZE_def split: if_splits)

declare next_frames.simps [simp del]

section \<open>Refinement of the framing specification\<close>

definition mux_parse :: "bytes \<Rightarrow> (mux_frame, unit) frame" where
  "mux_parse xs =
     (if length xs < MUX_HEADER_SIZE then NeedMore
      else let n = unat (le_word (take 2 (drop 8 xs)) :: u16) in
        if length xs < MUX_HEADER_SIZE + n then NeedMore
        else Frame \<lparr>mf_client_id = le_word (take 8 xs), mf_data = take n (drop MUX_HEADER_SIZE xs)\<rparr>
               (MUX_HEADER_SIZE + n))"

text \<open>A demultiplexer never refuses: the contract's error type is the unit type, unused.\<close>

definition mux_next :: "mux_demuxer \<Rightarrow> (unit + mux_frame option) \<times> mux_demuxer" where
  "mux_next d = (case next_frame d of (r, d') \<Rightarrow> (Inr r, d'))"

definition mux_drain :: "mux_demuxer \<Rightarrow> mux_frame list \<times> mux_demuxer \<times> unit option" where
  "mux_drain d = (case next_frames d of (fs, d') \<Rightarrow> (fs, d', None))"

lemma next_frame_parse:
  "mux_next d =
     (case mux_parse (dm_buf d) of
        NeedMore \<Rightarrow> (Inr None, d)
      | Refuse e \<Rightarrow> (Inl e, d)
      | Frame m n \<Rightarrow> (Inr (Some m), d\<lparr>dm_buf := drop n (dm_buf d)\<rparr>))"
  by (simp add: mux_next_def next_frame_def mux_parse_def Let_def)

interpretation mux: framer
  MuxDemuxer_feed mux_next mux_drain dm_buf "\<lambda>_. True" mux_parse
proof (unfold_locales, goal_cases)
  case (6 d)
  show ?case
    by (cases "next_frame d") (auto simp: mux_drain_def mux_next_def next_frames.simps [of d]
        split: option.splits prod.splits)
qed (auto simp: MuxDemuxer_feed_def next_frame_parse mux_parse_def MUX_HEADER_SIZE_def Let_def
      split: if_splits)

lemma mux_parse_encode:
  assumes "encode_mux_frame (mf_client_id f) (mf_data f) = Some bs"
  shows "mux_parse (bs @ xs) = Frame f (length bs)"
proof -
  have "unat (word_of_nat (length (mf_data f)) :: u16) = length (mf_data f)"
    using assms by (simp add: unat_of_nat encode_mux_frame_def MAX_MUX_SIZE_def split: if_splits)
  with assms show ?thesis
    by (auto simp: mux_parse_def encode_mux_frame_def MUX_HEADER_SIZE_def Let_def split: if_splits)
qed

section \<open>Properties\<close>

text \<open>C39: Frames encoded for the guest and demultiplexed again are the same frames in order, with an
  empty frame (a client's disconnect) kept as such, however the stream is cut, and encoding
  succeeds exactly for data of at most 65535 bytes.\<close>

theorem mux_roundtrip:
  assumes "\<And>f. f \<in> set fs \<Longrightarrow> encode_mux_frame (mf_client_id f) (mf_data f) = Some (enc f)"
    and "concat reads = concat (map enc fs)"
  shows "\<exists>d. run_chunks MuxDemuxer_feed mux_drain MuxDemuxer_new reads = (fs, d, None)
           \<and> MuxDemuxer_buffered d = 0
         \<and> ((\<exists>bs. encode_mux_frame i x = Some bs) \<longleftrightarrow> length x \<le> 65535)"
proof -
  have "\<exists>d. run_chunks MuxDemuxer_feed mux_drain MuxDemuxer_new reads = (fs, d, None)
      \<and> True \<and> dm_buf d = []"
    by (rule mux.run_chunks_encoded [OF _ _ assms(2)])
      (simp_all add: MuxDemuxer_new_def mux_parse_encode [OF assms(1)])
  then show ?thesis
    by (auto simp: MuxDemuxer_buffered_def encode_mux_frame_def MAX_MUX_SIZE_def)
qed

theorem mux_roundtrip_witness:
  "let f = \<lparr>mf_client_id = 7, mf_data = [1, 2]\<rparr>;
       enc = (\<lambda>g. u64_le (mf_client_id g) @ u16_le (word_of_nat (length (mf_data g))) @ mf_data g) in
   \<exists>d. run_chunks MuxDemuxer_feed mux_drain MuxDemuxer_new [take 3 (enc f), drop 3 (enc f)] = ([f], d, None)
     \<and> MuxDemuxer_buffered d = 0
     \<and> ((\<exists>bs. encode_mux_frame 0 [1] = Some bs) \<longleftrightarrow> length [1 :: u8] \<le> 65535)"
  unfolding Let_def
  by (rule mux_roundtrip [where enc =
        "\<lambda>g. u64_le (mf_client_id g) @ u16_le (word_of_nat (length (mf_data g))) @ mf_data g"])
    (auto simp: encode_mux_frame_def MAX_MUX_SIZE_def)

text \<open>C40: However the guest's bytes are cut into VMC messages, the demultiplexer delivers exactly the
  frames of the stream and keeps exactly the bytes of the incomplete one at its end.\<close>

theorem mux_chunking:
  "case split_frames mux_parse (concat reads) of (fs, rest, e) \<Rightarrow>
     e = None \<and> (\<exists>d. run_chunks MuxDemuxer_feed mux_drain MuxDemuxer_new reads = (fs, d, None)
       \<and> dm_buf d = rest)"
proof -
  obtain fs rest e where s: "split_frames mux_parse (concat reads) = (fs, rest, e)"
    by (metis prod_cases3)
  obtain fs' d e' where
    r: "run_chunks MuxDemuxer_feed mux_drain MuxDemuxer_new reads = (fs', d, e')"
    by (metis prod_cases3)
  have "snd (snd (run_chunks MuxDemuxer_feed mux_drain q cs)) = None" for q cs
    by (induction cs arbitrary: q)
      (auto simp: mux_drain_def split: prod.splits option.splits, metis snd_conv)
  from this [of MuxDemuxer_new reads] mux.run_chunks_split [OF _ _ r] s r show ?thesis
    by (simp add: mux.parse_Nil MuxDemuxer_new_def)
qed

end
