(* ===== verification/Image.thy ===== *)
theory Image
  imports Prelude
begin

unbundle bit_operations_syntax

text \<open>
  Decoded images (\<open>shakenfist-spice-compression/src\<close>: \<open>limits.rs\<close>, \<open>dimensions.rs\<close> and
  \<open>DecompressedImage\<close> of \<open>lib.rs\<close>), and the byte buffer operations the decoders share: a buffer is
  the list of its bytes, and a pixel is four of them.
\<close>

section \<open>Limits\<close>

definition MAX_IMAGE_DIMENSION :: u32 where "MAX_IMAGE_DIMENSION = 16384"

definition MAX_IMAGE_PIXELS :: nat where "MAX_IMAGE_PIXELS = 64 * 1024 * 1024"

definition rgba_len :: "nat \<Rightarrow> nat \<Rightarrow> nat option" where
  "rgba_len width height =
     (let max_side = unat MAX_IMAGE_DIMENSION in
      if width = 0 \<or> height = 0 \<or> width > max_side \<or> height > max_side then None
      else let pixels = width * height in
        if pixels > MAX_IMAGE_PIXELS then None else Some (pixels * 4))"

definition even_dimensions :: "u32 \<Rightarrow> u32 \<Rightarrow> u32 \<times> u32" where
  "even_dimensions width height = (width AND NOT 1, height AND NOT 1)"

section \<open>Images\<close>

record decompressed_image =
  di_width :: u32
  di_height :: u32
  di_pixels :: bytes
  di_image_id :: u64
  di_win_head_dist :: u32

definition DecompressedImage_new_glz ::
  "u32 \<Rightarrow> u32 \<Rightarrow> bytes \<Rightarrow> u64 \<Rightarrow> u32 \<Rightarrow> decompressed_image option" where
  "DecompressedImage_new_glz width height pixels image_id win_head_dist =
     (if rgba_len (unat width) (unat height) \<noteq> Some (length pixels) then None
      else Some \<lparr>di_width = width, di_height = height, di_pixels = pixels,
                 di_image_id = image_id, di_win_head_dist = win_head_dist\<rparr>)"

definition DecompressedImage_new ::
  "u32 \<Rightarrow> u32 \<Rightarrow> bytes \<Rightarrow> u64 \<Rightarrow> decompressed_image option" where
  "DecompressedImage_new width height pixels image_id =
     DecompressedImage_new_glz width height pixels image_id 0"

definition image_ok :: "decompressed_image \<Rightarrow> bool" where
  "image_ok i \<longleftrightarrow> rgba_len (unat (di_width i)) (unat (di_height i)) = Some (length (di_pixels i))"

lemma DecompressedImage_new_ok:
  "DecompressedImage_new_glz w h px i d = Some im \<Longrightarrow> image_ok im"
  by (auto simp: DecompressedImage_new_glz_def image_ok_def split: if_splits)

lemma rgba_len_Some:
  "rgba_len w h = Some n \<longleftrightarrow>
     0 < w \<and> w \<le> 16384 \<and> 0 < h \<and> h \<le> 16384 \<and> w * h \<le> MAX_IMAGE_PIXELS \<and> n = w * h * 4"
  by (auto simp: rgba_len_def Let_def MAX_IMAGE_DIMENSION_def)

text \<open>No allocation sized by \<open>rgba_len\<close> is over 256 MiB.\<close>

lemma rgba_len_bound: "rgba_len w h = Some n \<Longrightarrow> n \<le> 256 * 1024 * 1024"
  by (auto simp: rgba_len_Some MAX_IMAGE_PIXELS_def mult.commute)

section \<open>Pixels in a buffer\<close>

definition set_pixel :: "bytes \<Rightarrow> nat \<Rightarrow> u8 \<Rightarrow> u8 \<Rightarrow> u8 \<Rightarrow> u8 \<Rightarrow> bytes" where
  "set_pixel out i a b c d = out[i := a, i + 1 := b, i + 2 := c, i + 3 := d]"

text \<open>\<open>output[out_idx + k] = output[src + k]\<close> for \<open>k\<close> from 0 to 3, in that order.\<close>

definition copy_pixel :: "bytes \<Rightarrow> nat \<Rightarrow> nat \<Rightarrow> bytes" where
  "copy_pixel out i src =
     (let o0 = out[i := out ! src];
          o1 = o0[i + 1 := o0 ! (src + 1)];
          o2 = o1[i + 2 := o1 ! (src + 2)] in
      o2[i + 3 := o2 ! (src + 3)])"

lemma length_set_pixel [simp]: "length (set_pixel out i a b c d) = length out"
  by (simp add: set_pixel_def)

lemma length_copy_pixel [simp]: "length (copy_pixel out i src) = length out"
  by (simp add: copy_pixel_def Let_def)

text \<open>A list of pixels, each four bytes, is a buffer when concatenated.\<close>

definition pixels4 :: "bytes list \<Rightarrow> bool" where
  "pixels4 ps \<longleftrightarrow> list_all (\<lambda>p. length p = 4) ps"

lemma pixels4_simps [simp]:
  "pixels4 []" "pixels4 (p # ps) \<longleftrightarrow> length p = 4 \<and> pixels4 ps"
  "pixels4 (ps @ qs) \<longleftrightarrow> pixels4 ps \<and> pixels4 qs"
  by (simp_all add: pixels4_def)

lemma length_concat_pixels4: "pixels4 ps \<Longrightarrow> length (concat ps) = 4 * length ps"
  by (induction ps) simp_all

lemma length_4E:
  assumes "length p = 4"
  obtains a b c d where "p = [a, b, c, d]"
  using assms by (auto simp: length_Suc_conv numeral_eq_Suc)

lemma set_pixel_append:
  assumes "i = length xs" and "4 \<le> length zs"
  shows "set_pixel (xs @ zs) i a b c d = (xs @ [a, b, c, d]) @ drop 4 zs"
proof -
  from assms(2) obtain ys where "zs = take 4 zs @ ys" "length (take 4 zs) = 4" "ys = drop 4 zs"
    by (metis append_take_drop_id length_take min.absorb2)
  then obtain p q r s where zs: "zs = [p, q, r, s] @ ys"
    by (metis length_4E)
  show ?thesis
    by (simp add: zs set_pixel_def assms(1) list_update_append numeral_eq_Suc)
qed

lemma nth_concat_pixels4:
  assumes "pixels4 ps" and "j < length ps" and "k < 4"
  shows "(concat ps @ zs) ! (4 * j + k) = ps ! j ! k"
  using assms
proof (induction ps arbitrary: j)
  case (Cons p ps)
  show ?case
  proof (cases j)
    case 0
    with Cons.prems show ?thesis by (simp add: nth_append)
  next
    case (Suc i)
    with Cons.IH [of i] Cons.prems show ?thesis by (simp add: nth_append)
  qed
qed simp

lemma copy_pixel_pixels4:
  assumes "pixels4 ps" and "j < length ps" and "4 \<le> length zs"
  shows "copy_pixel (concat ps @ zs) (4 * length ps) (4 * j) = concat (ps @ [ps ! j]) @ drop 4 zs"
proof -
  let ?o = "concat ps @ zs" and ?i = "4 * length ps"
  from assms have "length (ps ! j) = 4"
    by (simp add: pixels4_def list_all_iff)
  then obtain a b c d where p: "ps ! j = [a, b, c, d]" by (rule length_4E)
  have nth: "?o ! (4 * j) = a" "?o ! (4 * j + 1) = b" "?o ! (4 * j + 2) = c" "?o ! (4 * j + 3) = d"
    using nth_concat_pixels4 [OF assms(1,2), of 0 zs] nth_concat_pixels4 [OF assms(1,2), of 1 zs]
      nth_concat_pixels4 [OF assms(1,2), of 2 zs] nth_concat_pixels4 [OF assms(1,2), of 3 zs] p
    by (simp_all add: numeral_eq_Suc)
  have ne: "4 * j + 3 < ?i" using assms(2) by simp
  have "copy_pixel ?o ?i (4 * j) = set_pixel ?o ?i a b c d"
    using nth ne by (simp add: copy_pixel_def set_pixel_def Let_def)
  also have "\<dots> = (concat ps @ [a, b, c, d]) @ drop 4 zs"
    by (rule set_pixel_append) (simp_all add: length_concat_pixels4 assms)
  finally show ?thesis by (simp add: p)
qed

section \<open>Flipping rows\<close>

definition copy_slice :: "bytes \<Rightarrow> nat \<Rightarrow> bytes \<Rightarrow> bytes" where
  "copy_slice dst i xs = take i dst @ xs @ drop (i + length xs) dst"

text \<open>
  The bottom-up case of the decoders: row \<open>y\<close> goes to row \<open>height - 1 - y\<close> of a fresh buffer.
\<close>

definition flip_rows :: "nat \<Rightarrow> nat \<Rightarrow> bytes \<Rightarrow> bytes" where
  "flip_rows row_bytes height out =
     foldl (\<lambda>flipped y. copy_slice flipped ((height - 1 - y) * row_bytes)
                          (take row_bytes (drop (y * row_bytes) out)))
       (replicate (length out) 0) [0..<height]"

lemma length_copy_slice: "i + length xs \<le> length dst \<Longrightarrow> length (copy_slice dst i xs) = length dst"
  by (simp add: copy_slice_def)

lemma flip_rows_prefix:
  assumes "length out = height * rb" and "n \<le> height"
  shows "foldl (\<lambda>flipped y. copy_slice flipped ((height - 1 - y) * rb) (take rb (drop (y * rb) out)))
           (replicate (length out) 0) [0..<n]
         = replicate ((height - n) * rb) 0
             @ concat (map (\<lambda>y. take rb (drop (y * rb) out)) (rev [0..<n]))"
  using assms(2)
proof (induction n)
  case 0
  then show ?case by (simp add: assms(1))
next
  case (Suc n)
  let ?row = "take rb (drop (n * rb) out)"
  have m: "height - n = Suc (height - Suc n)" using Suc.prems by simp
  have "length ?row = rb"
  proof -
    have "(n + 1) * rb \<le> height * rb" using Suc.prems by (intro mult_le_mono) simp_all
    then show ?thesis by (simp add: assms(1))
  qed
  moreover have "take (k * rb) (replicate (Suc k * rb) 0 @ xs) = replicate (k * rb) 0"
    "drop (k * rb + rb) (replicate (Suc k * rb) 0 @ xs) = xs" for k and xs :: bytes
    by (simp_all add: min_def)
  ultimately show ?case
    using Suc m by (simp only: upt_Suc_append foldl_append) (simp add: copy_slice_def del: replicate_add)
qed

lemma flip_rows_rev:
  assumes "length out = height * rb"
  shows "flip_rows rb height out = concat (rev (map (\<lambda>y. take rb (drop (y * rb) out)) [0..<height]))"
  using flip_rows_prefix [OF assms, of height] by (simp add: flip_rows_def rev_map)

lemma length_flip_rows:
  assumes "length out = height * rb"
  shows "length (flip_rows rb height out) = length out"
proof -
  have "length (take rb (drop (y * rb) out)) = rb" if "y < height" for y
  proof -
    have "(y + 1) * rb \<le> height * rb" using that by (intro mult_le_mono) simp_all
    then show ?thesis by (simp add: assms)
  qed
  then have "sum_list (map (\<lambda>y. length (take rb (drop (y * rb) out))) [0..<height])
      = sum_list (map (\<lambda>y. rb) [0..<height])"
    by (intro arg_cong [where f = sum_list] map_cong) simp_all
  then show ?thesis
    by (simp add: flip_rows_rev [OF assms] length_concat rev_map comp_def sum_list_triv assms
        flip: rev_map)
qed

end
