(* ===== verification/Lz.thy ===== *)
theory Lz
  imports Image
begin

unbundle bit_operations_syntax

text \<open>
  The LZ image decoder, \<open>decompress_lz\<close> (\<open>shakenfist-spice-compression/src/lz.rs\<close>). The body of the
  source's \<open>while\<close> loop is \<open>lz_step\<close>, split into the loops it contains. Indices are \<open>usize\<close> values:
  the one subtraction that may wrap is written out, and the one addition that may overflow is a
  panic. In a debug build the addition itself panics; in a release build it wraps to 0, passes the
  guard and the indexing after it panics.
\<close>

section \<open>The decoder\<close>

datatype lz_error = LzShort | LzMagic | LzVersion | LzRefused | LzPanic

definition LZ_MAGIC :: bytes where "LZ_MAGIC = [0x20, 0x20, 0x5A, 0x4C]"

definition LZ_MAX_COPY :: u8 where "LZ_MAX_COPY = 32"

definition wrapping_sub :: "nat \<Rightarrow> nat \<Rightarrow> nat" where
  "wrapping_sub a b = (if b \<le> a then a - b else USIZE_MAX + 1 - (b - a))"

record lz_state =
  lz_out :: bytes
  lz_idx :: nat
  lz_off :: nat

text \<open>\<open>ctrl + 1\<close> literal BGR triplets, fewer when the data or the output ends.\<close>

primrec lz_literals :: "bytes \<Rightarrow> nat \<Rightarrow> nat \<Rightarrow> lz_state \<Rightarrow> lz_state" where
  "lz_literals data sz 0 s = s"
| "lz_literals data sz (Suc n) s =
     (if lz_off s + 3 > length data \<or> lz_idx s + 4 > sz then s
      else lz_literals data sz n
        \<lparr>lz_out = set_pixel (lz_out s) (lz_idx s) (data ! (lz_off s + 2)) (data ! (lz_off s + 1))
                    (data ! lz_off s) 255,
         lz_idx = lz_idx s + 4, lz_off = lz_off s + 3\<rparr>)"

text \<open>The variable-length run encoding: bytes are added until one is not 255.\<close>

function lz_run_length :: "bytes \<Rightarrow> nat \<Rightarrow> nat \<Rightarrow> nat \<times> nat" where
  "lz_run_length data off len =
     (if off \<ge> length data then (off, len)
      else let b = data ! off in
        if b \<noteq> 255 then (off + 1, len + unat b)
        else lz_run_length data (off + 1) (len + unat b))"
  by pat_completeness auto
termination
  by (relation "measure (\<lambda>(data, off, len). length data - off)") auto

declare lz_run_length.simps [simp del]

primrec lz_repeat :: "nat \<Rightarrow> nat \<Rightarrow> nat \<Rightarrow> lz_state \<Rightarrow> lz_state" where
  "lz_repeat sz src 0 s = s"
| "lz_repeat sz src (Suc n) s =
     (if lz_idx s + 4 > sz \<or> src \<ge> length (lz_out s) then s
      else lz_repeat sz src n
        (s\<lparr>lz_out := copy_pixel (lz_out s) (lz_idx s) src, lz_idx := lz_idx s + 4\<rparr>))"

primrec lz_copy :: "nat \<Rightarrow> nat \<Rightarrow> nat \<Rightarrow> lz_state \<Rightarrow> lz_error + lz_state" where
  "lz_copy sz src 0 s = Inr s"
| "lz_copy sz src (Suc n) s =
     (if lz_idx s + 4 > sz then Inr s
      else if src + 4 > USIZE_MAX then Inl LzPanic
      else if src + 4 > length (lz_out s) then Inr s
      else lz_copy sz (src + 4) n
        (s\<lparr>lz_out := copy_pixel (lz_out s) (lz_idx s) src, lz_idx := lz_idx s + 4\<rparr>))"

text \<open>
  A back-reference after its control byte: the run length and the offset are read, then the pixels
  are copied. The flag says whether the outer loop goes on; \<open>False\<close> is a \<open>break\<close>, after which only
  the output is used.
\<close>

definition lz_offset :: "bytes \<Rightarrow> u8 \<Rightarrow> nat \<Rightarrow> (nat \<times> nat) option" where
  "lz_offset data ctrl off =
     (if off \<ge> length data then None
      else let base = unat (ctrl AND 0x1F) * 256;
               code = unat (data ! off) in
        if code = 255 \<and> base = 31 * 256
        then (if off + 1 + 2 > length data then None
              else Some (unat (data ! (off + 1)) * 256 + unat (data ! (off + 2)) + 8191 + 1, off + 3))
        else Some (base + code + 1, off + 1))"

definition lz_backref ::
  "bytes \<Rightarrow> nat \<Rightarrow> u8 \<Rightarrow> lz_state \<Rightarrow> lz_error + (bool \<times> lz_state)" where
  "lz_backref data sz ctrl s =
     (let len0 = unat (drop_bit 5 ctrl);
          (off, len) = (if len0 = 7 then lz_run_length data (lz_off s) len0 else (lz_off s, len0)) in
      case lz_offset data ctrl off of
        None \<Rightarrow> Inr (False, s)
      | Some (pixel_offset, off') \<Rightarrow>
          (let src = wrapping_sub (lz_idx s) (pixel_offset * 4);
               s' = s\<lparr>lz_off := off'\<rparr> in
           if pixel_offset = 1 then Inr (True, lz_repeat sz src len s')
           else case lz_copy sz src len s' of Inl e \<Rightarrow> Inl e | Inr s'' \<Rightarrow> Inr (True, s'')))"

definition lz_step :: "bytes \<Rightarrow> nat \<Rightarrow> lz_state \<Rightarrow> lz_error + (bool \<times> lz_state)" where
  "lz_step data sz s =
     (let ctrl = data ! lz_off s; s' = s\<lparr>lz_off := lz_off s + 1\<rparr> in
      if ctrl < LZ_MAX_COPY then Inr (True, lz_literals data sz (unat ctrl + 1) s')
      else lz_backref data sz ctrl s')"

subsection \<open>The loop ends: every step consumes data\<close>

lemma lz_off_literals: "lz_off s \<le> lz_off (lz_literals data sz n s)"
proof (induction n arbitrary: s)
  case (Suc n)
  show ?case by (auto intro: order_trans [OF _ Suc])
qed simp

lemma lz_off_repeat [simp]: "lz_off (lz_repeat sz src n s) = lz_off s"
  by (induction n arbitrary: s) simp_all

lemma lz_off_copy: "lz_copy sz src n s = Inr s' \<Longrightarrow> lz_off s' = lz_off s"
  by (induction n arbitrary: s src) (fastforce split: if_splits)+

lemma lz_run_length_off: "off \<le> fst (lz_run_length data off len)"
  by (induction data off len rule: lz_run_length.induct)
    (subst lz_run_length.simps, fastforce simp: Let_def)

lemma lz_offset_off: "lz_offset data ctrl off = Some (po, off') \<Longrightarrow> off < off'"
  by (auto simp: lz_offset_def Let_def split: if_splits)

lemma lz_step_off:
  assumes "lz_step data sz s = Inr (True, s')"
  shows "lz_off s < lz_off s'"
proof (cases "data ! lz_off s < LZ_MAX_COPY")
  case True
  with assms lz_off_literals [of "s\<lparr>lz_off := lz_off s + 1\<rparr>" data sz "unat (data ! lz_off s) + 1"]
  show ?thesis by (auto simp: lz_step_def Let_def)
next
  case False
  let ?c = "data ! lz_off s" and ?s = "s\<lparr>lz_off := lz_off s + 1\<rparr>"
  from False assms obtain off len po off' where
    r: "(if unat (drop_bit 5 ?c) = 7 then lz_run_length data (lz_off ?s) (unat (drop_bit 5 ?c))
         else (lz_off ?s, unat (drop_bit 5 ?c))) = (off, len)"
    and o: "lz_offset data ?c off = Some (po, off')" and s': "lz_off s' = off'"
    by (auto simp: lz_step_def lz_backref_def Let_def dest!: lz_off_copy
        split: option.splits prod.splits if_splits sum.splits)
  from r have "lz_off ?s \<le> off"
    using lz_run_length_off [of "lz_off ?s" data "unat (drop_bit 5 ?c)"] by (auto split: if_splits)
  with lz_offset_off [OF o] s' show ?thesis by simp
qed

function lz_loop :: "bytes \<Rightarrow> nat \<Rightarrow> lz_state \<Rightarrow> lz_error + lz_state" where
  "lz_loop data sz s =
     (if lz_idx s < sz \<and> lz_off s < length data then
        (case lz_step data sz s of
           Inl e \<Rightarrow> Inl e
         | Inr (False, s') \<Rightarrow> Inr s'
         | Inr (True, s') \<Rightarrow> lz_loop data sz s')
      else Inr s)"
  by pat_completeness auto
termination
  by (relation "measure (\<lambda>(data, sz, s). length data - lz_off s)") (auto dest: lz_step_off)

declare lz_loop.simps [simp del]

text \<open>What follows the loop: the rows are flipped for a bottom-up image and the image is built.\<close>

definition lz_finish :: "u32 \<Rightarrow> u32 \<Rightarrow> bool \<Rightarrow> bytes \<Rightarrow> lz_error + decompressed_image" where
  "lz_finish width height top_down out =
     (let output = (if \<not> top_down then flip_rows (unat width * 4) (unat height) out else out) in
      case DecompressedImage_new width height output 0 of None \<Rightarrow> Inl LzRefused | Some im \<Rightarrow> Inr im)"

definition decompress_lz :: "bytes \<Rightarrow> lz_error + decompressed_image" where
  "decompress_lz data =
     (if length data < 28 then Inl LzShort
      else if take 4 data \<noteq> LZ_MAGIC then Inl LzMagic
      else if (be_word (take 2 (drop 4 data)) :: u16) \<noteq> 1 then Inl LzVersion
      else let width = be_word (take 4 (drop 12 data)) :: u32;
               height = be_word (take 4 (drop 16 data)) :: u32;
               top_down = (be_word (take 4 (drop 24 data)) :: u32) \<noteq> 0 in
        case rgba_len (unat width) (unat height) of
          None \<Rightarrow> Inl LzRefused
        | Some output_size \<Rightarrow>
            (case lz_loop data output_size
                    \<lparr>lz_out = replicate output_size 0, lz_idx = 0, lz_off = 28\<rparr> of
               Inl e \<Rightarrow> Inl e
             | Inr s \<Rightarrow> lz_finish width height top_down (lz_out s)))"

section \<open>The output buffer never changes size\<close>

lemma length_literals [simp]: "length (lz_out (lz_literals data sz n s)) = length (lz_out s)"
  by (induction n arbitrary: s) simp_all

lemma length_repeat [simp]: "length (lz_out (lz_repeat sz src n s)) = length (lz_out s)"
  by (induction n arbitrary: s) simp_all

lemma length_copy: "lz_copy sz src n s = Inr s' \<Longrightarrow> length (lz_out s') = length (lz_out s)"
  by (induction n arbitrary: s src) (fastforce split: if_splits)+

lemma length_step:
  "lz_step data sz s = Inr (b, s') \<Longrightarrow> length (lz_out s') = length (lz_out s)"
  by (auto simp: lz_step_def lz_backref_def Let_def dest: length_copy
      split: if_splits prod.splits option.splits sum.splits)

lemma length_loop: "lz_loop data sz s = Inr s' \<Longrightarrow> length (lz_out s') = length (lz_out s)"
proof (induction data sz s rule: lz_loop.induct)
  case (1 data sz s)
  show ?case
    using "1.prems" length_step [of data sz s] "1.IH"
    by (subst (asm) lz_loop.simps) (fastforce split: if_splits sum.splits bool.splits)
qed

section \<open>Specification: token streams\<close>

text \<open>
  An LZ stream as an encoder sees it: runs of literal pixels, as blue, green and red, and copies of
  \<open>len\<close> pixels from \<open>off\<close> pixels back, which may overlap what they produce.
\<close>

datatype lz_token = Lits "(u8 \<times> u8 \<times> u8) list" | Back nat nat

primrec lz_back :: "nat \<Rightarrow> nat \<Rightarrow> bytes list \<Rightarrow> bytes list" where
  "lz_back off 0 ps = ps"
| "lz_back off (Suc n) ps = lz_back off n (ps @ [ps ! (length ps - off)])"

definition lz_rgba :: "u8 \<times> u8 \<times> u8 \<Rightarrow> bytes" where
  "lz_rgba t = (case t of (b, g, r) \<Rightarrow> [r, g, b, 255])"

fun lz_expand :: "bytes list \<Rightarrow> lz_token \<Rightarrow> bytes list" where
  "lz_expand ps (Lits ls) = ps @ map lz_rgba ls"
| "lz_expand ps (Back off len) = lz_back off len ps"

fun lz_token_ok :: "bytes list \<Rightarrow> lz_token \<Rightarrow> bool" where
  "lz_token_ok ps (Lits ls) \<longleftrightarrow> 1 \<le> length ls \<and> length ls \<le> 32"
| "lz_token_ok ps (Back off len) \<longleftrightarrow> 1 \<le> off \<and> off \<le> length ps \<and> off \<le> 73727 \<and> 1 \<le> len"

fun lz_tokens_ok :: "bytes list \<Rightarrow> lz_token list \<Rightarrow> bool" where
  "lz_tokens_ok ps [] \<longleftrightarrow> True"
| "lz_tokens_ok ps (t # ts) \<longleftrightarrow> lz_token_ok ps t \<and> lz_tokens_ok (lz_expand ps t) ts"

definition lz_len_bytes :: "nat \<Rightarrow> bytes" where
  "lz_len_bytes len =
     (if len < 7 then [] else replicate ((len - 7) div 255) 255 @ [word_of_nat ((len - 7) mod 255)])"

definition lz_off_bytes :: "nat \<Rightarrow> bytes" where
  "lz_off_bytes n =
     (if n < 8191 then [word_of_nat (n mod 256)]
      else [255, word_of_nat ((n - 8191) div 256), word_of_nat ((n - 8191) mod 256)])"

definition lz_ctrl :: "nat \<Rightarrow> nat \<Rightarrow> u8" where
  "lz_ctrl n len = word_of_nat (min len 7 * 32 + min (n div 256) 31)"

fun lz_encode :: "lz_token \<Rightarrow> bytes" where
  "lz_encode (Lits ls) = word_of_nat (length ls - 1) # concat (map (\<lambda>(b, g, r). [b, g, r]) ls)"
| "lz_encode (Back off len) =
     lz_ctrl (off - 1) len # lz_len_bytes len @ lz_off_bytes (off - 1)"

section \<open>Each step decodes one token\<close>

lemma lz_rgba_simps [simp]: "lz_rgba (b, g, r) = [r, g, b, 255]"
  by (simp add: lz_rgba_def)

lemma nth_here: "(pre @ x # post) ! length pre = x"
  by (simp add: nth_append)

lemma lz_literals_decode:
  assumes "pixels4 ps" and "4 * length ls \<le> length zs"
    and "sz = 4 * length ps + length zs"
  shows "lz_literals (pre @ concat (map (\<lambda>(b, g, r). [b, g, r]) ls) @ post) sz (length ls)
           \<lparr>lz_out = concat ps @ zs, lz_idx = 4 * length ps, lz_off = length pre\<rparr>
       = \<lparr>lz_out = concat (ps @ map lz_rgba ls) @ drop (4 * length ls) zs,
          lz_idx = 4 * (length ps + length ls), lz_off = length pre + 3 * length ls\<rparr>"
  using assms
proof (induction ls arbitrary: ps zs pre)
  case (Cons l ls)
  obtain b g r where l: "l = (b, g, r)" by (metis prod_cases3)
  let ?data = "pre @ concat (map (\<lambda>(b, g, r). [b, g, r]) (l # ls)) @ post"
  have d: "?data = (pre @ [b, g, r]) @ concat (map (\<lambda>(b, g, r). [b, g, r]) ls) @ post"
    by (simp add: l)
  have nth: "?data ! length pre = b" "?data ! (length pre + 1) = g" "?data ! (length pre + 2) = r"
    by (simp_all add: l nth_append)
  have "set_pixel (concat ps @ zs) (4 * length ps) r g b 255
      = concat (ps @ [lz_rgba l]) @ drop 4 zs"
    using Cons.prems by (subst set_pixel_append) (simp_all add: length_concat_pixels4 l)
  moreover have "lz_literals ?data sz (length ls)
      \<lparr>lz_out = concat (ps @ [lz_rgba l]) @ drop 4 zs, lz_idx = 4 * length ps + 4,
       lz_off = length pre + 3\<rparr>
    = \<lparr>lz_out = concat (ps @ map lz_rgba (l # ls)) @ drop (4 * length (l # ls)) zs,
       lz_idx = 4 * (length ps + length (l # ls)), lz_off = length pre + 3 * length (l # ls)\<rparr>"
    using Cons.IH [of "ps @ [lz_rgba l]" "drop 4 zs" "pre @ [b, g, r]"] Cons.prems d
    by (simp add: l Suc3_eq_add_3 algebra_simps)
  ultimately show ?case
    using Cons.prems nth by (simp add: l)
qed simp

lemma lz_run_length_decode:
  assumes "r \<noteq> 255"
  shows "lz_run_length (pre @ replicate q 255 @ r # post) (length pre) len
       = (length pre + q + 1, len + 255 * q + unat r)"
  using assms
proof (induction q arbitrary: pre len)
  case 0
  then show ?case
    by (subst lz_run_length.simps) (simp add: nth_here)
next
  case (Suc q)
  let ?data = "pre @ replicate (Suc q) 255 @ r # post"
  have "?data ! length pre = 255" "length pre < length ?data"
    by (simp_all add: nth_here)
  then have "lz_run_length ?data (length pre) len
      = lz_run_length ?data (length pre + 1) (len + unat (255 :: u8))"
    by (subst lz_run_length.simps) (simp only: Let_def not_le [symmetric] if_False simp_thms)
  also have "\<dots> = lz_run_length ((pre @ [255]) @ replicate q 255 @ r # post) (length (pre @ [255])) (len + 255)"
    by simp
  also have "\<dots> = (length (pre @ [255]) + q + 1, len + 255 + 255 * q + unat r)"
    by (rule Suc.IH [OF Suc.prems])
  finally show ?case by simp
qed

lemma unat_small_byte: "n < 256 \<Longrightarrow> unat (word_of_nat n :: u8) = n"
  by (simp add: unat_of_nat)

lemma lz_ctrl_fields:
  assumes "1 \<le> len"
  shows "unat (drop_bit 5 (lz_ctrl n len)) = min len 7"
    and "unat (lz_ctrl n len AND 0x1F) = min (n div 256) 31"
    and "\<not> lz_ctrl n len < LZ_MAX_COPY"
proof -
  let ?v = "min len 7 * 32 + min (n div 256) 31"
  have v: "?v < 256" by (simp add: min_def)
  then have u: "unat (lz_ctrl n len) = ?v"
    unfolding lz_ctrl_def by (rule unat_small_byte)
  show "unat (drop_bit 5 (lz_ctrl n len)) = min len 7"
    by (simp add: drop_bit_eq_div unat_div u)
  have "lz_ctrl n len AND 0x1F = take_bit 5 (lz_ctrl n len)"
    by (simp add: take_bit_eq_mask mask_eq_exp_minus_1)
  then show "unat (lz_ctrl n len AND 0x1F) = min (n div 256) 31"
    by (simp add: take_bit_eq_mod unat_mod u)
  show "\<not> lz_ctrl n len < LZ_MAX_COPY"
    using assms by (simp add: word_less_nat_alt LZ_MAX_COPY_def u)
qed

lemma lz_offset_near:
  assumes "unat (ctrl AND 0x1F) = h" and "\<not> (c = 255 \<and> h = 31)"
  shows "lz_offset (pre @ c # post) ctrl (length pre) = Some (h * 256 + unat c + 1, length pre + 1)"
proof -
  have "unat c = 255 \<longleftrightarrow> c = 255"
    using word_unat_eq_iff [of c 255] by simp
  with assms show ?thesis
    by (auto simp: lz_offset_def Let_def nth_here)
qed

lemma lz_offset_far:
  assumes "unat (ctrl AND 0x1F) = 31"
  shows "lz_offset (pre @ 255 # a # b # post) ctrl (length pre)
       = Some (unat a * 256 + unat b + 8192, length pre + 3)"
  using assms by (simp add: lz_offset_def Let_def nth_append)

lemma lz_offset_decode:
  assumes "n < 73727" and "unat (ctrl AND 0x1F) = min (n div 256) 31"
  shows "lz_offset (pre @ lz_off_bytes n @ post) ctrl (length pre)
       = Some (n + 1, length pre + length (lz_off_bytes n))"
proof (cases "n < 8191")
  case True
  then have h: "min (n div 256) 31 = n div 256" by simp
  have c: "unat (word_of_nat (n mod 256) :: u8) = n mod 256" by (rule unat_small_byte) simp
  have "\<not> ((word_of_nat (n mod 256) :: u8) = 255 \<and> n div 256 = 31)"
  proof
    assume "(word_of_nat (n mod 256) :: u8) = 255 \<and> n div 256 = 31"
    with c have "n mod 256 = 255" "n div 256 = 31" by auto
    with div_mult_mod_eq [of n 256] True show False by simp
  qed
  from lz_offset_near [OF assms(2) [unfolded h] this, of pre post] True c show ?thesis
    by (simp add: lz_off_bytes_def)
next
  case False
  then have h: "min (n div 256) 31 = 31" by simp
  let ?m = "n - 8191"
  have "unat (word_of_nat (?m div 256) :: u8) = ?m div 256"
    "unat (word_of_nat (?m mod 256) :: u8) = ?m mod 256"
    using assms(1) by (auto intro!: unat_small_byte)
  with lz_offset_far [OF assms(2) [unfolded h]] False show ?thesis
    by (simp add: lz_off_bytes_def)
qed

lemma lz_back_pixels4:
  "pixels4 ps \<Longrightarrow> 1 \<le> off \<Longrightarrow> off \<le> length ps \<Longrightarrow> pixels4 (lz_back off n ps)"
proof (induction n arbitrary: ps)
  case (Suc n)
  have "length (ps ! (length ps - off)) = 4"
    using Suc.prems by (simp add: pixels4_def list_all_iff)
  with Suc show ?case by simp
qed simp

lemma length_lz_back [simp]: "length (lz_back off n ps) = length ps + n"
  by (induction n arbitrary: ps) simp_all

text \<open>The run of one pixel: every copy is of the last pixel, whose place does not move.\<close>

lemma lz_back_1:
  assumes "ps \<noteq> []"
  shows "lz_back 1 n ps = ps @ replicate n (last ps)"
  using assms
proof (induction n arbitrary: ps)
  case (Suc n)
  have "ps ! (length ps - 1) = last ps"
    using Suc.prems by (simp add: last_conv_nth)
  with Suc.IH [of "ps @ [last ps]"] show ?case by simp
qed simp

lemma lz_repeat_decode:
  assumes "pixels4 (ps @ qs)" and "ps \<noteq> []" and "4 * n \<le> length zs"
    and "sz = 4 * length (ps @ qs) + length zs" and "src = 4 * (length ps - 1)"
  shows "lz_repeat sz src n \<lparr>lz_out = concat (ps @ qs) @ zs, lz_idx = 4 * length (ps @ qs), lz_off = f\<rparr>
       = \<lparr>lz_out = concat (ps @ qs @ replicate n (last ps)) @ drop (4 * n) zs,
          lz_idx = 4 * (length (ps @ qs) + n), lz_off = f\<rparr>"
  using assms
proof (induction n arbitrary: qs zs)
  case (Suc n)
  let ?ps = "ps @ qs"
  have j: "length ps - 1 < length ?ps" "?ps ! (length ps - 1) = last ps"
    using Suc.prems(2) by (cases ps; simp add: nth_append last_conv_nth)+
  have len: "length (concat ?ps @ zs) = 4 * length ?ps + length zs"
    using Suc.prems(1) length_concat_pixels4 [of ?ps] by simp
  have "pixels4 (ps @ (qs @ [last ps]))"
    using Suc.prems(1,2) by (auto simp: pixels4_def list_all_iff)
  from Suc.IH [OF this Suc.prems(2), of "drop 4 zs"] Suc.prems len
    copy_pixel_pixels4 [OF Suc.prems(1) j(1), of zs] j(2)
  show ?case by (auto simp: algebra_simps)
qed simp

text \<open>A block copy: source and destination advance together, so the offset stays the same.\<close>

lemma lz_copy_decode:
  assumes "pixels4 ps" and "1 \<le> off" and "off \<le> length ps" and "4 * n \<le> length zs"
    and "sz = 4 * length ps + length zs" and "sz \<le> USIZE_MAX"
  shows "lz_copy sz (4 * (length ps - off)) n
           \<lparr>lz_out = concat ps @ zs, lz_idx = 4 * length ps, lz_off = f\<rparr>
       = Inr \<lparr>lz_out = concat (lz_back off n ps) @ drop (4 * n) zs,
              lz_idx = 4 * (length ps + n), lz_off = f\<rparr>"
  using assms
proof (induction n arbitrary: ps zs)
  case (Suc n)
  let ?j = "length ps - off" and ?p = "ps ! (length ps - off)"
  have j: "?j < length ps" using Suc.prems by simp
  have "length ?p = 4" using Suc.prems(1) j by (simp add: pixels4_def list_all_iff)
  moreover have "4 * ?j + 4 = 4 * (length (ps @ [?p]) - off)" using Suc.prems by simp
  moreover have len: "length (concat ps @ zs) = 4 * length ps + length zs"
    using Suc.prems(1) length_concat_pixels4 [of ps] by simp
  moreover have "4 * ?j + 4 \<le> 4 * length ps" using j by simp
  ultimately show ?case
    using Suc.prems copy_pixel_pixels4 [OF Suc.prems(1) j, of zs]
      Suc.IH [of "ps @ [?p]" "drop 4 zs"]
    by (auto simp: algebra_simps)
qed simp

lemma lz_len_decode:
  assumes "1 \<le> len"
  shows "(if min len 7 = 7 then lz_run_length (pre @ lz_len_bytes len @ post) (length pre) (min len 7)
          else (length pre, min len 7)) = (length pre + length (lz_len_bytes len), len)"
proof (cases "len < 7")
  case True
  then show ?thesis by (simp add: lz_len_bytes_def)
next
  case False
  let ?m = "len - 7"
  have u: "unat (word_of_nat (?m mod 255) :: u8) = ?m mod 255"
    by (rule unat_small_byte) (simp add: less_trans [OF mod_less_divisor])
  have "(word_of_nat (?m mod 255) :: u8) \<noteq> 255"
  proof
    assume "(word_of_nat (?m mod 255) :: u8) = 255"
    with u have "?m mod 255 = 255" by auto
    then show False using mod_less_divisor [of 255 ?m] by simp
  qed
  from lz_run_length_decode [OF this, of pre "?m div 255" post 7] u False show ?thesis
    by (simp add: lz_len_bytes_def)
qed

lemma lz_backref_eq:
  assumes "(if unat (drop_bit 5 ctrl) = 7
            then lz_run_length data (lz_off s) (unat (drop_bit 5 ctrl))
            else (lz_off s, unat (drop_bit 5 ctrl))) = (off, len)"
    and "lz_offset data ctrl off = Some (po, off')"
    and "wrapping_sub (lz_idx s) (po * 4) = src"
  shows "lz_backref data sz ctrl s =
     (if po = 1 then Inr (True, lz_repeat sz src len (s\<lparr>lz_off := off'\<rparr>))
      else case lz_copy sz src len (s\<lparr>lz_off := off'\<rparr>) of Inl e \<Rightarrow> Inl e | Inr s'' \<Rightarrow> Inr (True, s''))"
  unfolding lz_backref_def Let_def assms(1) prod.case assms(2) option.case assms(3) ..

lemma lz_step_Back:
  assumes "lz_token_ok ps (Back off len)" and "pixels4 ps" and "4 * len \<le> length zs"
    and "sz = 4 * length ps + length zs" and "sz \<le> USIZE_MAX"
  shows "lz_step (pre @ lz_encode (Back off len) @ post) sz
           \<lparr>lz_out = concat ps @ zs, lz_idx = 4 * length ps, lz_off = length pre\<rparr>
       = Inr (True, \<lparr>lz_out = concat (lz_back off len ps) @ drop (4 * len) zs,
           lz_idx = 4 * (length ps + len), lz_off = length pre + length (lz_encode (Back off len))\<rparr>)"
proof -
  let ?c = "lz_ctrl (off - 1) len"
  let ?pre = "pre @ [?c]"
  let ?data = "?pre @ lz_len_bytes len @ lz_off_bytes (off - 1) @ post"
  from assms(1) have off: "1 \<le> off" "off \<le> length ps" "off - 1 < 73727" "1 \<le> len" by auto
  have len: "(if min len 7 = 7 then lz_run_length ?data (length ?pre) (min len 7)
      else (length ?pre, min len 7)) = (length ?pre + length (lz_len_bytes len), len)"
    by (rule lz_len_decode [OF off(4)])
  have "lz_offset ((?pre @ lz_len_bytes len) @ lz_off_bytes (off - 1) @ post) ?c
      (length (?pre @ lz_len_bytes len))
      = Some (off - 1 + 1, length (?pre @ lz_len_bytes len) + length (lz_off_bytes (off - 1)))"
    by (rule lz_offset_decode [OF off(3) lz_ctrl_fields(2) [OF off(4)]])
  then have ofs: "lz_offset ?data ?c (length ?pre + length (lz_len_bytes len))
      = Some (off, length pre + length (lz_encode (Back off len)))"
    using off(1) by simp
  have src: "wrapping_sub (4 * length ps) (off * 4) = 4 * (length ps - off)"
    using off(2) by (simp add: wrapping_sub_def algebra_simps)
  let ?s = "\<lparr>lz_out = concat ps @ zs, lz_idx = 4 * length ps, lz_off = length ?pre\<rparr>"
  let ?e = "length pre + length (lz_encode (Back off len))"
  have br: "lz_backref ?data sz ?c ?s =
     (if off = 1 then Inr (True, lz_repeat sz (4 * (length ps - off)) len (?s\<lparr>lz_off := ?e\<rparr>))
      else case lz_copy sz (4 * (length ps - off)) len (?s\<lparr>lz_off := ?e\<rparr>) of
        Inl e \<Rightarrow> Inl e | Inr s'' \<Rightarrow> Inr (True, s''))"
    by (rule lz_backref_eq [OF _ ofs])
      (simp_all only: lz_ctrl_fields(1) [OF off(4)] lz_state.simps len src)
  have "lz_backref ?data sz ?c ?s = Inr (True, \<lparr>lz_out = concat (lz_back off len ps) @ drop (4 * len) zs,
      lz_idx = 4 * (length ps + len), lz_off = ?e\<rparr>)"
  proof (cases "off = 1")
    case True
    with off(2) have "ps \<noteq> []" by auto
    from lz_repeat_decode [of ps "[]" len zs sz "4 * (length ps - 1)" ?e] assms(2-4) this
      lz_back_1 [OF this, of len] True
    show ?thesis unfolding br by simp
  next
    case False
    with lz_copy_decode [OF assms(2) off(1,2) assms(3-5), of ?e] show ?thesis
      unfolding br by simp
  qed
  moreover have "(pre @ lz_encode (Back off len) @ post) = ?data" by simp
  moreover have "?data ! length pre = ?c" by (simp add: nth_append)
  ultimately show ?thesis
    using lz_ctrl_fields(3) [OF off(4), of "off - 1"]
    unfolding lz_step_def Let_def by (simp del: lz_encode.simps)
qed

lemma lz_step_Lits:
  assumes "lz_token_ok ps (Lits ls)" and "pixels4 ps" and "4 * length ls \<le> length zs"
    and "sz = 4 * length ps + length zs"
  shows "lz_step (pre @ lz_encode (Lits ls) @ post) sz
           \<lparr>lz_out = concat ps @ zs, lz_idx = 4 * length ps, lz_off = length pre\<rparr>
       = Inr (True, \<lparr>lz_out = concat (ps @ map lz_rgba ls) @ drop (4 * length ls) zs,
           lz_idx = 4 * (length ps + length ls), lz_off = length pre + length (lz_encode (Lits ls))\<rparr>)"
proof -
  define c :: u8 where "c = word_of_nat (length ls - 1)"
  have "unat c = length ls - 1"
    unfolding c_def by (rule unat_small_byte) (use assms(1) in auto)
  then have c: "unat c + 1 = length ls" "c < LZ_MAX_COPY"
    using assms(1) by (auto simp: word_less_nat_alt LZ_MAX_COPY_def)
  have "length (concat (map (\<lambda>(b, g, r). [b, g, r]) ls)) = 3 * length ls"
    by (induction ls) auto
  with lz_literals_decode [OF assms(2-4), of "pre @ [c]" post] c show ?thesis
    unfolding lz_step_def Let_def lz_encode.simps c_def [symmetric] by (simp add: nth_append)
qed

section \<open>Whole streams\<close>

lemma lz_step_token:
  assumes "lz_token_ok ps t" and "pixels4 ps" and "sz = 4 * length ps + length zs"
    and "4 * length (lz_expand ps t) \<le> sz" and "sz \<le> USIZE_MAX"
  shows "lz_step (pre @ lz_encode t @ post) sz
           \<lparr>lz_out = concat ps @ zs, lz_idx = 4 * length ps, lz_off = length pre\<rparr>
       = Inr (True, \<lparr>lz_out = concat (lz_expand ps t)
                       @ drop (4 * (length (lz_expand ps t) - length ps)) zs,
           lz_idx = 4 * length (lz_expand ps t), lz_off = length (pre @ lz_encode t)\<rparr>)"
proof (cases t)
  case (Lits ls)
  with lz_step_Lits [of ps ls zs sz pre post] assms show ?thesis by simp
next
  case (Back off len)
  with lz_step_Back [of ps off len zs sz pre post] assms show ?thesis
    by (simp del: lz_encode.simps)
qed

lemma lz_expand_pixels4: "lz_token_ok ps t \<Longrightarrow> pixels4 ps \<Longrightarrow> pixels4 (lz_expand ps t)"
  by (cases t) (auto simp: lz_back_pixels4, auto simp: pixels4_def list_all_iff)

lemma lz_expand_grows: "lz_token_ok ps t \<Longrightarrow> length ps < length (lz_expand ps t)"
  by (cases t) auto

lemma lz_tokens_grow: "lz_tokens_ok ps ts \<Longrightarrow> length ps \<le> length (foldl lz_expand ps ts)"
  by (induction ts arbitrary: ps) (fastforce dest: lz_expand_grows)+

lemma lz_encode_nonempty [simp]: "lz_encode t \<noteq> []"
  by (cases t) simp_all

lemma lz_loop_prefix:
  assumes "lz_tokens_ok ps ts" and "pixels4 ps" and "sz = 4 * length ps + length zs"
    and "4 * length (foldl lz_expand ps ts) \<le> sz" and "sz \<le> USIZE_MAX"
  shows "lz_loop (pre @ concat (map lz_encode ts) @ post) sz
           \<lparr>lz_out = concat ps @ zs, lz_idx = 4 * length ps, lz_off = length pre\<rparr>
       = lz_loop (pre @ concat (map lz_encode ts) @ post) sz
           \<lparr>lz_out = concat (foldl lz_expand ps ts)
                       @ drop (4 * (length (foldl lz_expand ps ts) - length ps)) zs,
            lz_idx = 4 * length (foldl lz_expand ps ts),
            lz_off = length (pre @ concat (map lz_encode ts))\<rparr>"
  using assms
proof (induction ts arbitrary: ps zs pre)
  case Nil
  then show ?case by simp
next
  case (Cons t ts)
  let ?ps = "lz_expand ps t" and ?rest = "concat (map lz_encode ts) @ post"
  let ?zs = "drop (4 * (length ?ps - length ps)) zs"
  from Cons.prems have t: "lz_token_ok ps t" and ts: "lz_tokens_ok ?ps ts" by simp_all
  have grow: "length ps < length ?ps" "length ?ps \<le> length (foldl lz_expand ?ps ts)"
    using lz_expand_grows [OF t] lz_tokens_grow [OF ts] .
  then have le: "4 * length ?ps \<le> sz" using Cons.prems(4) by simp
  have "lz_loop (pre @ lz_encode t @ ?rest) sz
        \<lparr>lz_out = concat ps @ zs, lz_idx = 4 * length ps, lz_off = length pre\<rparr>
      = lz_loop ((pre @ lz_encode t) @ ?rest) sz
        \<lparr>lz_out = concat ?ps @ ?zs, lz_idx = 4 * length ?ps, lz_off = length (pre @ lz_encode t)\<rparr>"
    using grow le
    by (subst lz_loop.simps)
      (simp add: lz_step_token [OF t Cons.prems(2,3) le Cons.prems(5)])
  moreover have "sz = 4 * length ?ps + length ?zs"
    using Cons.prems(3) grow le by simp
  moreover have "drop (4 * (length (foldl lz_expand ?ps ts) - length ?ps)) ?zs
      = drop (4 * (length (foldl lz_expand ?ps ts) - length ps)) zs"
    using grow by (simp add: algebra_simps)
  ultimately show ?case
    using Cons.IH [OF ts lz_expand_pixels4 [OF t Cons.prems(2)], of ?zs "pre @ lz_encode t"]
      Cons.prems(4,5) by simp
qed

lemma lz_loop_tokens:
  assumes "lz_tokens_ok ps ts" and "pixels4 ps" and "sz = 4 * length ps + length zs"
    and "4 * length (foldl lz_expand ps ts) = sz" and "sz \<le> USIZE_MAX"
  shows "\<exists>off. lz_loop (pre @ concat (map lz_encode ts) @ post) sz
           \<lparr>lz_out = concat ps @ zs, lz_idx = 4 * length ps, lz_off = length pre\<rparr>
         = Inr \<lparr>lz_out = concat (foldl lz_expand ps ts), lz_idx = sz, lz_off = off\<rparr>"
proof -
  have "length zs \<le> 4 * (length (foldl lz_expand ps ts) - length ps)"
    using assms(3,4) by simp
  moreover have "lz_loop data sz s = Inr s" if "lz_idx s = sz" for data s
    using that by (subst lz_loop.simps) simp
  ultimately show ?thesis
    using lz_loop_prefix [OF assms(1-3) _ assms(5), of pre post] assms(4) by simp
qed

text \<open>
  A block copy whose source starts one pixel before the image: the start wraps to four below the
  largest index, and the guard's addition overflows.
\<close>

lemma lz_step_panics:
  assumes "1 \<le> length ps" and "length ps < 73727" and "1 \<le> len" and "4 * length ps + 4 \<le> sz"
  shows "lz_step (pre @ lz_encode (Back (length ps + 1) len) @ post) sz
           \<lparr>lz_out = out, lz_idx = 4 * length ps, lz_off = length pre\<rparr> = Inl LzPanic"
proof -
  let ?off = "length ps + 1"
  let ?c = "lz_ctrl (length ps) len"
  let ?pre = "pre @ [?c]"
  let ?data = "?pre @ lz_len_bytes len @ lz_off_bytes (length ps) @ post"
  let ?s = "\<lparr>lz_out = out, lz_idx = 4 * length ps, lz_off = length ?pre\<rparr>"
  let ?mid = "length ?pre + length (lz_len_bytes len)"
  have len: "(if min len 7 = 7 then lz_run_length ?data (length ?pre) (min len 7)
      else (length ?pre, min len 7)) = (?mid, len)"
    by (rule lz_len_decode [OF assms(3)])
  have ofs: "lz_offset ?data ?c ?mid = Some (?off, ?mid + length (lz_off_bytes (length ps)))"
    using lz_offset_decode [OF assms(2) lz_ctrl_fields(2) [OF assms(3)], of "?pre @ lz_len_bytes len" post]
    by simp
  have src: "wrapping_sub (4 * length ps) (?off * 4) = USIZE_MAX - 3"
    by (simp add: wrapping_sub_def USIZE_MAX_def)
  obtain k where k: "len = Suc k" using assms(3) by (cases len) auto
  have "lz_backref ?data sz ?c ?s =
     (if ?off = 1
      then Inr (True, lz_repeat sz (USIZE_MAX - 3) len
             (?s\<lparr>lz_off := ?mid + length (lz_off_bytes (length ps))\<rparr>))
      else case lz_copy sz (USIZE_MAX - 3) len (?s\<lparr>lz_off := ?mid + length (lz_off_bytes (length ps))\<rparr>) of
        Inl e \<Rightarrow> Inl e | Inr s'' \<Rightarrow> Inr (True, s''))"
    by (rule lz_backref_eq [OF _ ofs])
      (simp_all only: lz_ctrl_fields(1) [OF assms(3)] lz_state.simps len src)
  also have "\<dots> = Inl LzPanic"
    using assms(1,4) by (auto simp: k USIZE_MAX_def)
  finally have "lz_backref ?data sz ?c ?s = Inl LzPanic" .
  moreover have "?data ! length pre = ?c" by (simp add: nth_append)
  moreover have "pre @ lz_encode (Back ?off len) @ post = ?data" by simp
  ultimately show ?thesis
    using lz_ctrl_fields(3) [OF assms(3), of "length ps"]
    unfolding lz_step_def Let_def by (simp del: lz_encode.simps)
qed

definition lz_header :: "u32 \<Rightarrow> u32 \<Rightarrow> bool \<Rightarrow> bytes" where
  "lz_header w h top_down =
     LZ_MAGIC @ [0, 1, 0, 1, 0, 0, 0, 8] @ rev (u32_le w) @ rev (u32_le h) @ [0, 0, 0, 0]
       @ [0, 0, 0, if top_down then 1 else 0]"

lemma be_word_rev [simp]: "be_word (rev (u32_le w)) = w"
  by (simp add: be_word_def)

lemma lz_header_fields:
  "length (lz_header w h td) = 28"
  "take 4 (lz_header w h td @ xs) = LZ_MAGIC"
  "(be_word (take 2 (drop 4 (lz_header w h td @ xs))) :: u16) = 1"
  "(be_word (take 4 (drop 12 (lz_header w h td @ xs))) :: u32) = w"
  "(be_word (take 4 (drop 16 (lz_header w h td @ xs))) :: u32) = h"
  "(be_word (take 4 (drop 24 (lz_header w h td @ xs))) :: u32) \<noteq> 0 \<longleftrightarrow> td"
  by (simp_all add: lz_header_def LZ_MAGIC_def, simp_all add: be_word_def le_word_def)

lemma rgba_len_usize: "rgba_len w h = Some sz \<Longrightarrow> sz \<le> USIZE_MAX"
  using rgba_len_bound [of w h sz] by (simp add: USIZE_MAX_def)

lemma lz_copy_error: "lz_copy sz src n s = Inl e \<Longrightarrow> e = LzPanic"
  by (induction n arbitrary: src s) (auto split: if_splits)

lemma lz_step_error: "lz_step data sz s = Inl e \<Longrightarrow> e = LzPanic"
  by (auto simp: lz_step_def lz_backref_def Let_def dest: lz_copy_error
      split: if_splits prod.splits option.splits sum.splits)

lemma lz_loop_error: "lz_loop data sz s = Inl e \<Longrightarrow> e = LzPanic"
proof (induction data sz s rule: lz_loop.induct)
  case (1 data sz s)
  show ?case
    using "1.prems" "1.IH" lz_step_error [of data sz s e]
    by (subst (asm) lz_loop.simps) (fastforce split: if_splits sum.splits bool.splits)
qed

lemma lz_loop_no_refusal: "lz_loop data sz s \<noteq> Inl LzRefused"
  using lz_loop_error by blast

lemma lz_image_size:
  assumes "rgba_len (unat w) (unat h) = Some sz" and "length out = sz"
  shows "length (if td then out else flip_rows (unat w * 4) (unat h) out) = sz"
proof -
  have "length out = unat h * (unat w * 4)"
    using assms by (simp add: rgba_len_Some algebra_simps)
  from length_flip_rows [OF this] assms(2) show ?thesis by simp
qed

lemma lz_finish_ok:
  assumes "rgba_len (unat w) (unat h) = Some sz" and "length out = sz"
  shows "lz_finish w h td out
       = Inr \<lparr>di_width = w, di_height = h,
              di_pixels = (if td then out else flip_rows (unat w * 4) (unat h) out),
              di_image_id = 0, di_win_head_dist = 0\<rparr>"
  using lz_image_size [OF assms, of td] assms
  by (auto simp: lz_finish_def DecompressedImage_new_def DecompressedImage_new_glz_def Let_def)

lemma lz_decode_stream:
  assumes "rgba_len (unat w) (unat h) = Some sz" and "lz_tokens_ok [] ts"
    and "length (foldl lz_expand [] ts) = unat w * unat h"
  shows "decompress_lz (lz_header w h td @ concat (map lz_encode ts) @ post)
       = Inr \<lparr>di_width = w, di_height = h,
              di_pixels = (let out = concat (foldl lz_expand [] ts) in
                if td then out else flip_rows (unat w * 4) (unat h) out),
              di_image_id = 0, di_win_head_dist = 0\<rparr>"
proof -
  let ?out = "concat (foldl lz_expand [] ts)"
  define data where "data = lz_header w h td @ concat (map lz_encode ts) @ post"
  have hdr: "28 \<le> length data" "take 4 data = LZ_MAGIC" "(be_word (take 2 (drop 4 data)) :: u16) = 1"
    "(be_word (take 4 (drop 12 data)) :: u32) = w" "(be_word (take 4 (drop 16 data)) :: u32) = h"
    "(be_word (take 4 (drop 24 data)) :: u32) \<noteq> 0 \<longleftrightarrow> td"
    unfolding data_def by (rule lz_header_fields | simp add: lz_header_fields(1))+
  have sz: "4 * length (foldl lz_expand [] ts) = sz"
    using assms(1,3) by (simp add: rgba_len_Some)
  obtain off where loop: "lz_loop data sz \<lparr>lz_out = replicate sz 0, lz_idx = 0, lz_off = 28\<rparr>
      = Inr \<lparr>lz_out = ?out, lz_idx = sz, lz_off = off\<rparr>"
    using lz_loop_tokens [OF assms(2), of sz "replicate sz 0" "lz_header w h td" post] sz
      rgba_len_usize [OF assms(1)] by (auto simp: lz_header_fields(1) data_def)
  from length_loop [OF this] have "length ?out = sz" by simp
  from lz_finish_ok [OF assms(1) this, of td] assms(1) loop hdr show ?thesis
    unfolding data_def [symmetric] by (simp add: decompress_lz_def Let_def)
qed

section \<open>Properties\<close>

text \<open>C9: The LZ decoder turns every well-formed token stream for the image, literal runs of 1 to 32
  pixels and copies of any length from at most 73727 pixels back within the image, into exactly
  the pixels the tokens stand for, with the rows reversed when the header says bottom-up, whatever
  follows the stream.\<close>

theorem lz_decodes:
  assumes "rgba_len (unat w) (unat h) = Some sz" and "lz_tokens_ok [] ts"
    and "length (foldl lz_expand [] ts) = unat w * unat h"
  shows "decompress_lz (lz_header w h td @ concat (map lz_encode ts) @ post)
       = Inr \<lparr>di_width = w, di_height = h,
              di_pixels = (let out = concat (foldl lz_expand [] ts) in
                if td then out else flip_rows (unat w * 4) (unat h) out),
              di_image_id = 0, di_win_head_dist = 0\<rparr>"
  using assms by (rule lz_decode_stream)

theorem lz_decodes_witness:
  "decompress_lz (lz_header 3 1 True @ concat (map lz_encode [Lits [(1, 2, 3)], Back 1 2]) @ [7])
     = Inr \<lparr>di_width = 3, di_height = 1,
            di_pixels = [3, 2, 1, 255, 3, 2, 1, 255, 3, 2, 1, 255],
            di_image_id = 0, di_win_head_dist = 0\<rparr>"
proof -
  have "rgba_len (unat (3 :: u32)) (unat (1 :: u32)) = Some 12"
    by (simp add: rgba_len_Some MAX_IMAGE_PIXELS_def)
  moreover have "foldl lz_expand [] [Lits [(1, 2, 3)], Back 1 2]
      = [[3, 2, 1, 255], [3, 2, 1, 255], [3, 2, 1, 255]]"
    by (simp add: numeral_2_eq_2)
  ultimately show ?thesis
    using lz_decodes [of 3 1 12 "[Lits [(1, 2, 3)], Back 1 2]" True "[7]"] by (simp add: Let_def)
qed

text \<open>C10: Whatever the data, an image the LZ decoder returns has the dimensions of its header, they
  pass the limits, and its pixel buffer has exactly the length they imply, at most 256 MiB;
  a refusal is given exactly for a header whose dimensions break the limits.\<close>

theorem lz_images_ok:
  "(decompress_lz data = Inr im \<longrightarrow> image_ok im \<and> length (di_pixels im) \<le> 256 * 1024 * 1024
      \<and> di_width im = be_word (take 4 (drop 12 data)) \<and> di_height im = be_word (take 4 (drop 16 data)))
   \<and> (decompress_lz data = Inl LzRefused \<longleftrightarrow>
        28 \<le> length data \<and> take 4 data = LZ_MAGIC \<and> (be_word (take 2 (drop 4 data)) :: u16) = 1
        \<and> rgba_len (unat (be_word (take 4 (drop 12 data)) :: u32))
            (unat (be_word (take 4 (drop 16 data)) :: u32)) = None)"
proof (cases "28 \<le> length data \<and> take 4 data = LZ_MAGIC \<and> (be_word (take 2 (drop 4 data)) :: u16) = 1")
  case False
  then show ?thesis by (auto simp: decompress_lz_def)
next
  case True
  let ?w = "be_word (take 4 (drop 12 data)) :: u32" and ?h = "be_word (take 4 (drop 16 data)) :: u32"
  show ?thesis
  proof (cases "rgba_len (unat ?w) (unat ?h)")
    case None
    with True show ?thesis by (simp add: decompress_lz_def)
  next
    case (Some sz)
    have "length (lz_out s') = sz" if
      "lz_loop data sz \<lparr>lz_out = replicate sz 0, lz_idx = 0, lz_off = 28\<rparr> = Inr s'" for s'
      using length_loop [OF that] by simp
    with True Some lz_loop_no_refusal [of data sz] lz_image_size [OF Some, where td = False]
      rgba_len_bound [OF Some]
    show ?thesis
      by (auto simp: decompress_lz_def Let_def lz_finish_ok [OF Some] image_ok_def split: sum.splits)
  qed
qed

theorem lz_images_ok_witness:
  "let data = lz_header 1 1 True @ lz_encode (Lits [(1, 2, 3)]);
       im = \<lparr>di_width = 1, di_height = 1, di_pixels = [3, 2, 1, 255], di_image_id = 0,
             di_win_head_dist = 0\<rparr> in
   decompress_lz data = Inr im \<and> image_ok im \<and> length (di_pixels im) \<le> 256 * 1024 * 1024
     \<and> di_width im = be_word (take 4 (drop 12 data)) \<and> di_height im = be_word (take 4 (drop 16 data))"
proof -
  let ?data = "lz_header 1 1 True @ lz_encode (Lits [(1, 2, 3)])"
  let ?im = "\<lparr>di_width = 1, di_height = 1, di_pixels = [3, 2, 1, 255], di_image_id = 0,
     di_win_head_dist = 0\<rparr> :: decompressed_image"
  have "rgba_len (unat (1 :: u32)) (unat (1 :: u32)) = Some 4"
    by (simp add: rgba_len_Some MAX_IMAGE_PIXELS_def)
  then have "decompress_lz ?data = Inr ?im"
    using lz_decode_stream [of 1 1 4 "[Lits [(1, 2, 3)]]" True "[]"] by simp
  with lz_images_ok [of ?data ?im] show ?thesis by (simp only: Let_def simp_thms)
qed

text \<open>C11: A back-reference whose source starts exactly one pixel before the image makes the decoder
  panic: after any well-formed tokens that produce at least one pixel and leave room for another,
  a copy from one pixel more than there are ends in a panic, in every build.\<close>

theorem lz_backref_panics:
  assumes "rgba_len (unat w) (unat h) = Some sz" and "lz_tokens_ok [] ts"
    and "n = length (foldl lz_expand [] ts)" and "1 \<le> n" and "n < unat w * unat h" and "n < 73727"
    and "1 \<le> len"
  shows "decompress_lz (lz_header w h td @ concat (map lz_encode ts) @ lz_encode (Back (n + 1) len) @ post)
       = Inl LzPanic"
proof -
  let ?ps = "foldl lz_expand [] ts"
  define data where "data = lz_header w h td @ concat (map lz_encode ts) @ lz_encode (Back (n + 1) len) @ post"
  have hdr: "28 \<le> length data" "take 4 data = LZ_MAGIC" "(be_word (take 2 (drop 4 data)) :: u16) = 1"
    "(be_word (take 4 (drop 12 data)) :: u32) = w" "(be_word (take 4 (drop 16 data)) :: u32) = h"
    unfolding data_def by (rule lz_header_fields | simp add: lz_header_fields(1))+
  have sz: "4 * n + 4 \<le> sz"
    using assms(1,5) by (simp add: rgba_len_Some)
  let ?pre = "lz_header w h td @ concat (map lz_encode ts)"
  let ?s = "\<lparr>lz_out = concat ?ps @ drop (4 * n) (replicate sz 0), lz_idx = 4 * n, lz_off = length ?pre\<rparr>"
  have "lz_loop data sz \<lparr>lz_out = replicate sz 0, lz_idx = 0, lz_off = 28\<rparr> = lz_loop data sz ?s"
    using lz_loop_prefix [OF assms(2), of sz "replicate sz 0" "lz_header w h td"
        "lz_encode (Back (n + 1) len) @ post"] sz rgba_len_usize [OF assms(1)] assms(3)
    by (simp add: data_def lz_header_fields(1))
  also have "\<dots> = Inl LzPanic"
  proof -
    have "lz_step data sz ?s = Inl LzPanic"
      using lz_step_panics [of ?ps len sz ?pre post] assms(3,4,6,7) sz
      by (simp add: data_def del: lz_encode.simps)
    moreover have "length ?pre < length data" by (simp add: data_def)
    ultimately show ?thesis using sz by (subst lz_loop.simps) simp
  qed
  finally show ?thesis
    unfolding data_def [symmetric] using hdr assms(1) by (simp add: decompress_lz_def Let_def)
qed

theorem lz_backref_panics_witness:
  "decompress_lz (lz_header 2 1 True @ concat (map lz_encode [Lits [(1, 2, 3)]])
     @ lz_encode (Back (1 + 1) 1) @ []) = Inl LzPanic"
  by (rule lz_backref_panics [where sz = 8])
    (simp_all add: rgba_len_Some MAX_IMAGE_PIXELS_def)

end
