(* ===== verification/Damage.thy ===== *)
theory Damage
  imports Prelude
begin

text \<open>
  Damage regions (\<open>shakenfist-spice-renderer/src/display/damage.rs\<close>): the parts of a surface
  written since a consumer last looked. What a consumer relies on is that the region never
  under-reports, and that it stays small.
\<close>

section \<open>Rectangles\<close>

record damage_rect =
  dr_left :: u32
  dr_top :: u32
  dr_right :: u32
  dr_bottom :: u32

definition DamageRect_new :: "u32 \<Rightarrow> u32 \<Rightarrow> u32 \<Rightarrow> u32 \<Rightarrow> damage_rect" where
  "DamageRect_new l t r b = \<lparr>dr_left = l, dr_top = t, dr_right = r, dr_bottom = b\<rparr>"

definition DamageRect_is_empty :: "damage_rect \<Rightarrow> bool" where
  "DamageRect_is_empty r \<longleftrightarrow> dr_left r \<ge> dr_right r \<or> dr_top r \<ge> dr_bottom r"

definition saturating_sub32 :: "u32 \<Rightarrow> u32 \<Rightarrow> u32" where
  "saturating_sub32 a b = (if b \<le> a then a - b else 0)"

definition DamageRect_width :: "damage_rect \<Rightarrow> u32" where
  "DamageRect_width r = saturating_sub32 (dr_right r) (dr_left r)"

definition DamageRect_height :: "damage_rect \<Rightarrow> u32" where
  "DamageRect_height r = saturating_sub32 (dr_bottom r) (dr_top r)"

definition DamageRect_area :: "damage_rect \<Rightarrow> u64" where
  "DamageRect_area r = ucast (DamageRect_width r) * ucast (DamageRect_height r)"

definition DamageRect_contains :: "damage_rect \<Rightarrow> damage_rect \<Rightarrow> bool" where
  "DamageRect_contains a b \<longleftrightarrow> dr_left a \<le> dr_left b \<and> dr_top a \<le> dr_top b
     \<and> dr_right a \<ge> dr_right b \<and> dr_bottom a \<ge> dr_bottom b"

definition DamageRect_union :: "damage_rect \<Rightarrow> damage_rect \<Rightarrow> damage_rect" where
  "DamageRect_union a b =
     \<lparr>dr_left = min (dr_left a) (dr_left b), dr_top = min (dr_top a) (dr_top b),
      dr_right = max (dr_right a) (dr_right b), dr_bottom = max (dr_bottom a) (dr_bottom b)\<rparr>"

definition saturating_add64 :: "u64 \<Rightarrow> u64 \<Rightarrow> u64" where
  "saturating_add64 a b = (if unat a + unat b < 2 ^ 64 then a + b else - 1)"

definition merges_with :: "damage_rect \<Rightarrow> damage_rect \<Rightarrow> bool" where
  "merges_with a b \<longleftrightarrow>
     DamageRect_area (DamageRect_union a b) \<le> saturating_add64 (DamageRect_area a) (DamageRect_area b)"

section \<open>Regions\<close>

definition MAX_DAMAGE_RECTS :: nat where "MAX_DAMAGE_RECTS = 32"

record damage_region =
  rg_rects :: "damage_rect list"

definition DamageRegion_new :: damage_region where
  "DamageRegion_new = \<lparr>rg_rects = []\<rparr>"

definition swap_remove :: "'a list \<Rightarrow> nat \<Rightarrow> 'a list" where
  "swap_remove xs i = (butlast xs)[i := last xs]"

definition rect_position :: "damage_rect \<Rightarrow> damage_rect list \<Rightarrow> nat option" where
  "rect_position g rs =
     (if \<exists>r\<in>set rs. merges_with r g
      then Some (length (takeWhile (\<lambda>r. \<not> merges_with r g) rs)) else None)"

lemma length_takeWhile_lt: "x \<in> set xs \<Longrightarrow> \<not> P x \<Longrightarrow> length (takeWhile P xs) < length xs"
  by (induction xs) auto

lemma rect_position_Some:
  "rect_position g rs = Some i \<Longrightarrow> i < length rs \<and> merges_with (rs ! i) g"
  using nth_length_takeWhile [of "\<lambda>r. \<not> merges_with r g" rs]
  by (auto simp: rect_position_def dest: length_takeWhile_lt [where P = "\<lambda>r. \<not> merges_with r g"] split: if_splits)

lemma rect_position_None: "rect_position g rs = None \<longleftrightarrow> (\<forall>r\<in>set rs. \<not> merges_with r g)"
  by (auto simp: rect_position_def)

function absorb :: "damage_rect \<Rightarrow> damage_rect list \<Rightarrow> damage_rect \<times> damage_rect list" where
  "absorb grown rects =
     (case rect_position grown rects of
        None \<Rightarrow> (grown, rects)
      | Some i \<Rightarrow> absorb (DamageRect_union grown (rects ! i)) (swap_remove rects i))"
  by pat_completeness auto
termination
  by (relation "measure (\<lambda>(g, rs). length rs)")
    (auto simp: swap_remove_def dest: rect_position_Some)

declare absorb.simps [simp del]

definition bounding_box :: "damage_region \<Rightarrow> damage_rect option" where
  "bounding_box rg =
     (case rg_rects rg of [] \<Rightarrow> None | first # rest \<Rightarrow> Some (foldl DamageRect_union first rest))"

definition DamageRegion_add :: "damage_region \<Rightarrow> damage_rect \<Rightarrow> damage_region" where
  "DamageRegion_add rg rect =
     (if DamageRect_is_empty rect \<or> (\<exists>r\<in>set (rg_rects rg). DamageRect_contains r rect) then rg
      else let (grown, rects) = absorb rect (rg_rects rg);
               rg' = rg\<lparr>rg_rects := rects @ [grown]\<rparr> in
        if length (rg_rects rg') > MAX_DAMAGE_RECTS
        then (case bounding_box rg' of Some bbox \<Rightarrow> rg\<lparr>rg_rects := [bbox]\<rparr> | None \<Rightarrow> rg')
        else rg')"

definition DamageRegion_full :: "u32 \<Rightarrow> u32 \<Rightarrow> damage_region" where
  "DamageRegion_full w h = DamageRegion_add DamageRegion_new (DamageRect_new 0 0 w h)"

definition DamageRegion_is_empty :: "damage_region \<Rightarrow> bool" where
  "DamageRegion_is_empty rg \<longleftrightarrow> rg_rects rg = []"

section \<open>The pixels of a rectangle\<close>

definition rect_pixels :: "damage_rect \<Rightarrow> (u32 \<times> u32) set" where
  "rect_pixels r = {dr_left r ..< dr_right r} \<times> {dr_top r ..< dr_bottom r}"

definition region_pixels :: "damage_rect list \<Rightarrow> (u32 \<times> u32) set" where
  "region_pixels rs = (\<Union>r\<in>set rs. rect_pixels r)"

lemma rect_pixels_empty: "rect_pixels r = {} \<longleftrightarrow> DamageRect_is_empty r"
  by (auto simp: rect_pixels_def DamageRect_is_empty_def)

lemma contains_pixels: "DamageRect_contains a b \<Longrightarrow> rect_pixels b \<subseteq> rect_pixels a"
  by (auto simp: rect_pixels_def DamageRect_contains_def)

lemma union_contains [simp]:
  "DamageRect_contains (DamageRect_union a b) a" "DamageRect_contains (DamageRect_union a b) b"
  by (simp_all add: DamageRect_contains_def DamageRect_union_def)

lemma union_pixels: "rect_pixels a \<union> rect_pixels b \<subseteq> rect_pixels (DamageRect_union a b)"
  using contains_pixels [OF union_contains(1)] contains_pixels [OF union_contains(2)] by blast

lemma contains_refl [simp]: "DamageRect_contains a a"
  by (simp add: DamageRect_contains_def)

lemma contains_trans:
  "DamageRect_contains a b \<Longrightarrow> DamageRect_contains b c \<Longrightarrow> DamageRect_contains a c"
  by (auto simp: DamageRect_contains_def)

lemma union_commute: "DamageRect_union a b = DamageRect_union b a"
  by (simp add: DamageRect_union_def min.commute max.commute)

lemma merges_commute: "merges_with a b \<longleftrightarrow> merges_with b a"
  by (auto simp: merges_with_def union_commute saturating_add64_def add.commute)

lemma union_nonempty: "\<not> DamageRect_is_empty a \<Longrightarrow> \<not> DamageRect_is_empty (DamageRect_union a b)"
  using union_pixels [of a b] by (auto simp flip: rect_pixels_empty)

text \<open>Areas are exact: a product of two 32-bit sides fits 64 bits.\<close>

lemma card_atLeastLessThan_word:
  fixes a b :: u32
  shows "card {a ..< b} = unat (saturating_sub32 b a)"
proof -
  have "unat ` {a ..< b} = {unat a ..< unat b}"
  proof (intro equalityI subsetI)
    fix n assume "n \<in> {unat a ..< unat b}"
    moreover have "unat b < 2 ^ 32"
      using unsigned_less [of b] by simp
    ultimately have "n \<in> {unat a ..< unat b}" "unat (word_of_nat n :: u32) = n"
      by (simp_all add: unat_of_nat)
    then show "n \<in> unat ` {a ..< b}"
      by (auto simp: word_le_nat_alt word_less_nat_alt intro!: image_eqI [of _ _ "word_of_nat n"])
  qed (auto simp: word_le_nat_alt word_less_nat_alt)
  then have "card {a ..< b} = unat b - unat a"
    by (metis card_atLeastLessThan card_image inj_on_subset subset_UNIV inj_unsigned)
  then show ?thesis
    by (auto simp: saturating_sub32_def unat_sub word_le_nat_alt)
qed

lemma area_pixels: "unat (DamageRect_area r) = card (rect_pixels r)"
proof -
  let ?w = "unat (DamageRect_width r)" and ?h = "unat (DamageRect_height r)"
  have "?w < 2 ^ 32" "?h < 2 ^ 32"
    using unsigned_less [of "DamageRect_width r"] unsigned_less [of "DamageRect_height r"] by simp_all
  then have "?w * ?h < 2 ^ 64"
    using mult_strict_mono [of ?w "2 ^ 32" ?h "2 ^ 32"] by simp
  then have "unat (DamageRect_area r) = ?w * ?h"
    using \<open>?w < 2 ^ 32\<close> \<open>?h < 2 ^ 32\<close>
    by (simp add: DamageRect_area_def unat_word_ariths unsigned_ucast_eq take_bit_nat_eq_self)
  then show ?thesis
    by (simp add: rect_pixels_def card_cartesian_product card_atLeastLessThan_word
        DamageRect_width_def DamageRect_height_def)
qed

section \<open>Invariant: bounded, non-empty, and nothing left to merge\<close>

definition unmergeable :: "damage_rect list \<Rightarrow> bool" where
  "unmergeable rs \<longleftrightarrow>
     (\<forall>i < length rs. \<forall>j < length rs. i \<noteq> j \<longrightarrow> \<not> merges_with (rs ! i) (rs ! j))"

definition region_ok :: "damage_region \<Rightarrow> bool" where
  "region_ok rg \<longleftrightarrow> length (rg_rects rg) \<le> MAX_DAMAGE_RECTS
     \<and> list_all (\<lambda>r. \<not> DamageRect_is_empty r) (rg_rects rg) \<and> unmergeable (rg_rects rg)"

lemma length_swap_remove [simp]: "length (swap_remove xs i) = length xs - 1"
  by (simp add: swap_remove_def)

lemma nth_swap_remove:
  assumes "i < length xs" and "j < length xs - 1"
  shows "swap_remove xs i ! j = (if j = i then xs ! (length xs - 1) else xs ! j)"
proof -
  from assms(1) have "xs \<noteq> []" by auto
  with assms show ?thesis
    by (auto simp: swap_remove_def nth_list_update nth_butlast last_conv_nth)
qed

lemma set_swap_remove:
  assumes "i < length xs"
  shows "insert (xs ! i) (set (swap_remove xs i)) = set xs"
proof (intro equalityI subsetI)
  fix x assume "x \<in> insert (xs ! i) (set (swap_remove xs i))"
  then show "x \<in> set xs"
    using assms by (auto simp: in_set_conv_nth [of x "swap_remove xs i"] nth_swap_remove
        split: if_splits)
next
  fix x assume "x \<in> set xs"
  then obtain j where j: "j < length xs" "xs ! j = x" by (auto simp: in_set_conv_nth)
  show "x \<in> insert (xs ! i) (set (swap_remove xs i))"
  proof (cases "j = i \<or> i = length xs - 1")
    case True
    then show ?thesis
      using j assms nth_swap_remove [OF assms, of j]
      by (cases "j = i") (auto simp: in_set_conv_nth intro!: exI [of _ j])
  next
    case False
    with j assms nth_swap_remove [OF assms, of i] nth_swap_remove [OF assms, of j]
    have "swap_remove xs i ! (if j = length xs - 1 then i else j) = x" by auto
    moreover have "(if j = length xs - 1 then i else j) < length (swap_remove xs i)"
      using False j assms by auto
    ultimately show ?thesis by (metis insertI2 nth_mem)
  qed
qed

lemma unmergeable_swap_remove:
  assumes "unmergeable rs" and "i < length rs"
  shows "unmergeable (swap_remove rs i)"
  using assms by (auto simp: unmergeable_def nth_swap_remove)

lemma unmergeable_snoc:
  assumes "unmergeable rs" and "\<forall>r\<in>set rs. \<not> merges_with r g"
  shows "unmergeable (rs @ [g])"
proof -
  have "\<not> merges_with (rs ! i) g" "\<not> merges_with g (rs ! i)" if "i < length rs" for i
    using assms(2) that merges_commute [of g "rs ! i"] by simp_all
  with assms(1) show ?thesis
    by (simp add: unmergeable_def nth_append less_Suc_eq)
qed

text \<open>What \<open>absorb\<close> leaves: nothing merges with the grown rectangle, and no pixel is lost.\<close>

lemma absorb_spec:
  assumes "absorb g rs = (g', rs')" and "unmergeable rs" and "\<not> DamageRect_is_empty g"
  shows "unmergeable rs' \<and> (\<forall>r\<in>set rs'. \<not> merges_with r g') \<and> set rs' \<subseteq> set rs
    \<and> length rs' \<le> length rs \<and> \<not> DamageRect_is_empty g' \<and> DamageRect_contains g' g
    \<and> rect_pixels g \<union> region_pixels rs \<subseteq> rect_pixels g' \<union> region_pixels rs'"
  using assms
proof (induction g rs arbitrary: g' rs' rule: absorb.induct)
  case (1 g rs)
  show ?case
  proof (cases "rect_position g rs")
    case None
    with "1.prems" show ?thesis
      by (subst (asm) absorb.simps) (auto simp: rect_position_None)
  next
    case (Some i)
    note i = rect_position_Some [OF Some]
    let ?g = "DamageRect_union g (rs ! i)" and ?rs = "swap_remove rs i"
    from Some "1.prems"(1) have a: "absorb ?g ?rs = (g', rs')"
      by (subst (asm) absorb.simps) simp
    have set: "set rs = insert (rs ! i) (set ?rs)"
      using set_swap_remove [of i rs] i by simp
    have "rect_pixels g \<union> region_pixels rs \<subseteq> rect_pixels ?g \<union> region_pixels ?rs"
      using union_pixels [of g "rs ! i"] by (auto simp: region_pixels_def set)
    with "1.IH" [OF Some a unmergeable_swap_remove union_nonempty] "1.prems"(2,3) i set
      contains_trans [OF _ union_contains(1)]
    show ?thesis by auto
  qed
qed

lemma foldl_union_contains_first: "DamageRect_contains (foldl DamageRect_union a rs) a"
proof (induction rs arbitrary: a)
  case (Cons q rs)
  show ?case using contains_trans [OF Cons union_contains(1)] by simp
qed simp

lemma foldl_union_contains:
  "r \<in> set rs \<Longrightarrow> DamageRect_contains (foldl DamageRect_union a rs) r"
proof (induction rs arbitrary: a)
  case (Cons q rs)
  have "DamageRect_contains (foldl DamageRect_union a (q # rs)) q"
    using contains_trans [OF foldl_union_contains_first union_contains(2)] by simp
  with Cons show ?case by auto
qed simp

lemma bounding_box_contains:
  "bounding_box rg = Some bb \<Longrightarrow> r \<in> set (rg_rects rg) \<Longrightarrow> DamageRect_contains bb r"
  by (auto simp: bounding_box_def foldl_union_contains foldl_union_contains_first split: list.splits)

lemma unmergeable_single [simp]: "unmergeable [r]"
  by (simp add: unmergeable_def)

lemma DamageRegion_add_spec:
  assumes "region_ok rg"
  shows "region_ok (DamageRegion_add rg rect)
    \<and> rect_pixels rect \<union> region_pixels (rg_rects rg) \<subseteq> region_pixels (rg_rects (DamageRegion_add rg rect))"
proof (cases "DamageRect_is_empty rect \<or> (\<exists>r\<in>set (rg_rects rg). DamageRect_contains r rect)")
  case True
  then have "rect_pixels rect \<subseteq> region_pixels (rg_rects rg)"
    using contains_pixels by (fastforce simp: region_pixels_def simp flip: rect_pixels_empty)
  with True assms show ?thesis by (auto simp: DamageRegion_add_def)
next
  case False
  obtain g rs where a: "absorb rect (rg_rects rg) = (g, rs)" by fastforce
  from False assms absorb_spec [OF a] have sp: "unmergeable rs" "\<forall>r\<in>set rs. \<not> merges_with r g"
    "set rs \<subseteq> set (rg_rects rg)" "\<not> DamageRect_is_empty g"
    "rect_pixels rect \<union> region_pixels (rg_rects rg) \<subseteq> rect_pixels g \<union> region_pixels rs"
    by (auto simp: region_ok_def)
  let ?rg = "rg\<lparr>rg_rects := rs @ [g]\<rparr>"
  obtain bb where bb: "bounding_box ?rg = Some bb"
    by (cases "rs @ [g]") (auto simp: bounding_box_def)
  show ?thesis
  proof (cases "length (rs @ [g]) > MAX_DAMAGE_RECTS")
    case True
    have pix: "rect_pixels g \<union> region_pixels rs \<subseteq> rect_pixels bb"
      using bounding_box_contains [OF bb] contains_pixels by (fastforce simp: region_pixels_def)
    then have "\<not> DamageRect_is_empty bb"
      using sp(4) by (auto simp flip: rect_pixels_empty)
    moreover have "DamageRegion_add rg rect = rg\<lparr>rg_rects := [bb]\<rparr>"
      using False True a bb by (simp add: DamageRegion_add_def)
    moreover have "region_pixels [bb] = rect_pixels bb"
      by (simp add: region_pixels_def)
    ultimately show ?thesis
      using order_trans [OF sp(5) pix] by (simp add: region_ok_def MAX_DAMAGE_RECTS_def)
  next
    case short: False
    have "DamageRegion_add rg rect = ?rg"
      using False short a by (simp add: DamageRegion_add_def)
    with short sp assms unmergeable_snoc [OF sp(1,2)] show ?thesis
      by (auto simp: region_ok_def region_pixels_def list_all_iff)
  qed
qed

lemma region_ok_new [simp]: "region_ok DamageRegion_new"
  by (simp add: region_ok_def DamageRegion_new_def unmergeable_def)

lemma damage_run:
  assumes "region_ok rg"
  shows "region_ok (foldl DamageRegion_add rg draws)
    \<and> region_pixels draws \<union> region_pixels (rg_rects rg)
        \<subseteq> region_pixels (rg_rects (foldl DamageRegion_add rg draws))"
  using assms
proof (induction draws arbitrary: rg)
  case (Cons d ds)
  note * = Cons.IH [of "DamageRegion_add rg d"] DamageRegion_add_spec [OF Cons.prems, of d]
  have "region_pixels (d # ds) = rect_pixels d \<union> region_pixels ds"
    by (simp add: region_pixels_def)
  with * show ?case by auto
qed (simp add: region_pixels_def)

lemma saturating_add64_nat:
  "x \<le> saturating_add64 a b \<longleftrightarrow> unat x \<le> unat a + unat b"
proof (cases "unat a + unat b < 2 ^ 64")
  case True
  then show ?thesis
    by (simp add: saturating_add64_def word_le_nat_alt unat_word_ariths)
next
  case False
  moreover have "unat x < 2 ^ 64" using unsigned_less [of x] by simp
  ultimately show ?thesis
    by (simp add: saturating_add64_def)
qed

lemma finite_rect_pixels [simp]: "finite (rect_pixels r)"
  by (simp add: rect_pixels_def)

text \<open>
  Merging two rectangles reports at most as many pixels beyond them as they have in common: none
  at all when they do not overlap.
\<close>

lemma merge_overreport:
  assumes "merges_with a b"
  shows "card (rect_pixels (DamageRect_union a b) - (rect_pixels a \<union> rect_pixels b))
       \<le> card (rect_pixels a \<inter> rect_pixels b)"
proof -
  have "card (rect_pixels (DamageRect_union a b)) \<le> card (rect_pixels a) + card (rect_pixels b)"
    using assms by (simp add: merges_with_def saturating_add64_nat area_pixels)
  moreover have "card (rect_pixels (DamageRect_union a b) - (rect_pixels a \<union> rect_pixels b))
      = card (rect_pixels (DamageRect_union a b)) - card (rect_pixels a \<union> rect_pixels b)"
    by (rule card_Diff_subset) (use union_pixels in auto)
  moreover have "card (rect_pixels a) + card (rect_pixels b)
      = card (rect_pixels a \<union> rect_pixels b) + card (rect_pixels a \<inter> rect_pixels b)"
    by (rule card_Un_Int) simp_all
  ultimately show ?thesis by linarith
qed

section \<open>Properties\<close>

text \<open>C17: After any sequence of draws the damage region covers every pixel any of them wrote, holds at
  most 32 rectangles, none of them empty, and no two of them qualify to merge.\<close>

theorem damage_never_underreports:
  "region_pixels draws \<subseteq> region_pixels (rg_rects (foldl DamageRegion_add DamageRegion_new draws))
   \<and> region_ok (foldl DamageRegion_add DamageRegion_new draws)"
  using damage_run [OF region_ok_new, of draws] by auto

text \<open>The area of a rectangle, computed in 64 bits, is exactly its number of pixels, and a merge
  reports at most as many pixels outside both rectangles as the two have in common.\<close>

theorem damage_merge_exact:
  "unat (DamageRect_area r) = card (rect_pixels r)
   \<and> (merges_with a b \<longrightarrow>
        card (rect_pixels (DamageRect_union a b) - (rect_pixels a \<union> rect_pixels b))
          \<le> card (rect_pixels a \<inter> rect_pixels b))"
  by (simp add: area_pixels merge_overreport)

theorem damage_merge_exact_witness:
  "let a = DamageRect_new 0 0 10 10; b = DamageRect_new 1 1 11 11 in
   merges_with a b \<and>
   card (rect_pixels (DamageRect_union a b) - (rect_pixels a \<union> rect_pixels b))
     \<le> card (rect_pixels a \<inter> rect_pixels b)"
proof -
  let ?a = "DamageRect_new 0 0 10 10" and ?b = "DamageRect_new 1 1 11 11"
  have "merges_with ?a ?b"
    by (simp add: merges_with_def saturating_add64_def DamageRect_area_def DamageRect_width_def
        DamageRect_height_def saturating_sub32_def DamageRect_union_def DamageRect_new_def)
  with damage_merge_exact [of ?a ?a ?b] show ?thesis unfolding Let_def by blast
qed

end
