(* ===== verification/Messages_Display.thy ===== *)
theory Messages_Display
  imports Messages_Common
begin

text \<open>
  Display channel messages, the part of \<open>shakenfist-spice-protocol/src/messages/display.rs\<close> whose
  fields follow one another: rectangles, clips, surfaces, monitors, streams and the client's
  requests. Draw commands with images and pointers are in \<open>Messages_Draw\<close>.
\<close>

section \<open>Rectangles, points and clips\<close>

record rect =
  rc_top :: i32
  rc_left :: i32
  rc_bottom :: i32
  rc_right :: i32

definition Rect_read :: "rect parser" where
  [codec_defs]: "Rect_read =
     bindP read_i32 (\<lambda>a. bindP read_i32 (\<lambda>b. bindP read_i32 (\<lambda>c.
     bindP read_i32 (\<lambda>d.
       retP \<lparr>rc_top = a, rc_left = b, rc_bottom = c, rc_right = d\<rparr>))))"

definition Rect_write :: "rect \<Rightarrow> bytes" where
  [codec_defs]: "Rect_write v =
     u32_le (rc_top v) @ u32_le (rc_left v) @ u32_le (rc_bottom v) @ u32_le (rc_right v)"

lemma Rect_iff [parse_iff]:
  "Rect_read (at pre xs) = Inr (v, r') \<longleftrightarrow>
     (\<exists>post. xs = Rect_write v @ post \<and> r' = at (pre @ Rect_write v) post)"
  by (cases v) (auto simp: codec_defs parse_iff)

interpretation rect: fixed_wire Rect_read Rect_write 16
  by unfold_locales (simp_all add: Rect_iff, simp add: Rect_read_def)

lemmas exact_rect [simp] = exact_bindPI [OF rect.exact_rd]

lemma rect_forward [simp]:
  "Rect_read (at pre (Rect_write v @ post)) = Inr (v, at (pre @ Rect_write v) post)"
  "Rect_read (at pre (Rect_write v)) = Inr (v, at (pre @ Rect_write v) [])"
  by (simp_all add: rect.rd_iff)

record spice_point =
  pt_x :: i32
  pt_y :: i32

definition SpicePoint_read :: "spice_point parser" where
  [codec_defs]: "SpicePoint_read =
     bindP read_i32 (\<lambda>a. bindP read_i32 (\<lambda>b.
       retP \<lparr>pt_x = a, pt_y = b\<rparr>))"

definition SpicePoint_write :: "spice_point \<Rightarrow> bytes" where
  [codec_defs]: "SpicePoint_write v =
     u32_le (pt_x v) @ u32_le (pt_y v)"

lemma SpicePoint_iff [parse_iff]:
  "SpicePoint_read (at pre xs) = Inr (v, r') \<longleftrightarrow>
     (\<exists>post. xs = SpicePoint_write v @ post \<and> r' = at (pre @ SpicePoint_write v) post)"
  by (cases v) (auto simp: codec_defs parse_iff)

interpretation spice_point: fixed_wire SpicePoint_read SpicePoint_write 8
  by unfold_locales (simp_all add: SpicePoint_iff, simp add: SpicePoint_read_def)

lemmas exact_spice_point [simp] = exact_bindPI [OF spice_point.exact_rd]

lemma spice_point_forward [simp]:
  "SpicePoint_read (at pre (SpicePoint_write v @ post)) = Inr (v, at (pre @ SpicePoint_write v) post)"
  "SpicePoint_read (at pre (SpicePoint_write v)) = Inr (v, at (pre @ SpicePoint_write v) [])"
  by (simp_all add: spice_point.rd_iff)

definition CLIP_RECTS :: u8 where "CLIP_RECTS = 1"

record clip =
  clip_kind :: u8
  clip_rects :: "rect list"

definition Clip_none :: clip where
  "Clip_none = \<lparr>clip_kind = 0, clip_rects = []\<rparr>"

definition Clip_of_rects :: "rect list \<Rightarrow> clip" where
  "Clip_of_rects rs = \<lparr>clip_kind = CLIP_RECTS, clip_rects = rs\<rparr>"

definition Clip_read :: "clip parser" where
  "Clip_read =
     bindP read_u8 (\<lambda>t.
       if t = CLIP_RECTS
       then bindP read_u32 (\<lambda>n. bindP (check_count ''num_rects'' (unat n) 16) (\<lambda>_.
            bindP (read_times (unat n) Rect_read) (\<lambda>rs.
              retP \<lparr>clip_kind = t, clip_rects = rs\<rparr>)))
       else retP \<lparr>clip_kind = t, clip_rects = []\<rparr>)"

definition Clip_write :: "clip \<Rightarrow> bytes" where
  "Clip_write v =
     clip_kind v # (if clip_kind v = CLIP_RECTS
       then u32_le (word_of_nat (length (clip_rects v))) @ concat (map Rect_write (clip_rects v))
       else [])"

text \<open>What the writer's debug assertion and the count's width ask of a clip.\<close>

definition Clip_ok :: "clip \<Rightarrow> bool" where
  "Clip_ok v \<longleftrightarrow> length (clip_rects v) < 2 ^ 32 \<and> (clip_kind v = CLIP_RECTS \<or> clip_rects v = [])"

lemma length_Rects [simp]: "length (concat (map Rect_write rs)) = 16 * length rs"
  by (induction rs) (simp_all add: rect.length_wr)

lemma Clip_forward [simp]:
  assumes "Clip_ok v"
  shows "Clip_read (at pre (Clip_write v @ post)) = Inr (v, at (pre @ Clip_write v) post)"
proof -
  have "unat (word_of_nat (length (clip_rects v)) :: u32) = length (clip_rects v)"
    using assms by (simp add: Clip_ok_def unat_of_nat)
  moreover have "read_times (length (clip_rects v)) Rect_read
      (at p (concat (map Rect_write (clip_rects v)) @ q)) =
        Inr (clip_rects v, at (p @ concat (map Rect_write (clip_rects v))) q)" for p q
    by (rule rect.read_times_wr) (simp add: list_all_iff)
  moreover have "\<lparr>clip_kind = clip_kind v, clip_rects = clip_rects v\<rparr> = v" by simp
  ultimately show ?thesis
    using assms by (auto simp: Clip_read_def Clip_write_def Clip_ok_def)
qed

lemma Clip_forward_end [simp]:
  "Clip_ok v \<Longrightarrow> Clip_read (at pre (Clip_write v)) = Inr (v, at (pre @ Clip_write v) [])"
  using Clip_forward [of v pre "[]"] by simp

interpretation clip: wire_type Clip_read Clip_write Clip_ok
  by unfold_locales simp

record draw_base =
  db_surface_id :: u32
  db_bbox :: rect
  db_clip :: clip

definition DrawBase_read :: "draw_base parser" where
  "DrawBase_read =
     bindP read_u32 (\<lambda>s. bindP Rect_read (\<lambda>b. bindP Clip_read (\<lambda>c.
       retP \<lparr>db_surface_id = s, db_bbox = b, db_clip = c\<rparr>)))"

definition DrawBase_write :: "draw_base \<Rightarrow> bytes" where
  "DrawBase_write v = u32_le (db_surface_id v) @ Rect_write (db_bbox v) @ Clip_write (db_clip v)"

interpretation draw_base: wire_type DrawBase_read DrawBase_write "\<lambda>v. Clip_ok (db_clip v)"
  by unfold_locales (simp add: DrawBase_read_def DrawBase_write_def)

section \<open>Surfaces and monitors\<close>

record surface_create =
  scr_surface_id :: u32
  scr_width :: u32
  scr_height :: u32
  scr_format :: u32
  scr_flags :: u32

definition SurfaceCreate_read :: "surface_create parser" where
  [codec_defs]: "SurfaceCreate_read =
     bindP read_u32 (\<lambda>a. bindP read_u32 (\<lambda>b. bindP read_u32 (\<lambda>c.
     bindP read_u32 (\<lambda>d. bindP read_u32 (\<lambda>e.
       retP \<lparr>scr_surface_id = a, scr_width = b, scr_height = c, scr_format = d, scr_flags = e\<rparr>)))))"

definition SurfaceCreate_write :: "surface_create \<Rightarrow> bytes" where
  [codec_defs]: "SurfaceCreate_write v =
     u32_le (scr_surface_id v) @ u32_le (scr_width v) @ u32_le (scr_height v)
       @ u32_le (scr_format v) @ u32_le (scr_flags v)"

lemma SurfaceCreate_iff [parse_iff]:
  "SurfaceCreate_read (at pre xs) = Inr (v, r') \<longleftrightarrow>
     (\<exists>post. xs = SurfaceCreate_write v @ post \<and> r' = at (pre @ SurfaceCreate_write v) post)"
  by (cases v) (auto simp: codec_defs parse_iff)

interpretation surface_create: fixed_wire SurfaceCreate_read SurfaceCreate_write 20
  by unfold_locales (simp_all add: SurfaceCreate_iff, simp add: SurfaceCreate_read_def)

record surface_destroy =
  sde_surface_id :: u32

definition SurfaceDestroy_read :: "surface_destroy parser" where
  [codec_defs]: "SurfaceDestroy_read =
     bindP read_u32 (\<lambda>a.
       retP \<lparr>sde_surface_id = a\<rparr>)"

definition SurfaceDestroy_write :: "surface_destroy \<Rightarrow> bytes" where
  [codec_defs]: "SurfaceDestroy_write v =
     u32_le (sde_surface_id v)"

lemma SurfaceDestroy_iff [parse_iff]:
  "SurfaceDestroy_read (at pre xs) = Inr (v, r') \<longleftrightarrow>
     (\<exists>post. xs = SurfaceDestroy_write v @ post \<and> r' = at (pre @ SurfaceDestroy_write v) post)"
  by (cases v) (auto simp: codec_defs parse_iff)

interpretation surface_destroy: fixed_wire SurfaceDestroy_read SurfaceDestroy_write 4
  by unfold_locales (simp_all add: SurfaceDestroy_iff, simp add: SurfaceDestroy_read_def)

record display_head =
  dh_monitor_id :: u32
  dh_surface_id :: u32
  dh_width :: u32
  dh_height :: u32
  dh_x :: u32
  dh_y :: u32
  dh_flags :: u32

definition DisplayHead_read :: "display_head parser" where
  [codec_defs]: "DisplayHead_read =
     bindP read_u32 (\<lambda>a. bindP read_u32 (\<lambda>b. bindP read_u32 (\<lambda>c.
     bindP read_u32 (\<lambda>d. bindP read_u32 (\<lambda>e. bindP read_u32 (\<lambda>f.
     bindP read_u32 (\<lambda>g.
       retP \<lparr>dh_monitor_id = a, dh_surface_id = b, dh_width = c, dh_height = d, dh_x = e,
             dh_y = f, dh_flags = g\<rparr>)))))))"

definition DisplayHead_write :: "display_head \<Rightarrow> bytes" where
  [codec_defs]: "DisplayHead_write v =
     u32_le (dh_monitor_id v) @ u32_le (dh_surface_id v) @ u32_le (dh_width v)
       @ u32_le (dh_height v) @ u32_le (dh_x v) @ u32_le (dh_y v) @ u32_le (dh_flags v)"

lemma DisplayHead_iff [parse_iff]:
  "DisplayHead_read (at pre xs) = Inr (v, r') \<longleftrightarrow>
     (\<exists>post. xs = DisplayHead_write v @ post \<and> r' = at (pre @ DisplayHead_write v) post)"
  by (cases v) (auto simp: codec_defs parse_iff)

interpretation display_head: fixed_wire DisplayHead_read DisplayHead_write 28
  by unfold_locales (simp_all add: DisplayHead_iff, simp add: DisplayHead_read_def)

record display_monitors_config =
  dmc_max_allowed :: u16
  dmc_heads :: "display_head list"

definition DisplayMonitorsConfig_read :: "display_monitors_config parser" where
  "DisplayMonitorsConfig_read =
     bindP read_u16 (\<lambda>n. bindP read_u16 (\<lambda>mx.
     bindP (check_count ''monitors_config count'' (unat n) 28) (\<lambda>_.
     bindP (read_times (unat n) DisplayHead_read) (\<lambda>hs.
       retP \<lparr>dmc_max_allowed = mx, dmc_heads = hs\<rparr>))))"

definition DisplayMonitorsConfig_write :: "display_monitors_config \<Rightarrow> bytes" where
  "DisplayMonitorsConfig_write v =
     u16_le (word_of_nat (length (dmc_heads v))) @ u16_le (dmc_max_allowed v)
       @ concat (map DisplayHead_write (dmc_heads v))"

lemma length_DisplayHeads [simp]: "length (concat (map DisplayHead_write hs)) = 28 * length hs"
  by (induction hs) (simp_all add: display_head.length_wr)

lemma DisplayMonitorsConfig_forward:
  assumes "length (dmc_heads v) < 2 ^ 16"
  shows "DisplayMonitorsConfig_read (at pre (DisplayMonitorsConfig_write v @ post)) =
     Inr (v, at (pre @ DisplayMonitorsConfig_write v) post)"
proof -
  have "unat (word_of_nat (length (dmc_heads v)) :: u16) = length (dmc_heads v)"
    using assms by (simp add: unat_of_nat)
  moreover have "read_times (length (dmc_heads v)) DisplayHead_read
      (at p (concat (map DisplayHead_write (dmc_heads v)) @ q)) =
        Inr (dmc_heads v, at (p @ concat (map DisplayHead_write (dmc_heads v))) q)" for p q
    by (rule display_head.read_times_wr) (simp add: list_all_iff)
  ultimately show ?thesis
    by (simp add: DisplayMonitorsConfig_read_def DisplayMonitorsConfig_write_def)
qed

interpretation display_monitors_config:
  wire_type DisplayMonitorsConfig_read DisplayMonitorsConfig_write "\<lambda>v. length (dmc_heads v) < 2 ^ 16"
  by unfold_locales (rule DisplayMonitorsConfig_forward)

section \<open>Streams\<close>

record stream_create =
  st_surface_id :: u32
  st_id :: u32
  st_flags :: u8
  st_codec_type :: u8
  st_stamp :: u64
  st_stream_width :: u32
  st_stream_height :: u32
  st_src_width :: u32
  st_src_height :: u32
  st_dest :: rect
  st_clip :: clip

definition StreamCreate_read :: "stream_create parser" where
  "StreamCreate_read =
     bindP read_u32 (\<lambda>a. bindP read_u32 (\<lambda>b. bindP read_u8 (\<lambda>c. bindP read_u8 (\<lambda>d.
     bindP read_u64 (\<lambda>e. bindP read_u32 (\<lambda>f. bindP read_u32 (\<lambda>g. bindP read_u32 (\<lambda>h.
     bindP read_u32 (\<lambda>i. bindP Rect_read (\<lambda>j. bindP Clip_read (\<lambda>k.
       retP \<lparr>st_surface_id = a, st_id = b, st_flags = c, st_codec_type = d, st_stamp = e,
             st_stream_width = f, st_stream_height = g, st_src_width = h, st_src_height = i,
             st_dest = j, st_clip = k\<rparr>)))))))))))"

definition StreamCreate_write :: "stream_create \<Rightarrow> bytes" where
  "StreamCreate_write v =
     u32_le (st_surface_id v) @ u32_le (st_id v) @ [st_flags v] @ [st_codec_type v]
       @ u64_le (st_stamp v) @ u32_le (st_stream_width v) @ u32_le (st_stream_height v)
       @ u32_le (st_src_width v) @ u32_le (st_src_height v) @ Rect_write (st_dest v)
       @ Clip_write (st_clip v)"

interpretation stream_create: wire_type StreamCreate_read StreamCreate_write "\<lambda>v. Clip_ok (st_clip v)"
  by unfold_locales (simp add: StreamCreate_read_def StreamCreate_write_def)

record stream_data_header =
  sdh_id :: u32
  sdh_multi_media_time :: u32

definition StreamDataHeader_read :: "stream_data_header parser" where
  [codec_defs]: "StreamDataHeader_read =
     bindP read_u32 (\<lambda>a. bindP read_u32 (\<lambda>b.
       retP \<lparr>sdh_id = a, sdh_multi_media_time = b\<rparr>))"

definition StreamDataHeader_write :: "stream_data_header \<Rightarrow> bytes" where
  [codec_defs]: "StreamDataHeader_write v =
     u32_le (sdh_id v) @ u32_le (sdh_multi_media_time v)"

lemma StreamDataHeader_iff [parse_iff]:
  "StreamDataHeader_read (at pre xs) = Inr (v, r') \<longleftrightarrow>
     (\<exists>post. xs = StreamDataHeader_write v @ post \<and> r' = at (pre @ StreamDataHeader_write v) post)"
  by (cases v) (auto simp: codec_defs parse_iff)

interpretation stream_data_header: fixed_wire StreamDataHeader_read StreamDataHeader_write 8
  by unfold_locales (simp_all add: StreamDataHeader_iff, simp add: StreamDataHeader_read_def)

lemmas exact_stream_data_header [simp] = exact_bindPI [OF stream_data_header.exact_rd]

lemma stream_data_header_forward [simp]:
  "StreamDataHeader_read (at pre (StreamDataHeader_write v @ post)) = Inr (v, at (pre @ StreamDataHeader_write v) post)"
  "StreamDataHeader_read (at pre (StreamDataHeader_write v)) = Inr (v, at (pre @ StreamDataHeader_write v) [])"
  by (simp_all add: stream_data_header.rd_iff)

text \<open>A u32 length and that many bytes: \<open>write_sized_bytes\<close> and \<open>BinaryData::read_data\<close>.\<close>

definition write_sized_bytes :: "bytes \<Rightarrow> bytes" where
  "write_sized_bytes data = u32_le (word_of_nat (length data)) @ data"

definition BinaryData_read_data :: "bytes parser" where
  "BinaryData_read_data = bindP read_u32 (\<lambda>n. read_bytes (unat n))"

lemma sized_bytes_forward [simp]:
  assumes "length d < 2 ^ 32"
  shows "BinaryData_read_data (at pre (write_sized_bytes d @ post)) =
     Inr (d, at (pre @ write_sized_bytes d) post)"
    "BinaryData_read_data (at pre (write_sized_bytes d)) =
     Inr (d, at (pre @ write_sized_bytes d) [])"
  using assms
  by (simp_all add: BinaryData_read_data_def write_sized_bytes_def unat_of_nat bindP_def)

record stream_data =
  sd_base :: stream_data_header
  sd_data :: bytes

definition StreamDataRef_read :: "stream_data parser" where
  "StreamDataRef_read =
     bindP StreamDataHeader_read (\<lambda>b. bindP BinaryData_read_data (\<lambda>d.
       retP \<lparr>sd_base = b, sd_data = d\<rparr>))"

definition StreamData_read :: "stream_data parser" where
  "StreamData_read = StreamDataRef_read"

definition StreamData_write :: "stream_data \<Rightarrow> bytes" where
  "StreamData_write v = StreamDataHeader_write (sd_base v) @ write_sized_bytes (sd_data v)"

interpretation stream_data:
  wire_type StreamData_read StreamData_write "\<lambda>v. length (sd_data v) < 2 ^ 32"
  by unfold_locales (simp add: StreamData_read_def StreamDataRef_read_def StreamData_write_def)

record stream_data_sized =
  ss_base :: stream_data_header
  ss_width :: u32
  ss_height :: u32
  ss_dest :: rect
  ss_data :: bytes

definition StreamDataSizedRef_read :: "stream_data_sized parser" where
  "StreamDataSizedRef_read =
     bindP StreamDataHeader_read (\<lambda>b. bindP read_u32 (\<lambda>w. bindP read_u32 (\<lambda>h.
     bindP Rect_read (\<lambda>r. bindP BinaryData_read_data (\<lambda>d.
       retP \<lparr>ss_base = b, ss_width = w, ss_height = h, ss_dest = r, ss_data = d\<rparr>)))))"

definition StreamDataSized_read :: "stream_data_sized parser" where
  "StreamDataSized_read = StreamDataSizedRef_read"

definition StreamDataSized_write :: "stream_data_sized \<Rightarrow> bytes" where
  "StreamDataSized_write v =
     StreamDataHeader_write (ss_base v) @ u32_le (ss_width v) @ u32_le (ss_height v)
       @ Rect_write (ss_dest v) @ write_sized_bytes (ss_data v)"

interpretation stream_data_sized:
  wire_type StreamDataSized_read StreamDataSized_write "\<lambda>v. length (ss_data v) < 2 ^ 32"
  by unfold_locales
    (simp add: StreamDataSized_read_def StreamDataSizedRef_read_def StreamDataSized_write_def)

record stream_clip =
  scl_id :: u32
  scl_clip :: clip

definition StreamClip_read :: "stream_clip parser" where
  "StreamClip_read =
     bindP read_u32 (\<lambda>i. bindP Clip_read (\<lambda>c. retP \<lparr>scl_id = i, scl_clip = c\<rparr>))"

definition StreamClip_write :: "stream_clip \<Rightarrow> bytes" where
  "StreamClip_write v = u32_le (scl_id v) @ Clip_write (scl_clip v)"

interpretation stream_clip: wire_type StreamClip_read StreamClip_write "\<lambda>v. Clip_ok (scl_clip v)"
  by unfold_locales (simp add: StreamClip_read_def StreamClip_write_def)

record stream_destroy =
  std_id :: u32

definition StreamDestroy_read :: "stream_destroy parser" where
  [codec_defs]: "StreamDestroy_read =
     bindP read_u32 (\<lambda>a.
       retP \<lparr>std_id = a\<rparr>)"

definition StreamDestroy_write :: "stream_destroy \<Rightarrow> bytes" where
  [codec_defs]: "StreamDestroy_write v =
     u32_le (std_id v)"

lemma StreamDestroy_iff [parse_iff]:
  "StreamDestroy_read (at pre xs) = Inr (v, r') \<longleftrightarrow>
     (\<exists>post. xs = StreamDestroy_write v @ post \<and> r' = at (pre @ StreamDestroy_write v) post)"
  by (cases v) (auto simp: codec_defs parse_iff)

interpretation stream_destroy: fixed_wire StreamDestroy_read StreamDestroy_write 4
  by unfold_locales (simp_all add: StreamDestroy_iff, simp add: StreamDestroy_read_def)

record stream_activate_report =
  sar_stream_id :: u32
  sar_unique_id :: u32
  sar_max_window_size :: u32
  sar_timeout_ms :: u32

definition StreamActivateReport_read :: "stream_activate_report parser" where
  [codec_defs]: "StreamActivateReport_read =
     bindP read_u32 (\<lambda>a. bindP read_u32 (\<lambda>b. bindP read_u32 (\<lambda>c.
     bindP read_u32 (\<lambda>d.
       retP \<lparr>sar_stream_id = a, sar_unique_id = b, sar_max_window_size = c, sar_timeout_ms = d\<rparr>))))"

definition StreamActivateReport_write :: "stream_activate_report \<Rightarrow> bytes" where
  [codec_defs]: "StreamActivateReport_write v =
     u32_le (sar_stream_id v) @ u32_le (sar_unique_id v) @ u32_le (sar_max_window_size v)
       @ u32_le (sar_timeout_ms v)"

lemma StreamActivateReport_iff [parse_iff]:
  "StreamActivateReport_read (at pre xs) = Inr (v, r') \<longleftrightarrow>
     (\<exists>post. xs = StreamActivateReport_write v @ post \<and> r' = at (pre @ StreamActivateReport_write v) post)"
  by (cases v) (auto simp: codec_defs parse_iff)

interpretation stream_activate_report: fixed_wire StreamActivateReport_read StreamActivateReport_write 16
  by unfold_locales (simp_all add: StreamActivateReport_iff, simp add: StreamActivateReport_read_def)

section \<open>Client requests\<close>

record display_init =
  din_cache_id :: u8
  din_cache_size :: i64
  din_glz_dict_id :: u8
  din_glz_dict_window :: i32

definition DisplayInit_read :: "display_init parser" where
  [codec_defs]: "DisplayInit_read =
     bindP read_u8 (\<lambda>a. bindP read_u64 (\<lambda>b. bindP read_u8 (\<lambda>c.
     bindP read_i32 (\<lambda>d.
       retP \<lparr>din_cache_id = a, din_cache_size = b, din_glz_dict_id = c, din_glz_dict_window = d\<rparr>))))"

definition DisplayInit_write :: "display_init \<Rightarrow> bytes" where
  [codec_defs]: "DisplayInit_write v =
     [din_cache_id v] @ u64_le (din_cache_size v) @ [din_glz_dict_id v]
       @ u32_le (din_glz_dict_window v)"

lemma DisplayInit_iff [parse_iff]:
  "DisplayInit_read (at pre xs) = Inr (v, r') \<longleftrightarrow>
     (\<exists>post. xs = DisplayInit_write v @ post \<and> r' = at (pre @ DisplayInit_write v) post)"
  by (cases v) (auto simp: codec_defs parse_iff)

interpretation display_init: fixed_wire DisplayInit_read DisplayInit_write 14
  by unfold_locales (simp_all add: DisplayInit_iff, simp add: DisplayInit_read_def)

record stream_report =
  srp_stream_id :: u32
  srp_unique_id :: u32
  srp_start_frame_mm_time :: u32
  srp_end_frame_mm_time :: u32
  srp_num_frames :: u32
  srp_num_drops :: u32
  srp_last_frame_delay :: i32
  srp_audio_delay :: u32

definition StreamReport_read :: "stream_report parser" where
  [codec_defs]: "StreamReport_read =
     bindP read_u32 (\<lambda>a. bindP read_u32 (\<lambda>b. bindP read_u32 (\<lambda>c.
     bindP read_u32 (\<lambda>d. bindP read_u32 (\<lambda>e. bindP read_u32 (\<lambda>f.
     bindP read_i32 (\<lambda>g. bindP read_u32 (\<lambda>h.
       retP \<lparr>srp_stream_id = a, srp_unique_id = b, srp_start_frame_mm_time = c,
             srp_end_frame_mm_time = d, srp_num_frames = e, srp_num_drops = f,
             srp_last_frame_delay = g, srp_audio_delay = h\<rparr>))))))))"

definition StreamReport_write :: "stream_report \<Rightarrow> bytes" where
  [codec_defs]: "StreamReport_write v =
     u32_le (srp_stream_id v) @ u32_le (srp_unique_id v) @ u32_le (srp_start_frame_mm_time v)
       @ u32_le (srp_end_frame_mm_time v) @ u32_le (srp_num_frames v) @ u32_le (srp_num_drops v)
       @ u32_le (srp_last_frame_delay v) @ u32_le (srp_audio_delay v)"

lemma StreamReport_iff [parse_iff]:
  "StreamReport_read (at pre xs) = Inr (v, r') \<longleftrightarrow>
     (\<exists>post. xs = StreamReport_write v @ post \<and> r' = at (pre @ StreamReport_write v) post)"
  by (cases v) (auto simp: codec_defs parse_iff)

interpretation stream_report: fixed_wire StreamReport_read StreamReport_write 32
  by unfold_locales (simp_all add: StreamReport_iff, simp add: StreamReport_read_def)

record preferred_compression =
  pc_image_compression :: u8

definition PreferredCompression_read :: "preferred_compression parser" where
  [codec_defs]: "PreferredCompression_read =
     bindP read_u8 (\<lambda>a.
       retP \<lparr>pc_image_compression = a\<rparr>)"

definition PreferredCompression_write :: "preferred_compression \<Rightarrow> bytes" where
  [codec_defs]: "PreferredCompression_write v =
     [pc_image_compression v]"

lemma PreferredCompression_iff [parse_iff]:
  "PreferredCompression_read (at pre xs) = Inr (v, r') \<longleftrightarrow>
     (\<exists>post. xs = PreferredCompression_write v @ post \<and> r' = at (pre @ PreferredCompression_write v) post)"
  by (cases v) (auto simp: codec_defs parse_iff)

interpretation preferred_compression: fixed_wire PreferredCompression_read PreferredCompression_write 1
  by unfold_locales (simp_all add: PreferredCompression_iff, simp add: PreferredCompression_read_def)

record preferred_video_codec_type =
  pv_codecs :: bytes

definition PreferredVideoCodecType_read :: "preferred_video_codec_type parser" where
  "PreferredVideoCodecType_read =
     bindP read_u8 (\<lambda>n. bindP (read_bytes (unat n)) (\<lambda>cs. retP \<lparr>pv_codecs = cs\<rparr>))"

definition PreferredVideoCodecType_write :: "preferred_video_codec_type \<Rightarrow> bytes" where
  "PreferredVideoCodecType_write v = word_of_nat (length (pv_codecs v)) # pv_codecs v"

interpretation preferred_video_codec_type:
  wire_type PreferredVideoCodecType_read PreferredVideoCodecType_write "\<lambda>v. length (pv_codecs v) < 256"
  by unfold_locales
    (simp add: PreferredVideoCodecType_read_def PreferredVideoCodecType_write_def unat_of_nat)

end
