(* ===== verification/Messages_Draw.thy ===== *)
theory Messages_Draw
  imports Messages_Display
begin

unbundle bit_operations_syntax

text \<open>
  Draw commands and images of the display channel (\<open>messages/display.rs\<close>): brushes and fills, read
  from a slice with the number of bytes used; images; and DRAW_COPY, whose images are found through
  offsets from the start of the message.
\<close>

section \<open>Brushes, masks and fills\<close>

datatype spice_brush = BrushNone | Solid u32 | Pattern u64 spice_point

definition BRUSH_NONE :: u8 where "BRUSH_NONE = 0"
definition BRUSH_SOLID :: u8 where "BRUSH_SOLID = 1"
definition BRUSH_PATTERN :: u8 where "BRUSH_PATTERN = 2"

definition io_result :: "link_error + 'a \<Rightarrow> io_error_kind + 'a" where
  "io_result r = (case r of Inl e \<Rightarrow> Inl (io_error_of_link_error e) | Inr v \<Rightarrow> Inr v)"

definition SpiceBrush_read :: "bytes \<Rightarrow> io_error_kind + (spice_brush \<times> nat)" where
  "SpiceBrush_read data =
     (if data = [] then Inl UnexpectedEof
      else let brush_type = data ! 0 in
        if brush_type = BRUSH_NONE then Inr (BrushNone, 1)
        else if brush_type = BRUSH_SOLID then
          (if length data < 1 + 4 then Inl UnexpectedEof
           else Inr (Solid (le_word (take 4 (drop 1 data))), 1 + 4))
        else if brush_type = BRUSH_PATTERN then
          (if length data < 1 + 16 then Inl UnexpectedEof
           else bindE (io_result (decode SpicePoint_read (take 8 (drop 9 data)))) (\<lambda>pos.
             Inr (Pattern (le_word (take 8 (drop 1 data))) pos, 1 + 16)))
        else Inl InvalidData)"

record spice_qmask =
  qm_flags :: u8
  qm_pos :: spice_point
  qm_bitmap_offset :: u32

definition SpiceQMask_read :: "spice_qmask parser" where
  [codec_defs]: "SpiceQMask_read =
     bindP read_u8 (\<lambda>a. bindP SpicePoint_read (\<lambda>b. bindP read_u32 (\<lambda>c.
       retP \<lparr>qm_flags = a, qm_pos = b, qm_bitmap_offset = c\<rparr>)))"

definition SpiceQMask_write :: "spice_qmask \<Rightarrow> bytes" where
  [codec_defs]: "SpiceQMask_write v =
     [qm_flags v] @ SpicePoint_write (qm_pos v) @ u32_le (qm_bitmap_offset v)"

lemma SpiceQMask_iff [parse_iff]:
  "SpiceQMask_read (at pre xs) = Inr (v, r') \<longleftrightarrow>
     (\<exists>post. xs = SpiceQMask_write v @ post \<and> r' = at (pre @ SpiceQMask_write v) post)"
  by (cases v) (auto simp: codec_defs parse_iff)

interpretation spice_qmask: fixed_wire SpiceQMask_read SpiceQMask_write 13
  by unfold_locales (simp_all add: SpiceQMask_iff, simp add: SpiceQMask_read_def)

lemmas exact_spice_qmask [simp] = exact_bindPI [OF spice_qmask.exact_rd]

lemma spice_qmask_forward [simp]:
  "SpiceQMask_read (at pre (SpiceQMask_write v @ post)) = Inr (v, at (pre @ SpiceQMask_write v) post)"
  "SpiceQMask_read (at pre (SpiceQMask_write v)) = Inr (v, at (pre @ SpiceQMask_write v) [])"
  by (simp_all add: spice_qmask.rd_iff)

record spice_fill =
  fill_brush :: spice_brush
  fill_rop_descriptor :: u16
  fill_mask :: spice_qmask

definition SpiceFill_read :: "bytes \<Rightarrow> io_error_kind + (spice_fill \<times> nat)" where
  "SpiceFill_read data =
     bindE (SpiceBrush_read data) (\<lambda>(brush, brush_len).
       if length data < brush_len + 2 + 13 then Inl UnexpectedEof
       else bindE (io_result (decode SpiceQMask_read (take 13 (drop (brush_len + 2) data)))) (\<lambda>qmask.
         Inr (\<lparr>fill_brush = brush, fill_rop_descriptor = le_word (take 2 (drop brush_len data)),
               fill_mask = qmask\<rparr>, brush_len + 2 + 13)))"

record spice_blackness =
  black_mask :: spice_qmask

definition SpiceBlackness_read :: "bytes \<Rightarrow> io_error_kind + spice_blackness" where
  "SpiceBlackness_read data =
     (if length data < 13 then Inl UnexpectedEof
      else bindE (io_result (decode SpiceQMask_read (take 13 data))) (\<lambda>qmask.
        Inr \<lparr>black_mask = qmask\<rparr>))"

record spice_opaque =
  op_src_bitmap :: u32
  op_src_top :: u32
  op_src_left :: u32
  op_src_bottom :: u32
  op_src_right :: u32
  op_brush :: spice_brush
  op_rop_descriptor :: u16
  op_scale_mode :: u8
  op_mask :: spice_qmask

definition u32_at :: "bytes \<Rightarrow> nat \<Rightarrow> u32" where
  "u32_at data i = le_word (take 4 (drop i data))"

definition SpiceOpaque_read :: "bytes \<Rightarrow> io_error_kind + (spice_opaque \<times> nat)" where
  "SpiceOpaque_read data =
     (if length data < 20 then Inl UnexpectedEof
      else bindE (SpiceBrush_read (drop 20 data)) (\<lambda>(brush, brush_len).
        let after_brush = 20 + brush_len in
        if length data < after_brush + 2 + 1 + 13 then Inl UnexpectedEof
        else bindE (io_result (decode SpiceQMask_read (take 13 (drop (after_brush + 3) data)))) (\<lambda>qmask.
          Inr (\<lparr>op_src_bitmap = u32_at data 0, op_src_top = u32_at data 4,
                op_src_left = u32_at data 8, op_src_bottom = u32_at data 12,
                op_src_right = u32_at data 16, op_brush = brush,
                op_rop_descriptor = le_word (take 2 (drop after_brush data)),
                op_scale_mode = data ! (after_brush + 2), op_mask = qmask\<rparr>, after_brush + 3 + 13))))"

record spice_transparent =
  tr_src_bitmap :: u32
  tr_src_top :: u32
  tr_src_left :: u32
  tr_src_bottom :: u32
  tr_src_right :: u32
  tr_src_color :: u32
  tr_true_color :: u32

definition SpiceTransparent_read :: "bytes \<Rightarrow> io_error_kind + spice_transparent" where
  "SpiceTransparent_read data =
     (if length data < 28 then Inl UnexpectedEof
      else Inr \<lparr>tr_src_bitmap = u32_at data 0, tr_src_top = u32_at data 4, tr_src_left = u32_at data 8,
                tr_src_bottom = u32_at data 12, tr_src_right = u32_at data 16,
                tr_src_color = u32_at data 20, tr_true_color = u32_at data 24\<rparr>)"

record spice_alpha_blend =
  ab_alpha_flags :: u16
  ab_alpha :: u8
  ab_src_bitmap :: u32
  ab_src_top :: u32
  ab_src_left :: u32
  ab_src_bottom :: u32
  ab_src_right :: u32

definition SpiceAlphaBlend_read :: "bytes \<Rightarrow> io_error_kind + spice_alpha_blend" where
  "SpiceAlphaBlend_read data =
     (if length data < 23 then Inl UnexpectedEof
      else Inr \<lparr>ab_alpha_flags = le_word (take 2 data), ab_alpha = data ! 2,
                ab_src_bitmap = u32_at data 3, ab_src_top = u32_at data 7,
                ab_src_left = u32_at data 11, ab_src_bottom = u32_at data 15,
                ab_src_right = u32_at data 19\<rparr>)"

text \<open>A reader that reports how much it used never claims more than there was.\<close>

lemma SpiceBrush_used: "SpiceBrush_read data = Inr (b, n) \<Longrightarrow> 1 \<le> n \<and> n \<le> length data"
  by (cases data) (auto simp: SpiceBrush_read_def bindE_def Let_def split: if_splits sum.splits)

lemma SpiceFill_used: "SpiceFill_read data = Inr (f, n) \<Longrightarrow> 16 \<le> n \<and> n \<le> length data"
  by (auto simp: SpiceFill_read_def bindE_def Let_def dest: SpiceBrush_used
      split: if_splits sum.splits prod.splits)

lemma SpiceOpaque_used: "SpiceOpaque_read data = Inr (v, n) \<Longrightarrow> 37 \<le> n \<and> n \<le> length data"
  by (auto simp: SpiceOpaque_read_def bindE_def Let_def dest!: SpiceBrush_used
      split: if_splits sum.splits prod.splits)

section \<open>Images\<close>

record image_descriptor =
  idsc_image_id :: u64
  idsc_image_type :: u8
  idsc_flags :: u8
  idsc_width :: u32
  idsc_height :: u32

definition ImageDescriptor_read :: "image_descriptor parser" where
  [codec_defs]: "ImageDescriptor_read =
     bindP read_u64 (\<lambda>a. bindP read_u8 (\<lambda>b. bindP read_u8 (\<lambda>c.
     bindP read_u32 (\<lambda>d. bindP read_u32 (\<lambda>e.
       retP \<lparr>idsc_image_id = a, idsc_image_type = b, idsc_flags = c, idsc_width = d,
             idsc_height = e\<rparr>)))))"

definition ImageDescriptor_write :: "image_descriptor \<Rightarrow> bytes" where
  [codec_defs]: "ImageDescriptor_write v =
     u64_le (idsc_image_id v) @ [idsc_image_type v] @ [idsc_flags v] @ u32_le (idsc_width v)
       @ u32_le (idsc_height v)"

lemma ImageDescriptor_iff [parse_iff]:
  "ImageDescriptor_read (at pre xs) = Inr (v, r') \<longleftrightarrow>
     (\<exists>post. xs = ImageDescriptor_write v @ post \<and> r' = at (pre @ ImageDescriptor_write v) post)"
  by (cases v) (auto simp: codec_defs parse_iff)

interpretation image_descriptor: fixed_wire ImageDescriptor_read ImageDescriptor_write 18
  by unfold_locales (simp_all add: ImageDescriptor_iff, simp add: ImageDescriptor_read_def)

lemmas exact_image_descriptor [simp] = exact_bindPI [OF image_descriptor.exact_rd]

lemma image_descriptor_forward [simp]:
  "ImageDescriptor_read (at pre (ImageDescriptor_write v @ post)) = Inr (v, at (pre @ ImageDescriptor_write v) post)"
  "ImageDescriptor_read (at pre (ImageDescriptor_write v)) = Inr (v, at (pre @ ImageDescriptor_write v) [])"
  by (simp_all add: image_descriptor.rd_iff)

datatype image_type =
  Pixmap | Quic | LzPalette | LzRgb | GlzRgb | FromCache | SurfaceImage | Jpeg | FromCacheLossless
| ZlibGlzRgb | JpegAlpha | Lz4

definition ImageType_from_u8 :: "u8 \<Rightarrow> image_type option" where
  "ImageType_from_u8 v =
     (if v = 0 then Some Pixmap else if v = 1 then Some Quic else if v = 100 then Some LzPalette
      else if v = 101 then Some LzRgb else if v = 102 then Some GlzRgb else if v = 103 then Some FromCache
      else if v = 104 then Some SurfaceImage else if v = 105 then Some Jpeg
      else if v = 106 then Some FromCacheLossless else if v = 107 then Some ZlibGlzRgb
      else if v = 108 then Some JpegAlpha else if v = 109 then Some Lz4 else None)"

definition PAL_FROM_CACHE :: u8 where "PAL_FROM_CACHE = push_bit 1 1"

datatype bitmap_palette = PalNone | PalOffset u32 | PalFromCache u64

record bitmap_header =
  bh_format :: u8
  bh_flags :: u8
  bh_x :: u32
  bh_y :: u32
  bh_stride :: u32
  bh_palette :: bitmap_palette

definition BitmapHeader_data_len :: "bitmap_header \<Rightarrow> nat option" where
  "BitmapHeader_data_len h =
     (let n = unat (bh_stride h) * unat (bh_y h) in if n \<le> USIZE_MAX then Some n else None)"

definition BitmapHeader_read :: "bitmap_header parser" where
  "BitmapHeader_read =
     bindP read_u8 (\<lambda>fmt. bindP read_u8 (\<lambda>flags. bindP read_u32 (\<lambda>x. bindP read_u32 (\<lambda>y.
     bindP read_u32 (\<lambda>stride.
     bindP (if flags AND PAL_FROM_CACHE \<noteq> 0 then bindP read_u64 (\<lambda>i. retP (PalFromCache i))
            else bindP read_u32 (\<lambda>off. retP (if off = 0 then PalNone else PalOffset off))) (\<lambda>pal.
       retP \<lparr>bh_format = fmt, bh_flags = flags, bh_x = x, bh_y = y, bh_stride = stride,
             bh_palette = pal\<rparr>))))))"

definition BitmapHeader_write :: "bitmap_header \<Rightarrow> bytes" where
  "BitmapHeader_write v =
     [bh_format v, bh_flags v] @ u32_le (bh_x v) @ u32_le (bh_y v) @ u32_le (bh_stride v)
       @ (case bh_palette v of
            PalNone \<Rightarrow> u32_le 0 | PalOffset off \<Rightarrow> u32_le off | PalFromCache i \<Rightarrow> u64_le i)"

definition BitmapHeader_ok :: "bitmap_header \<Rightarrow> bool" where
  "BitmapHeader_ok v \<longleftrightarrow>
     (bh_flags v AND PAL_FROM_CACHE \<noteq> 0 \<longleftrightarrow> (\<exists>i. bh_palette v = PalFromCache i))
     \<and> bh_palette v \<noteq> PalOffset 0"

record bitmap_payload =
  bm_header :: bitmap_header
  bm_data :: bytes

definition BitmapPayload_read :: "bitmap_payload parser" where
  "BitmapPayload_read =
     bindP BitmapHeader_read (\<lambda>h.
       case BitmapHeader_data_len h of
         None \<Rightarrow> bindP get_remaining (\<lambda>m. failP (TooLarge ''bitmap data'' USIZE_MAX m))
       | Some n \<Rightarrow> bindP (read_bytes n) (\<lambda>d. retP \<lparr>bm_header = h, bm_data = d\<rparr>))"

definition BitmapPayload_write :: "bitmap_payload \<Rightarrow> bytes" where
  "BitmapPayload_write v = BitmapHeader_write (bm_header v) @ bm_data v"

definition BitmapPayload_ok :: "bitmap_payload \<Rightarrow> bool" where
  "BitmapPayload_ok v \<longleftrightarrow>
     BitmapHeader_ok (bm_header v) \<and> Some (length (bm_data v)) = BitmapHeader_data_len (bm_header v)"

record binary_data =
  bin_data :: bytes

definition BinaryData_read :: "binary_data parser" where
  "BinaryData_read = bindP BinaryData_read_data (\<lambda>d. retP \<lparr>bin_data = d\<rparr>)"

definition BinaryData_write :: "binary_data \<Rightarrow> bytes" where
  "BinaryData_write v = write_sized_bytes (bin_data v)"

datatype image_payload =
  IBitmap bitmap_payload | IJpeg binary_data | ILz4 binary_data | IFromCache | IOther bytes

definition matches_type :: "image_payload \<Rightarrow> u8 \<Rightarrow> bool" where
  "matches_type p t =
     (case ImageType_from_u8 t of
        Some Pixmap \<Rightarrow> (case p of IBitmap b \<Rightarrow> True | _ \<Rightarrow> False)
      | Some Jpeg \<Rightarrow> (case p of IJpeg b \<Rightarrow> True | _ \<Rightarrow> False)
      | Some Lz4 \<Rightarrow> (case p of ILz4 b \<Rightarrow> True | _ \<Rightarrow> False)
      | Some FromCache \<Rightarrow> p = IFromCache
      | Some FromCacheLossless \<Rightarrow> p = IFromCache
      | _ \<Rightarrow> (case p of IOther b \<Rightarrow> True | _ \<Rightarrow> False))"

record spice_image =
  si_descriptor :: image_descriptor
  si_payload :: image_payload

definition SpiceImage_read :: "spice_image parser" where
  "SpiceImage_read =
     bindP ImageDescriptor_read (\<lambda>d.
     bindP (case ImageType_from_u8 (idsc_image_type d) of
         Some Pixmap \<Rightarrow> bindP BitmapPayload_read (\<lambda>b. retP (IBitmap b))
       | Some Jpeg \<Rightarrow> bindP BinaryData_read (\<lambda>b. retP (IJpeg b))
       | Some Lz4 \<Rightarrow> bindP BinaryData_read (\<lambda>b. retP (ILz4 b))
       | Some FromCache \<Rightarrow> retP IFromCache
       | Some FromCacheLossless \<Rightarrow> retP IFromCache
       | _ \<Rightarrow> bindP get_remaining (\<lambda>n. bindP (read_bytes n) (\<lambda>b. retP (IOther b)))) (\<lambda>p.
       retP \<lparr>si_descriptor = d, si_payload = p\<rparr>))"

definition SpiceImage_write :: "spice_image \<Rightarrow> bytes" where
  "SpiceImage_write v =
     ImageDescriptor_write (si_descriptor v)
       @ (case si_payload v of
            IBitmap b \<Rightarrow> BitmapPayload_write b | IJpeg j \<Rightarrow> BinaryData_write j
          | ILz4 l \<Rightarrow> BinaryData_write l | IFromCache \<Rightarrow> [] | IOther b \<Rightarrow> b)"

definition SpiceImage_ok :: "spice_image \<Rightarrow> bool" where
  "SpiceImage_ok v \<longleftrightarrow> matches_type (si_payload v) (idsc_image_type (si_descriptor v))
     \<and> (case si_payload v of
          IBitmap b \<Rightarrow> BitmapPayload_ok b | IJpeg j \<Rightarrow> length (bin_data j) < 2 ^ 32
        | ILz4 l \<Rightarrow> length (bin_data l) < 2 ^ 32 | _ \<Rightarrow> True)"

lemma BitmapHeader_forward [simp]:
  "BitmapHeader_ok v \<Longrightarrow>
     BitmapHeader_read (at pre (BitmapHeader_write v @ post)) = Inr (v, at (pre @ BitmapHeader_write v) post)"
  by (cases v; cases "bh_palette v")
    (auto simp: BitmapHeader_read_def BitmapHeader_write_def BitmapHeader_ok_def)

lemma BitmapPayload_forward [simp]:
  "BitmapPayload_ok v \<Longrightarrow>
     BitmapPayload_read (at pre (BitmapPayload_write v)) = Inr (v, at (pre @ BitmapPayload_write v) [])"
  by (auto simp: BitmapPayload_read_def BitmapPayload_write_def BitmapPayload_ok_def split: option.splits)

lemma BinaryData_forward [simp]:
  "length (bin_data v) < 2 ^ 32 \<Longrightarrow>
     BinaryData_read (at pre (BinaryData_write v)) = Inr (v, at (pre @ BinaryData_write v) [])"
  by (simp add: BinaryData_read_def BinaryData_write_def)

lemma SpiceImage_body:
  assumes "SpiceImage_ok v"
  shows "SpiceImage_read (at pre (SpiceImage_write v)) = Inr (v, at (pre @ SpiceImage_write v) [])"
proof -
  have eq: "\<lparr>si_descriptor = si_descriptor v, si_payload = si_payload v\<rparr> = v" by simp
  show ?thesis
    using assms eq
    by (cases "si_payload v")
      (auto simp: SpiceImage_read_def SpiceImage_write_def SpiceImage_ok_def matches_type_def
        split: option.splits image_type.splits)
qed

interpretation spice_image: wire_body SpiceImage_read SpiceImage_write SpiceImage_ok
  by unfold_locales (rule SpiceImage_body)

end
