(* ===== verification/Draw_Copy.thy ===== *)
theory Draw_Copy
  imports Messages_Draw
begin

text \<open>
  DRAW_COPY (\<open>messages/display.rs\<close>): a fixed part, then the images its two pointers name. A pointer
  is an offset from the start of the message; a server controls it, so it is checked against the
  fixed part and the body, and the image it names ends where the other pointer's begins.
\<close>

section \<open>The fixed part\<close>

record spice_copy =
  cp_src_bitmap :: u32
  cp_src_area :: rect
  cp_rop_descriptor :: u16
  cp_scale_mode :: u8
  cp_mask :: spice_qmask

definition SpiceCopy_read :: "spice_copy parser" where
  [codec_defs]: "SpiceCopy_read =
     bindP read_u32 (\<lambda>a. bindP Rect_read (\<lambda>b. bindP read_u16 (\<lambda>c. bindP read_u8 (\<lambda>d.
     bindP SpiceQMask_read (\<lambda>e.
       retP \<lparr>cp_src_bitmap = a, cp_src_area = b, cp_rop_descriptor = c, cp_scale_mode = d,
             cp_mask = e\<rparr>)))))"

definition SpiceCopy_write :: "spice_copy \<Rightarrow> bytes" where
  [codec_defs]: "SpiceCopy_write v =
     u32_le (cp_src_bitmap v) @ Rect_write (cp_src_area v) @ u16_le (cp_rop_descriptor v)
       @ [cp_scale_mode v] @ SpiceQMask_write (cp_mask v)"

lemma SpiceCopy_iff [parse_iff]:
  "SpiceCopy_read (at pre xs) = Inr (v, r') \<longleftrightarrow>
     (\<exists>post. xs = SpiceCopy_write v @ post \<and> r' = at (pre @ SpiceCopy_write v) post)"
  by (cases v) (auto simp: SpiceCopy_read_def SpiceCopy_write_def parse_iff)

interpretation spice_copy: fixed_wire SpiceCopy_read SpiceCopy_write 36
  by unfold_locales (simp_all add: SpiceCopy_iff, simp add: SpiceCopy_read_def)

section \<open>Pointers\<close>

definition pointee ::
  "bytes \<Rightarrow> nat \<Rightarrow> u32 \<Rightarrow> u32 list \<Rightarrow> link_error + bounded_reader option" where
  "pointee body fixed_len offset pointers =
     (if offset = 0 then Inr None
      else let off = unat offset in
        if off < fixed_len then Inl (PointerIntoFixedPart off fixed_len)
        else let after = filter (\<lambda>p. p > off) (map unat pointers);
                 e = min (if after = [] then length body else Min (set after)) (length body) in
          bindE (sub_reader (reader_new body) off (e - off)) (\<lambda>r. Inr (Some r)))"

definition copy_pointers :: "spice_copy \<Rightarrow> u32 list" where
  "copy_pointers c = [cp_src_bitmap c, qm_bitmap_offset (cp_mask c)]"

definition src_bitmap_reader :: "spice_copy \<Rightarrow> bytes \<Rightarrow> nat \<Rightarrow> link_error + bounded_reader option" where
  "src_bitmap_reader c body fixed_len = pointee body fixed_len (cp_src_bitmap c) (copy_pointers c)"

definition mask_bitmap_reader :: "spice_copy \<Rightarrow> bytes \<Rightarrow> nat \<Rightarrow> link_error + bounded_reader option" where
  "mask_bitmap_reader c body fixed_len =
     pointee body fixed_len (qm_bitmap_offset (cp_mask c)) (copy_pointers c)"

definition read_pointee ::
  "bounded_reader option \<Rightarrow> u32 \<Rightarrow> link_error + (spice_image \<times> nat) option" where
  "read_pointee region offset =
     (case region of
        None \<Rightarrow> Inr None
      | Some r \<Rightarrow>
          bindE (SpiceImage_read r) (\<lambda>(img, r').
            case si_payload img of
              IBitmap b \<Rightarrow>
                (case bh_palette (bm_header b) of
                   PalOffset off \<Rightarrow> Inl (Unsupported ''bitmap palette pointer'')
                 | _ \<Rightarrow> Inr (Some (img, unat offset + position r')))
            | _ \<Rightarrow> Inr (Some (img, unat offset + position r'))))"

section \<open>The message\<close>

record qmask =
  q_flags :: u8
  q_pos :: spice_point
  q_bitmap :: "spice_image option"

record draw_copy =
  dcp_base :: draw_base
  dcp_src_bitmap :: "spice_image option"
  dcp_src_area :: rect
  dcp_rop_descriptor :: u16
  dcp_scale_mode :: u8
  dcp_mask :: qmask

definition image_end :: "(spice_image \<times> nat) option \<Rightarrow> nat \<Rightarrow> nat" where
  "image_end im n = (case im of None \<Rightarrow> n | Some (i, e) \<Rightarrow> max n e)"

definition DrawCopy_read :: "draw_copy parser" where
  "DrawCopy_read r =
     bindE (slice_at r 0 (position r + remaining r)) (\<lambda>body.
       bindP DrawBase_read (\<lambda>base. bindP SpiceCopy_read (\<lambda>copy.
         (\<lambda>r1. let fixed_len = position r1 in
           bindE (src_bitmap_reader copy body fixed_len) (\<lambda>sr.
           bindE (read_pointee sr (cp_src_bitmap copy)) (\<lambda>src.
           bindE (mask_bitmap_reader copy body fixed_len) (\<lambda>mr.
           bindE (read_pointee mr (qm_bitmap_offset (cp_mask copy))) (\<lambda>msk.
             let e = image_end msk (image_end src fixed_len) in
             bindE (read_bytes (e - fixed_len) r1) (\<lambda>(_, r2).
               Inr (\<lparr>dcp_base = base, dcp_src_bitmap = map_option fst src,
                     dcp_src_area = cp_src_area copy, dcp_rop_descriptor = cp_rop_descriptor copy,
                     dcp_scale_mode = cp_scale_mode copy,
                     dcp_mask = \<lparr>q_flags = qm_flags (cp_mask copy), q_pos = qm_pos (cp_mask copy),
                                 q_bitmap = map_option fst msk\<rparr>\<rparr>, r2))))))))) r)"

definition append_pointee :: "bytes \<Rightarrow> spice_image option \<Rightarrow> u32 \<times> bytes" where
  "append_pointee out img =
     (case img of
        None \<Rightarrow> (0, out)
      | Some im \<Rightarrow> (word_of_nat (length out), out @ SpiceImage_write im))"

definition patch_u32 :: "bytes \<Rightarrow> nat \<Rightarrow> u32 \<Rightarrow> bytes" where
  "patch_u32 out i v = take i out @ u32_le v @ drop (i + 4) out"

definition OP_PUT :: u16 where "OP_PUT = push_bit 3 1"
definition INTERPOLATE :: u8 where "INTERPOLATE = 0"

record draw_copy_builder =
  dcb_base :: draw_base
  dcb_src_bitmap :: "spice_image option"
  dcb_src_area :: rect
  dcb_rop_descriptor :: u16
  dcb_scale_mode :: u8
  dcb_mask_flags :: u8
  dcb_mask_pos :: spice_point
  dcb_mask_bitmap :: "spice_image option"

definition DrawCopyBuilder_new :: "draw_base \<Rightarrow> spice_image \<Rightarrow> rect \<Rightarrow> draw_copy_builder" where
  "DrawCopyBuilder_new base src area =
     \<lparr>dcb_base = base, dcb_src_bitmap = Some src, dcb_src_area = area, dcb_rop_descriptor = OP_PUT,
      dcb_scale_mode = INTERPOLATE, dcb_mask_flags = 0, dcb_mask_pos = \<lparr>pt_x = 0, pt_y = 0\<rparr>,
      dcb_mask_bitmap = None\<rparr>"

definition DrawCopyBuilder_rop_descriptor :: "draw_copy_builder \<Rightarrow> u16 \<Rightarrow> draw_copy_builder" where
  "DrawCopyBuilder_rop_descriptor b rop = b\<lparr>dcb_rop_descriptor := rop\<rparr>"

definition DrawCopyBuilder_scale_mode :: "draw_copy_builder \<Rightarrow> u8 \<Rightarrow> draw_copy_builder" where
  "DrawCopyBuilder_scale_mode b mode = b\<lparr>dcb_scale_mode := mode\<rparr>"

definition DrawCopyBuilder_mask ::
  "draw_copy_builder \<Rightarrow> u8 \<Rightarrow> spice_point \<Rightarrow> spice_image option \<Rightarrow> draw_copy_builder" where
  "DrawCopyBuilder_mask b flags pos bitmap =
     b\<lparr>dcb_mask_flags := flags, dcb_mask_pos := pos, dcb_mask_bitmap := bitmap\<rparr>"

text \<open>
  The message is written at the end of a buffer; its offsets count from where it starts, so the
  bytes written do not depend on what is before them.
\<close>

definition DrawCopyBuilder_write :: "draw_copy_builder \<Rightarrow> bytes" where
  "DrawCopyBuilder_write v =
     (let base = DrawBase_write (dcb_base v);
          copy_at = length base;
          out0 = base @ SpiceCopy_write
            \<lparr>cp_src_bitmap = 0, cp_src_area = dcb_src_area v,
             cp_rop_descriptor = dcb_rop_descriptor v, cp_scale_mode = dcb_scale_mode v,
             cp_mask = \<lparr>qm_flags = dcb_mask_flags v, qm_pos = dcb_mask_pos v,
                        qm_bitmap_offset = 0\<rparr>\<rparr>;
          (src, out1) = append_pointee out0 (dcb_src_bitmap v);
          (msk, out2) = append_pointee out1 (dcb_mask_bitmap v);
          out3 = patch_u32 out2 copy_at src in
      patch_u32 out3 (copy_at + 36 - 4) msk)"

definition DrawCopy_write :: "draw_copy \<Rightarrow> bytes" where
  "DrawCopy_write v = DrawCopyBuilder_write
     \<lparr>dcb_base = dcp_base v, dcb_src_bitmap = dcp_src_bitmap v, dcb_src_area = dcp_src_area v,
      dcb_rop_descriptor = dcp_rop_descriptor v, dcb_scale_mode = dcp_scale_mode v,
      dcb_mask_flags = q_flags (dcp_mask v), dcb_mask_pos = q_pos (dcp_mask v),
      dcb_mask_bitmap = q_bitmap (dcp_mask v)\<rparr>"

section \<open>A pointer never leaves the message\<close>

lemma checked_add_le: "checked_add a b = Some e \<Longrightarrow> e = a + b"
  by (auto simp: checked_add_def split: if_splits)

lemma pointee_region:
  assumes "pointee body fixed_len offset ps = Inr (Some r)"
  shows "\<exists>len. fixed_len \<le> unat offset \<and> unat offset + len \<le> length body
    \<and> r = reader_new (take len (drop (unat offset) body))
    \<and> (\<forall>p\<in>set ps. unat p > unat offset \<longrightarrow> unat offset + len \<le> unat p)"
proof -
  let ?off = "unat offset"
  let ?after = "filter (\<lambda>p. p > ?off) (map unat ps)"
  let ?e = "min (if ?after = [] then length body else Min (set ?after)) (length body)"
  from assms have fixed: "fixed_len \<le> ?off" and r: "sub_reader (reader_new body) ?off (?e - ?off) = Inr r"
    by (auto simp: pointee_def Let_def bindE_def split: if_splits sum.splits)
  then have body: "?off + (?e - ?off) \<le> length body"
    and r': "r = reader_new (take (?e - ?off) (drop ?off body))"
    by (auto simp: sub_reader_def slice_at_def bindE_def Let_def reader_new_def
        dest!: checked_add_le split: option.splits if_splits sum.splits)
  have "?off + (?e - ?off) \<le> unat p" if "p \<in> set ps" "unat p > ?off" for p
  proof -
    from that have "unat p \<in> set ?after" by auto
    moreover from this have "?after \<noteq> []" by force
    ultimately have "?e \<le> unat p" by (auto intro!: Min_le min.coboundedI1)
    with that(2) show ?thesis by simp
  qed
  with fixed body r' show ?thesis by blast
qed

section \<open>Round trip\<close>

definition image_bytes :: "spice_image option \<Rightarrow> bytes" where
  "image_bytes im = (case im of None \<Rightarrow> [] | Some i \<Rightarrow> SpiceImage_write i)"

definition image_offset :: "nat \<Rightarrow> spice_image option \<Rightarrow> u32" where
  "image_offset n im = (case im of None \<Rightarrow> 0 | Some i \<Rightarrow> word_of_nat n)"

definition copy_part :: "draw_copy \<Rightarrow> u32 \<Rightarrow> u32 \<Rightarrow> spice_copy" where
  "copy_part v src msk =
     \<lparr>cp_src_bitmap = src, cp_src_area = dcp_src_area v,
      cp_rop_descriptor = dcp_rop_descriptor v, cp_scale_mode = dcp_scale_mode v,
      cp_mask = \<lparr>qm_flags = q_flags (dcp_mask v), qm_pos = q_pos (dcp_mask v),
                 qm_bitmap_offset = msk\<rparr>\<rparr>"

text \<open>An image a DRAW_COPY may carry: well formed, and without a palette pointer.\<close>

definition copy_image_ok :: "spice_image option \<Rightarrow> bool" where
  "copy_image_ok im =
     (case im of
        None \<Rightarrow> True
      | Some i \<Rightarrow> SpiceImage_ok i
          \<and> (case si_payload i of
               IBitmap b \<Rightarrow> (\<forall>off. bh_palette (bm_header b) \<noteq> PalOffset off) | _ \<Rightarrow> True))"

definition DrawCopy_ok :: "draw_copy \<Rightarrow> bool" where
  "DrawCopy_ok v \<longleftrightarrow> Clip_ok (db_clip (dcp_base v)) \<and> copy_image_ok (dcp_src_bitmap v)
     \<and> copy_image_ok (q_bitmap (dcp_mask v)) \<and> length (DrawCopy_write v) < 2 ^ 32"

lemma SpiceImage_write_nonempty [simp]: "SpiceImage_write i \<noteq> []"
  using image_descriptor.length_wr [of "si_descriptor i"] by (auto simp: SpiceImage_write_def)

lemma DrawCopy_write_eq:
  fixes v
  defines "f \<equiv> length (DrawBase_write (dcp_base v)) + 36"
  defines "src \<equiv> dcp_src_bitmap v" and "msk \<equiv> q_bitmap (dcp_mask v)"
  shows "DrawCopy_write v = DrawBase_write (dcp_base v)
     @ SpiceCopy_write (copy_part v (image_offset f src)
         (image_offset (f + length (image_bytes src)) msk))
     @ image_bytes src @ image_bytes msk"
proof -
  let ?base = "DrawBase_write (dcp_base v)"
  obtain mid where mid: "SpiceCopy_write (copy_part v a b) = u32_le a @ mid @ u32_le b" "length mid = 28"
    for a b
    by (rule that [of "Rect_write (dcp_src_area v) @ u16_le (dcp_rop_descriptor v) @ [dcp_scale_mode v]
          @ [q_flags (dcp_mask v)] @ SpicePoint_write (q_pos (dcp_mask v))"])
      (simp_all add: SpiceCopy_write_def SpiceQMask_write_def copy_part_def rect.length_wr
        spice_point.length_wr)
  have p1: "patch_u32 (?base @ (u32_le a @ mid @ u32_le b) @ xs) (length ?base) c
      = ?base @ (u32_le c @ mid @ u32_le b) @ xs" for a b c xs
    by (simp add: patch_u32_def)
  have p2: "patch_u32 (?base @ (u32_le a @ mid @ u32_le b) @ xs) (length ?base + 36 - 4) c
      = ?base @ (u32_le a @ mid @ u32_le c) @ xs" for a b c xs
    by (simp add: patch_u32_def mid(2))
  have ap: "append_pointee out im = (image_offset (length out) im, out @ image_bytes im)" for out im
    by (simp add: append_pointee_def image_offset_def image_bytes_def split: option.splits)
  have len: "length (?base @ u32_le a @ mid @ u32_le b) = f" for a b
    by (simp add: f_def mid(2))
  show ?thesis
    unfolding DrawCopy_write_def DrawCopyBuilder_write_def Let_def draw_copy_builder.simps
      copy_part_def [symmetric] mid(1) ap prod.case
    using p1 p2 len by (simp add: src_def msk_def mid(2) f_def add.assoc)
qed

lemma pointee_exact:
  assumes "unat off = length pre" and "off \<noteq> 0" and "fixed_len \<le> length pre"
    and "\<And>p. p \<in> set ps \<Longrightarrow> unat p > length pre \<Longrightarrow> unat p \<ge> length pre + length xs"
    and "post \<noteq> [] \<Longrightarrow> \<exists>p\<in>set ps. unat p = length pre + length xs" and "xs \<noteq> []"
    and "length (pre @ xs @ post) \<le> USIZE_MAX"
  shows "pointee (pre @ xs @ post) fixed_len off ps = Inr (Some (reader_new xs))"
proof -
  let ?body = "pre @ xs @ post"
  let ?after = "filter (\<lambda>p. p > unat off) (map unat ps)"
  have e: "min (if ?after = [] then length ?body else Min (set ?after)) (length ?body)
      = length pre + length xs"
  proof (cases "post = []")
    case True
    have "Min (set ?after) \<ge> length pre + length xs" if "?after \<noteq> []"
      using that assms(1,4) by (subst Min_ge_iff) (auto simp: filter_empty_conv)
    with True show ?thesis by simp
  next
    case False
    with assms(5) obtain p where p: "p \<in> set ps" "unat p = length pre + length xs" by auto
    then have "unat p \<in> set ?after" using assms(1,6) by (auto simp: image_iff intro!: bexI [of _ p])
    moreover have "Min (set ?after) = unat p"
      by (rule Min_eqI) (use calculation assms(1,4) p in auto)
    moreover from calculation have "?after \<noteq> []" by force
    ultimately show ?thesis using p(2) by simp
  qed
  show ?thesis
    unfolding pointee_def Let_def e
    using assms(1-3,7) by (simp add: sub_reader_def slice_at_def bindE_def checked_add_def
        reader_new_def)
qed

lemma read_pointee_image:
  assumes "copy_image_ok (Some im)"
  shows "read_pointee (Some (reader_new (SpiceImage_write im))) off
       = Inr (Some (im, unat off + length (SpiceImage_write im)))"
proof -
  have "SpiceImage_read (reader_new (SpiceImage_write im)) = Inr (im, at (SpiceImage_write im) [])"
    using assms SpiceImage_body [of im "[]"] by (simp add: copy_image_ok_def reader_new_at)
  with assms show ?thesis
    by (auto simp: read_pointee_def bindE_def copy_image_ok_def position_def
        split: image_payload.splits bitmap_palette.splits)
qed

text \<open>One pointer, present or absent, read back from where the writer put its image.\<close>

lemma pointer_forward:
  assumes "copy_image_ok im" and "off = image_offset (length pre) im" and "0 < length pre"
    and "fixed_len \<le> length pre"
    and "\<And>p. p \<in> set ps \<Longrightarrow> unat p > length pre \<Longrightarrow> unat p \<ge> length pre + length (image_bytes im)"
    and "post \<noteq> [] \<Longrightarrow> \<exists>p\<in>set ps. unat p = length pre + length (image_bytes im)"
    and "length (pre @ image_bytes im @ post) < 2 ^ 32"
  shows "bindE (pointee (pre @ image_bytes im @ post) fixed_len off ps) (\<lambda>r. read_pointee r off)
       = Inr (map_option (\<lambda>i. (i, length pre + length (image_bytes im))) im)"
proof (cases im)
  case None
  with assms(2) show ?thesis
    by (simp add: image_offset_def pointee_def bindE_def read_pointee_def)
next
  case (Some i)
  have u: "unat off = length pre"
    using assms(2,7) Some by (simp add: image_offset_def unat_of_nat)
  with assms(3) have "off \<noteq> 0" by auto
  moreover have "length (pre @ image_bytes im @ post) \<le> USIZE_MAX"
    using assms(7) by (simp add: USIZE_MAX_def)
  ultimately have "pointee (pre @ image_bytes im @ post) fixed_len off ps
      = Inr (Some (reader_new (SpiceImage_write i)))"
    using pointee_exact [OF u _ assms(4,5,6)] Some by (simp add: image_bytes_def)
  with read_pointee_image [of i off] assms(1) Some u show ?thesis
    by (simp add: bindE_def image_bytes_def)
qed

lemma DrawCopy_read_write:
  assumes "DrawCopy_ok v"
  shows "DrawCopy_read (at [] (DrawCopy_write v)) = Inr (v, at (DrawCopy_write v) [])"
proof -
  define base where "base = DrawBase_write (dcp_base v)"
  define src where "src = dcp_src_bitmap v"
  define msk where "msk = q_bitmap (dcp_mask v)"
  define f where "f = length base + 36"
  define so where "so = image_offset f src"
  define mo where "mo = image_offset (f + length (image_bytes src)) msk"
  define cp where "cp = copy_part v so mo"
  define hd_part where "hd_part = base @ SpiceCopy_write cp"
  have f: "length hd_part = f"
    by (simp add: hd_part_def f_def spice_copy.length_wr)
  have w: "DrawCopy_write v = hd_part @ image_bytes src @ image_bytes msk"
    using DrawCopy_write_eq [of v] by (simp add: hd_part_def cp_def so_def mo_def f_def base_def src_def msk_def)
  have ok: "Clip_ok (db_clip (dcp_base v))" "copy_image_ok src" "copy_image_ok msk"
    and len: "length (hd_part @ image_bytes src @ image_bytes msk) < 2 ^ 32"
    using assms by (simp_all add: DrawCopy_ok_def w, simp_all add: src_def msk_def)
  have f0: "0 < length hd_part" by (simp add: f f_def)
  have ptrs: "copy_pointers cp = [so, mo]" "cp_src_bitmap cp = so" "qm_bitmap_offset (cp_mask cp) = mo"
    by (simp_all add: copy_pointers_def cp_def copy_part_def)
  have so: "unat so \<le> f"
    using len f by (auto simp: so_def image_offset_def unat_of_nat split: option.splits)
  have "unat (word_of_nat m :: u32) = m" if "m \<le> f + length (image_bytes src)" for m
    using that len f by (simp add: unat_of_nat)
  from this [OF order_refl] have mo: "unat mo = 0 \<or> unat mo = f + length (image_bytes src)"
    and msk_Some: "image_bytes msk \<noteq> [] \<Longrightarrow> unat mo = f + length (image_bytes src)"
    by (auto simp only: mo_def image_offset_def image_bytes_def unsigned_0 split: option.splits)
  have rs: "bindE (pointee (hd_part @ image_bytes src @ image_bytes msk) f so [so, mo]) (\<lambda>r. read_pointee r so)
      = Inr (map_option (\<lambda>i. (i, f + length (image_bytes src))) src)"
  proof -
    have "f + length (image_bytes src) \<le> unat p" if "p \<in> set [so, mo]" "length hd_part < unat p" for p
      using that so mo f by auto
    with pointer_forward [OF ok(2) _ f0, of so f "[so, mo]" "image_bytes msk"] msk_Some len f
    show ?thesis by (simp add: so_def)
  qed
  have rm: "bindE (pointee (hd_part @ image_bytes src @ image_bytes msk) f mo [so, mo]) (\<lambda>r. read_pointee r mo)
      = Inr (map_option (\<lambda>i. (i, f + length (image_bytes src) + length (image_bytes msk))) msk)"
  proof -
    have "f + length (image_bytes src) + length (image_bytes msk) \<le> unat p"
      if "p \<in> set [so, mo]" "length (hd_part @ image_bytes src) < unat p" for p
      using that so mo f by auto
    with pointer_forward [OF ok(3), of mo "hd_part @ image_bytes src" f "[so, mo]" "[]"] len f f0
    show ?thesis by (simp add: mo_def)
  qed
  have e: "image_end (map_option (\<lambda>i. (i, f + length (image_bytes src) + length (image_bytes msk))) msk)
      (image_end (map_option (\<lambda>i. (i, f + length (image_bytes src))) src) f)
      = f + length (image_bytes src) + length (image_bytes msk)"
    by (auto simp: image_end_def image_bytes_def split: option.splits)
  have fixed: "DrawBase_read (at [] (hd_part @ xs)) = Inr (dcp_base v, at base (SpiceCopy_write cp @ xs))"
    "SpiceCopy_read (at base (SpiceCopy_write cp @ xs)) = Inr (cp, at hd_part xs)" for xs
    using draw_base.roundtrip [OF ok(1), of "[]" "SpiceCopy_write cp @ xs"]
    by (simp_all add: hd_part_def base_def SpiceCopy_iff)
  have slice: "slice_at (at [] (hd_part @ image_bytes src @ image_bytes msk)) 0
      (position (at [] (hd_part @ image_bytes src @ image_bytes msk))
        + remaining (at [] (hd_part @ image_bytes src @ image_bytes msk)))
      = Inr (hd_part @ image_bytes src @ image_bytes msk)"
    using len by (simp add: slice_at_def checked_add_def position_def USIZE_MAX_def)
  have v: "\<lparr>dcp_base = dcp_base v, dcp_src_bitmap = src, dcp_src_area = cp_src_area cp,
      dcp_rop_descriptor = cp_rop_descriptor cp, dcp_scale_mode = cp_scale_mode cp,
      dcp_mask = \<lparr>q_flags = qm_flags (cp_mask cp), q_pos = qm_pos (cp_mask cp), q_bitmap = msk\<rparr>\<rparr> = v"
    by (simp add: cp_def copy_part_def src_def msk_def)
  from rs obtain sr where
    sr: "pointee (hd_part @ image_bytes src @ image_bytes msk) f so [so, mo] = Inr sr"
      "read_pointee sr so = Inr (map_option (\<lambda>i. (i, f + length (image_bytes src))) src)"
    by (auto simp: bindE_eq_Inr)
  from rm obtain mr where
    mr: "pointee (hd_part @ image_bytes src @ image_bytes msk) f mo [so, mo] = Inr mr"
      "read_pointee mr mo
        = Inr (map_option (\<lambda>i. (i, f + length (image_bytes src) + length (image_bytes msk))) msk)"
    by (auto simp: bindE_eq_Inr)
  have rb: "read_bytes (length (image_bytes src) + length (image_bytes msk))
      (at hd_part (image_bytes src @ image_bytes msk))
      = Inr (image_bytes src @ image_bytes msk, at (hd_part @ image_bytes src @ image_bytes msk) [])"
    by (simp add: read_bytes_at)
  have ids: "map_option fst (map_option (\<lambda>i. (i, n)) im) = im" for n :: nat and im :: "spice_image option"
    by (cases im) simp_all
  show ?thesis
    unfolding w DrawCopy_read_def slice
    using sr mr e fixed v ptrs f rb ids
    by (simp add: src_bitmap_reader_def mask_bitmap_reader_def Let_def position_def
        del: option.map_comp)
qed

section \<open>Properties\<close>

text \<open>C34: When both pointers of a DRAW_COPY are set and accepted, the regions they select for decoding start behind the fixed part, lie
  inside the message, hold exactly the bytes named there, and never overlap unless both pointers are
  equal; this holds for any offsets a server sends.\<close>

theorem draw_copy_pointers_confined:
  assumes "src_bitmap_reader c body n = Inr (Some rs)" and "mask_bitmap_reader c body n = Inr (Some rm)"
  shows "\<exists>ls lm. let s = unat (cp_src_bitmap c); m = unat (qm_bitmap_offset (cp_mask c)) in
    n \<le> s \<and> s + ls \<le> length body \<and> rs = reader_new (take ls (drop s body))
    \<and> n \<le> m \<and> m + lm \<le> length body \<and> rm = reader_new (take lm (drop m body))
    \<and> (s < m \<longrightarrow> s + ls \<le> m) \<and> (m < s \<longrightarrow> m + lm \<le> s)"
proof -
  from pointee_region [OF assms(1) [unfolded src_bitmap_reader_def]]
    pointee_region [OF assms(2) [unfolded mask_bitmap_reader_def]]
  show ?thesis unfolding Let_def by (auto simp: copy_pointers_def)
qed

definition demo_copy :: spice_copy where
  "demo_copy = copy_part
     \<lparr>dcp_base = \<lparr>db_surface_id = 0,
        db_bbox = \<lparr>rc_top = 0, rc_left = 0, rc_bottom = 1, rc_right = 1\<rparr>, db_clip = Clip_none\<rparr>,
      dcp_src_bitmap = None,
      dcp_src_area = \<lparr>rc_top = 0, rc_left = 0, rc_bottom = 1, rc_right = 1\<rparr>,
      dcp_rop_descriptor = 8, dcp_scale_mode = 0,
      dcp_mask = \<lparr>q_flags = 0, q_pos = \<lparr>pt_x = 0, pt_y = 0\<rparr>, q_bitmap = None\<rparr>\<rparr> 2 4"

theorem draw_copy_pointers_confined_witness:
  "src_bitmap_reader demo_copy [1, 2, 3, 4, 5, 6] 1 = Inr (Some (reader_new [3, 4]))
    \<and> mask_bitmap_reader demo_copy [1, 2, 3, 4, 5, 6] 1 = Inr (Some (reader_new [5, 6]))
    \<and> (\<exists>ls. 2 + ls \<le> (4::nat) \<and> reader_new [3, 4] = reader_new (take ls (drop 2 [1, 2, 3, 4, 5, 6])))"
proof -
  have a: "src_bitmap_reader demo_copy [1, 2, 3, 4, 5, 6] 1 = Inr (Some (reader_new [3, 4]))"
    by (simp add: src_bitmap_reader_def demo_copy_def copy_part_def
        copy_pointers_def pointee_def sub_reader_def slice_at_def checked_add_def USIZE_MAX_def
        reader_new_def bindE_def)
  have b: "mask_bitmap_reader demo_copy [1, 2, 3, 4, 5, 6] 1 = Inr (Some (reader_new [5, 6]))"
    by (simp add: mask_bitmap_reader_def demo_copy_def copy_part_def
        copy_pointers_def pointee_def sub_reader_def slice_at_def checked_add_def USIZE_MAX_def
        reader_new_def bindE_def)
  have p: "unat (cp_src_bitmap demo_copy) = 2" "unat (qm_bitmap_offset (cp_mask demo_copy)) = 4"
    by (simp_all add: demo_copy_def copy_part_def)
  from draw_copy_pointers_confined [OF a b] obtain ls where "2 + ls \<le> (4::nat)"
    "reader_new [3, 4] = reader_new (take ls (drop 2 [1, 2, 3, 4, 5, 6]))"
    unfolding Let_def p by (elim exE conjE) (rule that, simp_all)
  then have "\<exists>ls. 2 + ls \<le> (4::nat) \<and> reader_new [3, 4] = reader_new (take ls (drop 2 [1, 2, 3, 4, 5, 6]))"
    by (intro exI conjI)
  with a b show ?thesis by (intro conjI)
qed

text \<open>C35: A DRAW_COPY, with or without a source image and a mask image, that fits a message is read back
  exactly from what was written, and the reader ends at the end of the message: the writer's offsets
  select each image for the reader.\<close>

theorem draw_copy_roundtrip:
  assumes "DrawCopy_ok v"
  shows "DrawCopy_read (reader_new (DrawCopy_write v))
    = Inr (v, \<lparr>rd_data = DrawCopy_write v, rd_pos = length (DrawCopy_write v)\<rparr>)"
  using DrawCopy_read_write [OF assms] by (simp add: reader_new_def at_def)

definition demo_draw_copy :: draw_copy where
  "demo_draw_copy =
     \<lparr>dcp_base = \<lparr>db_surface_id = 0,
        db_bbox = \<lparr>rc_top = 0, rc_left = 0, rc_bottom = 1, rc_right = 1\<rparr>, db_clip = Clip_none\<rparr>,
      dcp_src_bitmap = Some
        \<lparr>si_descriptor = \<lparr>idsc_image_id = 7, idsc_image_type = 109, idsc_flags = 0,
           idsc_width = 1, idsc_height = 1\<rparr>,
         si_payload = ILz4 \<lparr>bin_data = [1, 2, 3]\<rparr>\<rparr>,
      dcp_src_area = \<lparr>rc_top = 0, rc_left = 0, rc_bottom = 1, rc_right = 1\<rparr>,
      dcp_rop_descriptor = 8, dcp_scale_mode = 0,
      dcp_mask = \<lparr>q_flags = 0, q_pos = \<lparr>pt_x = 0, pt_y = 0\<rparr>, q_bitmap = None\<rparr>\<rparr>"

theorem draw_copy_roundtrip_witness:
  "DrawCopy_ok demo_draw_copy \<and> DrawCopy_read (reader_new (DrawCopy_write demo_draw_copy))
    = Inr (demo_draw_copy, \<lparr>rd_data = DrawCopy_write demo_draw_copy,
        rd_pos = length (DrawCopy_write demo_draw_copy)\<rparr>)"
proof -
  have "DrawCopy_ok demo_draw_copy"
    by (simp add: DrawCopy_ok_def DrawCopy_write_eq image_bytes_def spice_copy.length_wr
        demo_draw_copy_def Clip_ok_def Clip_none_def copy_image_ok_def SpiceImage_ok_def
        matches_type_def ImageType_from_u8_def SpiceImage_write_def image_descriptor.length_wr
        BinaryData_write_def write_sized_bytes_def DrawBase_write_def Clip_write_def rect.length_wr)
  with draw_copy_roundtrip [OF this] show ?thesis by simp
qed

end
