(* ===== verification/Byte_Lru.thy ===== *)
theory Byte_Lru
  imports Prelude "HOL-Library.AList" "HOL-Library.Multiset"
begin

text \<open>
  The byte-bounded LRU cache (\<open>shakenfist-spice-compression/src/byte_bounded_lru.rs\<close>) behind the
  image cache and the GLZ dictionary. The recency list itself is the \<open>lru\<close> crate's \<open>LruCache\<close>: its
  operations are a parameter, a record of functions, and \<open>lru_laws\<close> states what the crate documents
  of them in terms of \<open>iter\<close>, which lists the entries from the most to the least recently used.

  The record also says whether the build has debug assertions. The eviction loop has one, for a cache that is
  empty and still over a cap; it panics in such a build and resets the byte counter in another.
\<close>

section \<open>The recency list\<close>

record ('c, 'v) lru_ops =
  lru_empty :: 'c
  lru_iter :: "'c \<Rightarrow> (u64 \<times> 'v) list"
  lru_put :: "'c \<Rightarrow> u64 \<Rightarrow> 'v \<Rightarrow> 'v option \<times> 'c"
  lru_get :: "'c \<Rightarrow> u64 \<Rightarrow> 'v option \<times> 'c"
  lru_pop :: "'c \<Rightarrow> u64 \<Rightarrow> 'v option \<times> 'c"
  lru_pop_lru :: "'c \<Rightarrow> (u64 \<times> 'v) option \<times> 'c"
  lru_contains :: "'c \<Rightarrow> u64 \<Rightarrow> bool"
  lru_len :: "'c \<Rightarrow> nat"
  lru_clear :: "'c \<Rightarrow> 'c"
  lru_debug_assertions :: bool

abbreviation without :: "u64 \<Rightarrow> (u64 \<times> 'v) list \<Rightarrow> (u64 \<times> 'v) list" where
  "without k xs \<equiv> filter (\<lambda>p. fst p \<noteq> k) xs"

text \<open>Entries a cache of the given capacity keeps: the most recently used ones.\<close>

definition capped :: "nat option \<Rightarrow> 'a list \<Rightarrow> 'a list" where
  "capped cap xs = (case cap of None \<Rightarrow> xs | Some n \<Rightarrow> take n xs)"

definition lru_laws :: "nat option \<Rightarrow> ('c, 'v) lru_ops \<Rightarrow> bool" where
  "lru_laws cap L \<longleftrightarrow>
     lru_iter L (lru_empty L) = []
   \<and> (\<forall>c. distinct (map fst (lru_iter L c)))
   \<and> (\<forall>c k v. fst (lru_put L c k v) = map_of (lru_iter L c) k
        \<and> lru_iter L (snd (lru_put L c k v)) = capped cap ((k, v) # without k (lru_iter L c)))
   \<and> (\<forall>c k. fst (lru_get L c k) = map_of (lru_iter L c) k
        \<and> lru_iter L (snd (lru_get L c k)) =
            (case map_of (lru_iter L c) k of
               None \<Rightarrow> lru_iter L c | Some v \<Rightarrow> (k, v) # without k (lru_iter L c)))
   \<and> (\<forall>c k. fst (lru_pop L c k) = map_of (lru_iter L c) k
        \<and> lru_iter L (snd (lru_pop L c k)) = without k (lru_iter L c))
   \<and> (\<forall>c. (lru_iter L c = [] \<longrightarrow> fst (lru_pop_lru L c) = None)
        \<and> (lru_iter L c \<noteq> [] \<longrightarrow> fst (lru_pop_lru L c) = Some (last (lru_iter L c)))
        \<and> lru_iter L (snd (lru_pop_lru L c)) = butlast (lru_iter L c))
   \<and> (\<forall>c k. lru_contains L c k \<longleftrightarrow> k \<in> fst ` set (lru_iter L c))
   \<and> (\<forall>c. lru_len L c = length (lru_iter L c))
   \<and> (\<forall>c. lru_iter L (lru_clear L c) = [])"

lemma lru_lawsD:
  assumes "lru_laws cap L"
  shows lru_iter_empty: "lru_iter L (lru_empty L) = []"
    and lru_iter_distinct: "distinct (map fst (lru_iter L c))"
    and lru_put_old: "fst (lru_put L c k v) = map_of (lru_iter L c) k"
    and lru_put_iter: "lru_iter L (snd (lru_put L c k v)) = capped cap ((k, v) # without k (lru_iter L c))"
    and lru_get_val: "fst (lru_get L c k) = map_of (lru_iter L c) k"
    and lru_get_iter: "lru_iter L (snd (lru_get L c k)) =
            (case map_of (lru_iter L c) k of
               None \<Rightarrow> lru_iter L c | Some v \<Rightarrow> (k, v) # without k (lru_iter L c))"
    and lru_pop_val: "fst (lru_pop L c k) = map_of (lru_iter L c) k"
    and lru_pop_iter: "lru_iter L (snd (lru_pop L c k)) = without k (lru_iter L c)"
    and lru_pop_lru_val: "fst (lru_pop_lru L c) =
          (if lru_iter L c = [] then None else Some (last (lru_iter L c)))"
    and lru_pop_lru_iter: "lru_iter L (snd (lru_pop_lru L c)) = butlast (lru_iter L c)"
    and lru_contains_iff: "lru_contains L c k \<longleftrightarrow> k \<in> fst ` set (lru_iter L c)"
    and lru_len_eq: "lru_len L c = length (lru_iter L c)"
    and lru_iter_clear: "lru_iter L (lru_clear L c) = []"
  using assms unfolding lru_laws_def by simp_all

text \<open>A recency list that satisfies the laws: the association list itself, newest entry first.\<close>

definition list_lru :: "nat option \<Rightarrow> ((u64 \<times> 'v) list, 'v) lru_ops" where
  "list_lru cap =
     \<lparr>lru_empty = [], lru_iter = AList.clearjunk,
      lru_put = (\<lambda>c k v. (map_of c k, capped cap ((k, v) # without k (AList.clearjunk c)))),
      lru_get = (\<lambda>c k. (map_of c k,
        case map_of c k of None \<Rightarrow> c | Some v \<Rightarrow> (k, v) # without k (AList.clearjunk c))),
      lru_pop = (\<lambda>c k. (map_of c k, without k (AList.clearjunk c))),
      lru_pop_lru = (\<lambda>c. (if c = [] then None else Some (last (AList.clearjunk c)),
        butlast (AList.clearjunk c))),
      lru_contains = (\<lambda>c k. k \<in> fst ` set c),
      lru_len = (\<lambda>c. length (AList.clearjunk c)), lru_clear = (\<lambda>c. []), lru_debug_assertions = True\<rparr>"

lemma clearjunk_id: "distinct (map fst xs) \<Longrightarrow> AList.clearjunk xs = xs"
  by (rule distinct_clearjunk_id)

lemma distinct_without: "distinct (map fst xs) \<Longrightarrow> distinct (map fst (without k xs))"
  by (induction xs) auto

lemma distinct_butlast_fst: "distinct (map fst xs) \<Longrightarrow> distinct (map fst (butlast xs))"
  by (simp add: map_butlast distinct_butlast)

lemma distinct_capped: "distinct (map fst xs) \<Longrightarrow> distinct (map fst (capped cap xs))"
  by (simp add: capped_def take_map [symmetric] split: option.splits)

lemma clearjunk_Nil_iff: "AList.clearjunk xs = [] \<longleftrightarrow> xs = []"
  by (cases xs) auto

lemma list_lru_laws: "lru_laws cap (list_lru cap)"
proof -
  have d: "distinct (map fst (AList.clearjunk c))" for c :: "(u64 \<times> 'a) list"
    by (rule distinct_clearjunk)
  have n: "distinct (map fst ((k, v) # without k (AList.clearjunk c)))" for c :: "(u64 \<times> 'a) list" and k v
    using distinct_without [OF d] by auto
  note norm = d clearjunk_id [OF distinct_capped [OF n]] clearjunk_id [OF n]
    clearjunk_id [OF distinct_without [OF d]] clearjunk_id [OF distinct_butlast_fst [OF d]]
    map_of_clearjunk clearjunk_Nil_iff dom_clearjunk
  show ?thesis
    unfolding lru_laws_def
    by (intro conjI allI impI; simp add: list_lru_def norm del: clearjunk.simps split: option.splits)
qed

section \<open>The cache\<close>

definition PER_ENTRY_OVERHEAD_BYTES :: nat where "PER_ENTRY_OVERHEAD_BYTES = 96"

datatype refused_reason = EntryLargerThanCap

datatype insert_outcome =
  Inserted | InsertedAfterEviction (ia_evicted: u32) (ia_freed: nat) | Refused refused_reason

record 'c byte_lru =
  bl_inner :: 'c
  bl_bytes :: nat
  bl_cap_bytes :: nat
  bl_max_entries :: nat
  bl_evictions_total :: u64
  bl_evicted_bytes_total :: u64

text \<open>The constructors return \<open>None\<close> where the source's assertions panic.\<close>

definition with_caps :: "('c, bytes) lru_ops \<Rightarrow> nat \<Rightarrow> nat \<Rightarrow> 'c byte_lru option" where
  "with_caps L cap mx =
     (if cap > 0 \<and> mx > 0
      then Some \<lparr>bl_inner = lru_empty L, bl_bytes = 0, bl_cap_bytes = cap, bl_max_entries = mx,
                 bl_evictions_total = 0, bl_evicted_bytes_total = 0\<rparr>
      else None)"

definition ByteBoundedLru_new :: "('c, bytes) lru_ops \<Rightarrow> nat \<Rightarrow> 'c byte_lru option" where
  "ByteBoundedLru_new L cap = with_caps L cap (max (cap div PER_ENTRY_OVERHEAD_BYTES) 1)"

text \<open>\<open>None\<close> is a loop that does not return, or the panic of the debug assertion.\<close>

partial_function (option) evict_loop ::
  "('c, bytes) lru_ops \<Rightarrow> 'c byte_lru \<Rightarrow> u32 \<Rightarrow> nat \<Rightarrow> u64 list
    \<Rightarrow> ('c byte_lru \<times> u32 \<times> nat \<times> u64 list) option" where
  "evict_loop L b evicted freed evicted_keys =
     (if bl_bytes b > bl_cap_bytes b \<or> lru_len L (bl_inner b) > bl_max_entries b
      then (case lru_pop_lru L (bl_inner b) of
              (None, c) \<Rightarrow>
                if lru_debug_assertions L then None
                else Some (b\<lparr>bl_inner := c, bl_bytes := 0\<rparr>, evicted, freed, evicted_keys)
            | (Some (k, v), c) \<Rightarrow>
                let n = length v in
                evict_loop L
                  (b\<lparr>bl_inner := c, bl_bytes := bl_bytes b - n,
                     bl_evictions_total := bl_evictions_total b + 1,
                     bl_evicted_bytes_total := bl_evicted_bytes_total b + word_of_nat n\<rparr>)
                  (evicted + 1) (freed + n) (evicted_keys @ [k]))
      else Some (b, evicted, freed, evicted_keys))"

declare evict_loop.simps [code]

definition insert_recording_evicted ::
  "('c, bytes) lru_ops \<Rightarrow> 'c byte_lru \<Rightarrow> u64 \<Rightarrow> bytes
    \<Rightarrow> (insert_outcome \<times> u64 list \<times> 'c byte_lru) option" where
  "insert_recording_evicted L b key v =
     (let incoming = length v in
      if incoming > bl_cap_bytes b then Some (Refused EntryLargerThanCap, [], b)
      else let (displaced, c) = lru_put L (bl_inner b) key v;
               bytes0 = (case displaced of Some old \<Rightarrow> bl_bytes b - length old | None \<Rightarrow> bl_bytes b) in
        case evict_loop L (b\<lparr>bl_inner := c, bl_bytes := bytes0 + incoming\<rparr>) 0 0 [] of
          None \<Rightarrow> None
        | Some (b', evicted, freed, evicted_keys) \<Rightarrow>
            Some (if evicted > 0 then InsertedAfterEviction evicted freed else Inserted,
                  evicted_keys, b'))"

definition lru_insert ::
  "('c, bytes) lru_ops \<Rightarrow> 'c byte_lru \<Rightarrow> u64 \<Rightarrow> bytes \<Rightarrow> (insert_outcome \<times> 'c byte_lru) option" where
  "lru_insert L b key v = map_option (\<lambda>(out, _, b'). (out, b')) (insert_recording_evicted L b key v)"

definition bl_get :: "('c, bytes) lru_ops \<Rightarrow> 'c byte_lru \<Rightarrow> u64 \<Rightarrow> bytes option \<times> 'c byte_lru" where
  "bl_get L b key = (let (v, c) = lru_get L (bl_inner b) key in (v, b\<lparr>bl_inner := c\<rparr>))"

definition bl_remove :: "('c, bytes) lru_ops \<Rightarrow> 'c byte_lru \<Rightarrow> u64 \<Rightarrow> bool \<times> 'c byte_lru" where
  "bl_remove L b key =
     (case lru_pop L (bl_inner b) key of
        (None, c) \<Rightarrow> (False, b\<lparr>bl_inner := c\<rparr>)
      | (Some v, c) \<Rightarrow> (True, b\<lparr>bl_inner := c, bl_bytes := bl_bytes b - length v\<rparr>))"

definition bl_clear :: "('c, bytes) lru_ops \<Rightarrow> 'c byte_lru \<Rightarrow> 'c byte_lru" where
  "bl_clear L b = b\<lparr>bl_inner := lru_clear L (bl_inner b), bl_bytes := 0\<rparr>"

fun remove_victims ::
  "('c, bytes) lru_ops \<Rightarrow> u64 list \<Rightarrow> nat \<Rightarrow> 'c byte_lru \<Rightarrow> nat \<times> 'c byte_lru" where
  "remove_victims L [] removed b = (removed, b)"
| "remove_victims L (k # ks) removed b =
     (case lru_pop L (bl_inner b) k of
        (None, c) \<Rightarrow> remove_victims L ks removed (b\<lparr>bl_inner := c\<rparr>)
      | (Some v, c) \<Rightarrow>
          remove_victims L ks (removed + 1) (b\<lparr>bl_inner := c, bl_bytes := bl_bytes b - length v\<rparr>))"

definition retain_keys ::
  "('c, bytes) lru_ops \<Rightarrow> 'c byte_lru \<Rightarrow> (u64 \<Rightarrow> bool) \<Rightarrow> nat \<times> 'c byte_lru" where
  "retain_keys L b f =
     remove_victims L (map fst (filter (\<lambda>p. \<not> f (fst p)) (lru_iter L (bl_inner b)))) 0 b"

definition bl_len :: "('c, bytes) lru_ops \<Rightarrow> 'c byte_lru \<Rightarrow> nat" where
  "bl_len L b = lru_len L (bl_inner b)"

definition bl_keys :: "('c, bytes) lru_ops \<Rightarrow> 'c byte_lru \<Rightarrow> u64 list" where
  "bl_keys L b = map fst (lru_iter L (bl_inner b))"

section \<open>Specification: the longest fitting prefix\<close>

definition entry_bytes :: "(u64 \<times> bytes) list \<Rightarrow> nat" where
  "entry_bytes xs = sum_list (map (\<lambda>p. length (snd p)) xs)"

definition fits :: "nat \<Rightarrow> nat \<Rightarrow> (u64 \<times> bytes) list \<Rightarrow> bool" where
  "fits cap mx xs \<longleftrightarrow> entry_bytes xs \<le> cap \<and> length xs \<le> mx"

text \<open>How many entries, newest first, stay.\<close>

primrec kept :: "nat \<Rightarrow> nat \<Rightarrow> (u64 \<times> bytes) list \<Rightarrow> nat \<Rightarrow> nat" where
  "kept cap mx xs 0 = 0"
| "kept cap mx xs (Suc n) = (if fits cap mx (take (Suc n) xs) then Suc n else kept cap mx xs n)"

abbreviation entries :: "('c, bytes) lru_ops \<Rightarrow> 'c byte_lru \<Rightarrow> (u64 \<times> bytes) list" where
  "entries L b \<equiv> lru_iter L (bl_inner b)"

definition lru_inv :: "('c, bytes) lru_ops \<Rightarrow> 'c byte_lru \<Rightarrow> bool" where
  "lru_inv L b \<longleftrightarrow> bl_bytes b = entry_bytes (entries L b)
     \<and> fits (bl_cap_bytes b) (bl_max_entries b) (entries L b)
     \<and> 0 < bl_cap_bytes b \<and> 0 < bl_max_entries b"

lemma entry_bytes_simps [simp]:
  "entry_bytes [] = 0" "entry_bytes ((k, v) # xs) = length v + entry_bytes xs"
  "entry_bytes (xs @ ys) = entry_bytes xs + entry_bytes ys"
  by (simp_all add: entry_bytes_def)

lemma kept_fits: "fits cap mx (take (kept cap mx xs n) xs)"
  by (induction n) (simp_all add: fits_def)

lemma kept_le: "kept cap mx xs n \<le> n"
  by (induction n) simp_all

lemma kept_maximal: "kept cap mx xs n < m \<Longrightarrow> m \<le> n \<Longrightarrow> \<not> fits cap mx (take m xs)"
proof (induction n)
  case (Suc n)
  then show ?case by (cases "m = Suc n") (auto split: if_splits)
qed simp

lemma mset_promote:
  assumes "distinct (map fst xs)" and "map_of xs k = Some v"
  shows "mset ((k, v) # without k xs) = mset xs"
  using assms
proof (induction xs)
  case (Cons p xs)
  show ?case
  proof (cases "fst p = k")
    case True
    with Cons.prems(1) have "k \<notin> fst ` set xs" by auto
    then have "without k xs = xs" by (induction xs) auto
    with True Cons.prems(2) show ?thesis by (cases p) auto
  qed (use Cons in \<open>auto simp: add_mset_commute\<close>)
qed simp

lemma entry_bytes_without:
  assumes "distinct (map fst xs)"
  shows "entry_bytes xs = entry_bytes (without k xs)
    + (case map_of xs k of None \<Rightarrow> 0 | Some v \<Rightarrow> length v)"
  using assms
proof (induction xs)
  case (Cons p xs)
  obtain k' v where p: "p = (k', v)" by (cases p)
  show ?case
  proof (cases "k' = k")
    case True
    with Cons.prems p have "k \<notin> fst ` set xs" by auto
    then have "without k xs = xs" by (induction xs) auto
    with True p show ?thesis by simp
  qed (use Cons p in auto)
qed simp

section \<open>The eviction loop returns the longest fitting prefix\<close>

lemma evict_loop_spec:
  assumes L: "lru_laws None L"
    and "entries L b = take n xs" and "n \<le> length xs" and "bl_bytes b = entry_bytes (take n xs)"
  defines "m \<equiv> kept (bl_cap_bytes b) (bl_max_entries b) xs n"
  shows "\<exists>b'. evict_loop L b ev freed ks
      = Some (b', ev + word_of_nat (n - m), freed + entry_bytes (drop m (take n xs)),
          ks @ map fst (rev (drop m (take n xs))))
    \<and> entries L b' = take m xs \<and> bl_bytes b' = entry_bytes (take m xs)
    \<and> bl_cap_bytes b' = bl_cap_bytes b \<and> bl_max_entries b' = bl_max_entries b"
  using assms(2-4) unfolding m_def
proof (induction n arbitrary: b ev freed ks)
  case 0
  then show ?case by (simp add: evict_loop.simps [of L b] lru_len_eq [OF L])
next
  case (Suc n)
  let ?cap = "bl_cap_bytes b" and ?mx = "bl_max_entries b"
  have split: "take (Suc n) xs = take n xs @ [xs ! n]"
    using Suc.prems(2) by (simp add: take_Suc_conv_app_nth)
  show ?case
  proof (cases "fits ?cap ?mx (take (Suc n) xs)")
    case True
    with Suc.prems show ?thesis
      by (simp add: evict_loop.simps [of L b] lru_len_eq [OF L] fits_def)
  next
    case False
    obtain k v where kv: "xs ! n = (k, v)" by (cases "xs ! n")
    define m' where "m' = kept ?cap ?mx xs n"
    have le: "m' \<le> n" by (simp add: m'_def kept_le)
    obtain c where pop: "lru_pop_lru L (bl_inner b) = (Some (k, v), c)" "lru_iter L c = take n xs"
      using lru_pop_lru_val [OF L, of "bl_inner b"] lru_pop_lru_iter [OF L, of "bl_inner b"] Suc.prems(1) kv
      by (cases "lru_pop_lru L (bl_inner b)") (simp add: split)
    define b1 where "b1 = b\<lparr>bl_inner := c, bl_bytes := bl_bytes b - length v,
        bl_evictions_total := bl_evictions_total b + 1,
        bl_evicted_bytes_total := bl_evicted_bytes_total b + word_of_nat (length v)\<rparr>"
    have step: "evict_loop L b ev freed ks = evict_loop L b1 (ev + 1) (freed + length v) (ks @ [k])"
      using False Suc.prems
      by (subst evict_loop.simps) (auto simp: pop(1) b1_def lru_len_eq [OF L] fits_def Let_def not_le)
    have "entries L b1 = take n xs" "bl_bytes b1 = entry_bytes (take n xs)"
      using pop(2) Suc.prems(3) kv by (simp_all add: b1_def split)
    from Suc.IH [OF this(1) _ this(2), of "ev + 1" "freed + length v" "ks @ [k]"] Suc.prems(2)
    obtain b' where b': "evict_loop L b1 (ev + 1) (freed + length v) (ks @ [k])
        = Some (b', ev + 1 + word_of_nat (n - m'), freed + length v + entry_bytes (drop m' (take n xs)),
            (ks @ [k]) @ map fst (rev (drop m' (take n xs))))"
      "entries L b' = take m' xs" "bl_bytes b' = entry_bytes (take m' xs)"
      "bl_cap_bytes b' = ?cap" "bl_max_entries b' = ?mx"
      by (auto simp: b1_def m'_def)
    have "drop m' (take (Suc n) xs) = drop m' (take n xs) @ [(k, v)]"
      using le Suc.prems(2) by (simp add: split kv)
    moreover have "(word_of_nat (Suc n - m') :: u32) = 1 + word_of_nat (n - m')"
      using le by (simp add: Suc_diff_le)
    ultimately show ?thesis
      using False b' step by (simp add: m'_def [symmetric] ac_simps)
  qed
qed

lemma insert_spec:
  fixes k :: u64
  assumes L: "lru_laws None L" and inv: "lru_inv L b" and small: "bl_max_entries b < 2 ^ 32 - 1"
    and fit: "length v \<le> bl_cap_bytes b"
  defines "xs \<equiv> (k, v) # without k (entries L b)"
  defines "m \<equiv> kept (bl_cap_bytes b) (bl_max_entries b) xs (length xs)"
  shows "\<exists>b'. insert_recording_evicted L b k v
      = Some (if m = length xs then Inserted
              else InsertedAfterEviction (word_of_nat (length xs - m)) (entry_bytes (drop m xs)),
          map fst (rev (drop m xs)), b')
    \<and> entries L b' = take m xs \<and> lru_inv L b' \<and> 1 \<le> m
    \<and> bl_cap_bytes b' = bl_cap_bytes b \<and> bl_max_entries b' = bl_max_entries b"
proof -
  let ?cap = "bl_cap_bytes b" and ?mx = "bl_max_entries b"
  obtain old c where put: "lru_put L (bl_inner b) k v = (old, c)" by (cases "lru_put L (bl_inner b) k v")
  have old: "old = map_of (entries L b) k" and c: "lru_iter L c = xs"
    using lru_put_old [OF L, of "bl_inner b" k v] lru_put_iter [OF L, of "bl_inner b" k v]
    by (simp_all add: put xs_def capped_def)
  define bytes0 where "bytes0 = (case old of Some w \<Rightarrow> bl_bytes b - length w | None \<Rightarrow> bl_bytes b)"
  have b0: "bytes0 = entry_bytes (without k (entries L b))"
    using entry_bytes_without [OF lru_iter_distinct [OF L], of "bl_inner b" k] inv old
    by (auto simp: bytes0_def lru_inv_def split: option.splits)
  define b1 where "b1 = b\<lparr>bl_inner := c, bl_bytes := bytes0 + length v\<rparr>"
  have "entries L b1 = take (length xs) xs" "bl_bytes b1 = entry_bytes (take (length xs) xs)"
    using c b0 by (simp_all add: b1_def xs_def)
  from evict_loop_spec [OF L this(1) order_refl this(2), of 0 0 "[]"]
  obtain b' where b': "evict_loop L b1 0 0 [] = Some (b', word_of_nat (length xs - m),
      entry_bytes (drop m xs), map fst (rev (drop m xs)))"
    "entries L b' = take m xs" "bl_bytes b' = entry_bytes (take m xs)"
    "bl_cap_bytes b' = ?cap" "bl_max_entries b' = ?mx"
    by (auto simp: b1_def m_def)
  have m1: "1 \<le> m"
  proof (rule ccontr)
    assume "\<not> 1 \<le> m"
    then have "\<not> fits ?cap ?mx (take 1 xs)"
      by (intro kept_maximal [of _ _ _ "length xs"]) (auto simp: m_def xs_def)
    with fit inv show False by (simp add: xs_def fits_def lru_inv_def)
  qed
  have "lru_inv L b'"
    using inv b' kept_fits [of ?cap ?mx xs "length xs"] by (simp add: lru_inv_def m_def)
  moreover have "(word_of_nat (length xs - m) :: u32) > 0 \<longleftrightarrow> m \<noteq> length xs"
  proof -
    have "length (without k (entries L b)) \<le> ?mx"
      using inv by (auto simp: lru_inv_def fits_def intro: order_trans [OF length_filter_le])
    then have "length xs - m < 2 ^ 32" using small by (simp add: xs_def)
    then have "unat (word_of_nat (length xs - m) :: u32) = length xs - m" by (simp add: unat_of_nat)
    moreover have "m \<le> length xs" by (simp add: m_def kept_le)
    ultimately show ?thesis by (simp add: word_less_nat_alt) arith
  qed
  ultimately show ?thesis
    using fit put b' m1 by (simp add: insert_recording_evicted_def Let_def b1_def bytes0_def)
qed

section \<open>The other operations\<close>

lemma length_without:
  assumes "distinct (map fst xs)" and "map_of xs k = Some v"
  shows "Suc (length (without k xs)) = length xs"
  using assms
proof (induction xs)
  case (Cons p xs)
  show ?case
  proof (cases "fst p = k")
    case True
    with Cons.prems(1) have "k \<notin> fst ` set xs" by auto
    then have "without k xs = xs" by (induction xs) auto
    with True show ?thesis by simp
  qed (use Cons in auto)
qed simp

lemma fits_without: "fits cap mx xs \<Longrightarrow> distinct (map fst xs) \<Longrightarrow> fits cap mx (without k xs)"
  using entry_bytes_without [of xs k] by (auto simp: fits_def intro: order_trans [OF length_filter_le])

lemma get_spec:
  assumes L: "lru_laws None L" and inv: "lru_inv L b"
  shows "fst (bl_get L b k) = map_of (entries L b) k \<and> lru_inv L (snd (bl_get L b k))
    \<and> mset (entries L (snd (bl_get L b k))) = mset (entries L b)
    \<and> bl_cap_bytes (snd (bl_get L b k)) = bl_cap_bytes b
    \<and> bl_max_entries (snd (bl_get L b k)) = bl_max_entries b"
proof -
  obtain r c where g: "lru_get L (bl_inner b) k = (r, c)" by (cases "lru_get L (bl_inner b) k")
  have r: "r = map_of (entries L b) k" and c: "lru_iter L c =
      (case r of None \<Rightarrow> entries L b | Some v \<Rightarrow> (k, v) # without k (entries L b))"
    using lru_get_val [OF L, of "bl_inner b" k] lru_get_iter [OF L, of "bl_inner b" k] by (simp_all add: g)
  note d = lru_iter_distinct [OF L, of "bl_inner b"]
  have "entry_bytes (lru_iter L c) = entry_bytes (entries L b) \<and> length (lru_iter L c) = length (entries L b)"
    using entry_bytes_without [OF d, of k] length_without [OF d, of k] c r by (auto split: option.splits)
  moreover have "mset (lru_iter L c) = mset (entries L b)"
    using mset_promote [OF d, of k] c r by (auto split: option.splits)
  ultimately show ?thesis using inv r by (auto simp: bl_get_def g lru_inv_def fits_def)
qed

lemma remove_spec:
  assumes L: "lru_laws None L" and inv: "lru_inv L b"
  shows "fst (bl_remove L b k) = (k \<in> fst ` set (entries L b))
    \<and> entries L (snd (bl_remove L b k)) = without k (entries L b) \<and> lru_inv L (snd (bl_remove L b k))
    \<and> bl_cap_bytes (snd (bl_remove L b k)) = bl_cap_bytes b
    \<and> bl_max_entries (snd (bl_remove L b k)) = bl_max_entries b"
proof -
  obtain r c where g: "lru_pop L (bl_inner b) k = (r, c)" by (cases "lru_pop L (bl_inner b) k")
  have r: "r = map_of (entries L b) k" and c: "lru_iter L c = without k (entries L b)"
    using lru_pop_val [OF L, of "bl_inner b" k] lru_pop_iter [OF L, of "bl_inner b" k] by (simp_all add: g)
  note d = lru_iter_distinct [OF L, of "bl_inner b"]
  have "k \<in> fst ` set (entries L b) \<longleftrightarrow> r \<noteq> None"
    by (simp add: r map_of_eq_None_iff)
  then show ?thesis
    using inv c r entry_bytes_without [OF d, of k] fits_without [OF _ d, of _ _ k]
    by (auto simp: bl_remove_def g lru_inv_def split: option.splits)
qed

lemma clear_spec:
  assumes "lru_laws None L" and "lru_inv L b"
  shows "entries L (bl_clear L b) = [] \<and> lru_inv L (bl_clear L b)"
  using assms by (simp add: bl_clear_def lru_inv_def fits_def lru_iter_clear)

lemma remove_victims_spec:
  assumes L: "lru_laws None L" and "lru_inv L b" and "distinct ks" and "set ks \<subseteq> fst ` set (entries L b)"
  shows "fst (remove_victims L ks n b) = n + length ks
    \<and> entries L (snd (remove_victims L ks n b)) = filter (\<lambda>p. fst p \<notin> set ks) (entries L b)
    \<and> lru_inv L (snd (remove_victims L ks n b))
    \<and> bl_cap_bytes (snd (remove_victims L ks n b)) = bl_cap_bytes b
    \<and> bl_max_entries (snd (remove_victims L ks n b)) = bl_max_entries b"
  using assms(2-)
proof (induction ks arbitrary: n b)
  case (Cons k ks)
  have rs: "remove_victims L (k # ks) n b = remove_victims L ks (n + 1) (snd (bl_remove L b k))"
  proof -
    from Cons.prems(3) have "k \<in> fst ` set (entries L b)" by simp
    then have "fst (lru_pop L (bl_inner b) k) \<noteq> None"
      by (simp add: lru_pop_val [OF L] map_of_eq_None_iff)
    then show ?thesis by (cases "lru_pop L (bl_inner b) k") (auto simp: bl_remove_def)
  qed
  note r = remove_spec [OF L Cons.prems(1), of k]
  have "set ks \<subseteq> fst ` set (entries L (snd (bl_remove L b k)))"
  proof
    fix x assume x: "x \<in> set ks"
    then obtain p where p: "p \<in> set (entries L b)" "x = fst p" using Cons.prems(3) by auto
    moreover from x Cons.prems(2) have "x \<noteq> k" by auto
    ultimately show "x \<in> fst ` set (entries L (snd (bl_remove L b k)))" using r by auto
  qed
  with Cons.IH [of "snd (bl_remove L b k)" "n + 1"] r Cons.prems(2) show ?case
    unfolding rs by (simp add: conj_commute)
qed simp

lemma retain_spec:
  assumes L: "lru_laws None L" and inv: "lru_inv L b"
  shows "fst (retain_keys L b f) = length (filter (\<lambda>p. \<not> f (fst p)) (entries L b))
    \<and> entries L (snd (retain_keys L b f)) = filter (\<lambda>p. f (fst p)) (entries L b)
    \<and> lru_inv L (snd (retain_keys L b f))
    \<and> bl_cap_bytes (snd (retain_keys L b f)) = bl_cap_bytes b
    \<and> bl_max_entries (snd (retain_keys L b f)) = bl_max_entries b"
proof -
  let ?ks = "map fst (filter (\<lambda>p. \<not> f (fst p)) (entries L b))"
  have "distinct ?ks"
    using lru_iter_distinct [OF L, of "bl_inner b"] by (rule distinct_map_filter)
  moreover have "set ?ks \<subseteq> fst ` set (entries L b)" by auto
  moreover have "filter (\<lambda>p. fst p \<notin> set ?ks) (entries L b) = filter (\<lambda>p. f (fst p)) (entries L b)"
    by (rule filter_cong) auto
  ultimately show ?thesis
    using remove_victims_spec [OF L inv, of ?ks 0] by (simp add: retain_keys_def)
qed

section \<open>Sequences of operations\<close>

datatype lru_op = OpInsert u64 bytes | OpGet u64 | OpRemove u64 | OpClear | OpRetain "u64 \<Rightarrow> bool"

fun lru_step :: "('c, bytes) lru_ops \<Rightarrow> lru_op \<Rightarrow> 'c byte_lru \<Rightarrow> 'c byte_lru option" where
  "lru_step L (OpInsert k v) b = map_option snd (lru_insert L b k v)"
| "lru_step L (OpGet k) b = Some (snd (bl_get L b k))"
| "lru_step L (OpRemove k) b = Some (snd (bl_remove L b k))"
| "lru_step L OpClear b = Some (bl_clear L b)"
| "lru_step L (OpRetain f) b = Some (snd (retain_keys L b f))"

fun lru_run :: "('c, bytes) lru_ops \<Rightarrow> lru_op list \<Rightarrow> 'c byte_lru \<Rightarrow> 'c byte_lru option" where
  "lru_run L [] b = Some b"
| "lru_run L (op # ops) b = Option.bind (lru_step L op b) (lru_run L ops)"

lemma lru_step_inv:
  assumes L: "lru_laws None L" and inv: "lru_inv L b" and small: "bl_max_entries b < 2 ^ 32 - 1"
  shows "\<exists>b'. lru_step L op b = Some b' \<and> lru_inv L b'
    \<and> bl_cap_bytes b' = bl_cap_bytes b \<and> bl_max_entries b' = bl_max_entries b"
proof (cases op)
  case (OpInsert k v)
  show ?thesis
  proof (cases "length v \<le> bl_cap_bytes b")
    case True
    from insert_spec [OF L inv small True, of k] OpInsert show ?thesis by (auto simp: lru_insert_def)
  next
    case False
    with inv OpInsert show ?thesis by (simp add: lru_insert_def insert_recording_evicted_def)
  qed
next
  case (OpGet k)
  with get_spec [OF L inv, of k] show ?thesis by simp
next
  case (OpRemove k)
  with remove_spec [OF L inv, of k] show ?thesis by simp
next
  case OpClear
  with clear_spec [OF L inv] show ?thesis by (simp add: bl_clear_def)
next
  case (OpRetain f)
  with retain_spec [OF L inv, of f] show ?thesis by simp
qed

text \<open>The laws do not mention the build.\<close>

lemma lru_laws_build [simp]: "lru_laws cap (L\<lparr>lru_debug_assertions := dbg\<rparr>) = lru_laws cap L"
  by (simp add: lru_laws_def cong: option.case_cong)

lemma lru_inv_build [simp]: "lru_inv (L\<lparr>lru_debug_assertions := dbg\<rparr>) b = lru_inv L b"
  by (simp add: lru_inv_def)

lemma lru_run_inv:
  assumes L: "lru_laws None L" and "lru_inv L b" and "bl_max_entries b < 2 ^ 32 - 1"
  shows "\<exists>b'. lru_run L ops b = Some b' \<and> lru_inv L b' \<and> bl_cap_bytes b' = bl_cap_bytes b
    \<and> bl_max_entries b' = bl_max_entries b"
  using assms(2-)
proof (induction ops arbitrary: b)
  case (Cons op ops)
  from lru_step_inv [OF L Cons.prems, of op] obtain b1 where "lru_step L op b = Some b1" "lru_inv L b1"
    "bl_cap_bytes b1 = bl_cap_bytes b" "bl_max_entries b1 = bl_max_entries b" by blast
  with Cons.IH [of b1] Cons.prems(2) show ?case by simp
qed simp

lemma new_inv:
  assumes L: "lru_laws None L" and "ByteBoundedLru_new L cap = Some b"
  shows "lru_inv L b \<and> entries L b = [] \<and> bl_cap_bytes b = cap
    \<and> bl_max_entries b = max (cap div PER_ENTRY_OVERHEAD_BYTES) 1"
  using assms(2)
  by (auto simp: ByteBoundedLru_new_def with_caps_def lru_inv_def fits_def lru_iter_empty [OF L]
      split: if_splits)

section \<open>Properties\<close>

text \<open>C31: With any recency list that keeps the documented laws, inserting into the byte-bounded cache
  always returns. A value larger than the byte cap is refused and nothing changes. Otherwise the
  new entry is the most recent one, and what is kept is the longest prefix, newest first, that
  fits both the byte cap and the entry cap, never without the new entry; the evicted keys are
  reported least recently used first, with their exact number and bytes, and the byte counter is
  exact.\<close>

theorem byte_lru_insert:
  assumes "lru_laws None L" and "lru_inv L b" and "bl_max_entries b < 2 ^ 32 - 1"
  shows "\<exists>out ks b'. insert_recording_evicted L b k v = Some (out, ks, b') \<and> lru_inv L b'
    \<and> (if length v > bl_cap_bytes b
       then out = Refused EntryLargerThanCap \<and> ks = [] \<and> b' = b
       else \<exists>m. let xs = (k, v) # without k (entries L b) in
         1 \<le> m \<and> m \<le> length xs \<and> entries L b' = take m xs
         \<and> (\<forall>j. m < j \<longrightarrow> j \<le> length xs \<longrightarrow> \<not> fits (bl_cap_bytes b) (bl_max_entries b) (take j xs))
         \<and> ks = map fst (rev (drop m xs))
         \<and> out = (if m = length xs then Inserted
                  else InsertedAfterEviction (word_of_nat (length xs - m)) (entry_bytes (drop m xs))))"
proof (cases "length v \<le> bl_cap_bytes b")
  case True
  define xs where "xs = (k, v) # without k (entries L b)"
  define m where "m = kept (bl_cap_bytes b) (bl_max_entries b) xs (length xs)"
  have "\<forall>j. m < j \<longrightarrow> j \<le> length xs \<longrightarrow> \<not> fits (bl_cap_bytes b) (bl_max_entries b) (take j xs)"
    using kept_maximal unfolding m_def by blast
  moreover have "m \<le> length xs" by (simp add: m_def kept_le)
  moreover have "\<not> length v > bl_cap_bytes b" using True by simp
  ultimately show ?thesis
    using insert_spec [OF assms True, of k, folded xs_def, folded m_def]
    unfolding Let_def xs_def [symmetric] by (simp only: if_False) blast
next
  case False
  with assms(2) show ?thesis by (simp add: insert_recording_evicted_def)
qed

text \<open>C32: A cache made with a byte cap never holds more bytes than it, nor more entries than one per 96
  bytes of it, and its byte counter equals the sum of the entries' sizes, after every sequence of
  inserts, lookups, removals, retains and clears. Each of them returns, whether the build has debug
  assertions or not: in a build that has them, the eviction loop's assertion that the byte counter has
  not drifted from the entries never fails.\<close>

theorem byte_lru_bounded:
  assumes "lru_laws None L" and "ByteBoundedLru_new L cap = Some b" and "cap < 2 ^ 32"
  shows "\<exists>b'. lru_run (L\<lparr>lru_debug_assertions := dbg\<rparr>) ops b = Some b'
    \<and> bl_bytes b' = entry_bytes (entries L b')
    \<and> entry_bytes (entries L b') \<le> cap \<and> length (entries L b') \<le> max (cap div 96) 1"
proof -
  let ?L = "L\<lparr>lru_debug_assertions := dbg\<rparr>"
  note new = new_inv [OF assms(1,2)]
  then have "bl_max_entries b < 2 ^ 32 - 1" using assms(3) by (simp add: PER_ENTRY_OVERHEAD_BYTES_def)
  with new assms(1) lru_run_inv [of ?L b ops] show ?thesis
    by (auto simp: lru_inv_def fits_def PER_ENTRY_OVERHEAD_BYTES_def)
qed

theorem byte_lru_insert_witness:
  "\<exists>b. with_caps (list_lru None) 10 2 = Some b \<and> (\<exists>out ks b'.
     insert_recording_evicted (list_lru None) b 7 [1, 2, 3] = Some (out, ks, b')
     \<and> lru_inv (list_lru None) b')"
proof -
  let ?b = "\<lparr>bl_inner = lru_empty (list_lru None), bl_bytes = 0, bl_cap_bytes = 10, bl_max_entries = 2,
      bl_evictions_total = 0, bl_evicted_bytes_total = 0\<rparr>"
  have b: "with_caps (list_lru None) 10 2 = Some ?b" by (simp add: with_caps_def)
  have "lru_inv (list_lru None) ?b"
    by (simp add: lru_inv_def fits_def lru_iter_empty [OF list_lru_laws])
  from byte_lru_insert [OF list_lru_laws this, of 7 "[1, 2, 3]"] b show ?thesis by auto
qed

theorem byte_lru_bounded_witness:
  "\<exists>b b'. ByteBoundedLru_new (list_lru None) 192 = Some b
     \<and> lru_run (list_lru None\<lparr>lru_debug_assertions := True\<rparr>)
         [OpInsert 1 [0, 0], OpInsert 2 [1], OpGet 1, OpInsert 3 [5], OpRemove 2] b = Some b'
     \<and> length (entries (list_lru None) b') \<le> 2"
proof -
  obtain b where b: "ByteBoundedLru_new (list_lru None) 192 = Some b"
    by (simp add: ByteBoundedLru_new_def with_caps_def PER_ENTRY_OVERHEAD_BYTES_def)
  from byte_lru_bounded [OF list_lru_laws b, of True
      "[OpInsert 1 [0, 0], OpInsert 2 [1], OpGet 1, OpInsert 3 [5], OpRemove 2]"] b
  show ?thesis by auto
qed

end
