(* ===== verification/Glz_Dictionary.thy ===== *)
theory Glz_Dictionary
  imports Byte_Lru
begin

text \<open>
  The GLZ image dictionary (\<open>shakenfist-spice-compression/src/glz.rs\<close>): decoded images by id in a
  byte-bounded cache, and a bounded set of tombstones for the ids the cap has evicted, so that a
  reference to one of them fails at once instead of waiting. The notification is not state of the
  dictionary; the first-eviction flag decides only how an eviction is logged.

  The display channels share the dictionary and run in parallel. Images, tombstones and flag have a lock
  each, and every operation but \<open>insert\<close> takes one lock once. \<open>insert\<close> takes them one after the other, so
  it is three steps here, and other channels may act between them.
\<close>

section \<open>The code\<close>

definition EVICTED_ID_TOMBSTONES :: nat where "EVICTED_ID_TOMBSTONES = 4096"

definition DEFAULT_GLZ_DICT_CAP_BYTES :: nat where "DEFAULT_GLZ_DICT_CAP_BYTES = 256 * 1024 * 1024"

record ('c, 't) glz_dictionary =
  gd_images :: "'c byte_lru"
  gd_evicted_ids :: 't
  gd_first_eviction_logged :: bool

text \<open>What other channels do to the dictionary before a channel takes a lock for the \<open>n\<close>-th time.\<close>

type_synonym ('c, 't) glz_env = "nat \<Rightarrow> ('c, 't) glz_dictionary \<Rightarrow> ('c, 't) glz_dictionary"

definition gd_with_cap ::
  "('c, bytes) lru_ops \<Rightarrow> ('t, unit) lru_ops \<Rightarrow> nat \<Rightarrow> ('c, 't) glz_dictionary option" where
  "gd_with_cap L T cap = map_option (\<lambda>images.
     \<lparr>gd_images = images, gd_evicted_ids = lru_empty T, gd_first_eviction_logged = False\<rparr>)
     (ByteBoundedLru_new L cap)"

definition gd_new :: "('c, bytes) lru_ops \<Rightarrow> ('t, unit) lru_ops \<Rightarrow> ('c, 't) glz_dictionary option" where
  "gd_new L T = gd_with_cap L T DEFAULT_GLZ_DICT_CAP_BYTES"

text \<open>The three parts of \<open>insert\<close>, each under one lock: the images, the tombstones, the flag.\<close>

definition gd_insert_images ::
  "('c, bytes) lru_ops \<Rightarrow> ('c, 't) glz_dictionary \<Rightarrow> u64 \<Rightarrow> bytes
    \<Rightarrow> (insert_outcome \<times> u64 list \<times> ('c, 't) glz_dictionary) option" where
  "gd_insert_images L d image_id pixels =
     (case insert_recording_evicted L (gd_images d) image_id pixels of
        None \<Rightarrow> None
      | Some (outcome, evicted_keys, images) \<Rightarrow> Some (outcome, evicted_keys, d\<lparr>gd_images := images\<rparr>))"

definition gd_insert_tombstones ::
  "('t, unit) lru_ops \<Rightarrow> ('c, 't) glz_dictionary \<Rightarrow> u64 \<Rightarrow> u64 list \<Rightarrow> ('c, 't) glz_dictionary" where
  "gd_insert_tombstones T d image_id evicted_keys =
     (let tombstones = foldl (\<lambda>t k. snd (lru_put T t k ())) (gd_evicted_ids d) evicted_keys in
      d\<lparr>gd_evicted_ids := snd (lru_pop T tombstones image_id)\<rparr>)"

definition gd_insert_logged :: "('c, 't) glz_dictionary \<Rightarrow> ('c, 't) glz_dictionary" where
  "gd_insert_logged d = d\<lparr>gd_first_eviction_logged := True\<rparr>"

definition gd_insert ::
  "('c, bytes) lru_ops \<Rightarrow> ('t, unit) lru_ops \<Rightarrow> ('c, 't) glz_env \<Rightarrow> ('c, 't) glz_dictionary \<Rightarrow> u64 \<Rightarrow> bytes
    \<Rightarrow> ('c, 't) glz_dictionary option" where
  "gd_insert L T env d image_id pixels =
     (case gd_insert_images L (env 0 d) image_id pixels of
        None \<Rightarrow> None
      | Some (outcome, evicted_keys, d1) \<Rightarrow>
          (let d2 = gd_insert_tombstones T (env 1 d1) image_id evicted_keys in
           Some (case outcome of
               InsertedAfterEviction _ _ \<Rightarrow> gd_insert_logged (env 2 d2) | _ \<Rightarrow> d2)))"

definition was_evicted :: "('t, unit) lru_ops \<Rightarrow> ('c, 't) glz_dictionary \<Rightarrow> u64 \<Rightarrow> bool" where
  "was_evicted T d image_id = lru_contains T (gd_evicted_ids d) image_id"

definition gd_remove ::
  "('c, bytes) lru_ops \<Rightarrow> ('c, 't) glz_dictionary \<Rightarrow> u64 \<Rightarrow> bool \<times> ('c, 't) glz_dictionary" where
  "gd_remove L d image_id =
     (let (r, images) = bl_remove L (gd_images d) image_id in (r, d\<lparr>gd_images := images\<rparr>))"

definition evict_older_than ::
  "('c, bytes) lru_ops \<Rightarrow> ('c, 't) glz_dictionary \<Rightarrow> u64 \<Rightarrow> nat \<times> ('c, 't) glz_dictionary" where
  "evict_older_than L d oldest_valid =
     (let (n, images) = retain_keys L (gd_images d) (\<lambda>i. i \<ge> oldest_valid) in (n, d\<lparr>gd_images := images\<rparr>))"

definition gd_clear :: "('c, bytes) lru_ops \<Rightarrow> ('c, 't) glz_dictionary \<Rightarrow> ('c, 't) glz_dictionary" where
  "gd_clear L d = d\<lparr>gd_images := bl_clear L (gd_images d)\<rparr>"

definition gd_get ::
  "('c, bytes) lru_ops \<Rightarrow> ('c, 't) glz_dictionary \<Rightarrow> u64 \<Rightarrow> bytes option \<times> ('c, 't) glz_dictionary" where
  "gd_get L d image_id =
     (let (r, images) = bl_get L (gd_images d) image_id in (r, d\<lparr>gd_images := images\<rparr>))"

definition image_ids :: "('c, bytes) lru_ops \<Rightarrow> ('c, 't) glz_dictionary \<Rightarrow> u64 list" where
  "image_ids L d = sort (bl_keys L (gd_images d))"

section \<open>Tombstones\<close>

abbreviation live :: "('c, bytes) lru_ops \<Rightarrow> ('c, 't) glz_dictionary \<Rightarrow> u64 set" where
  "live L d \<equiv> fst ` set (entries L (gd_images d))"

abbreviation dead :: "('t, unit) lru_ops \<Rightarrow> ('c, 't) glz_dictionary \<Rightarrow> u64 set" where
  "dead T d \<equiv> fst ` set (lru_iter T (gd_evicted_ids d))"

abbreviation tomb_laws :: "('t, unit) lru_ops \<Rightarrow> bool" where
  "tomb_laws \<equiv> lru_laws (Some EVICTED_ID_TOMBSTONES)"

definition gd_inv :: "('c, bytes) lru_ops \<Rightarrow> ('t, unit) lru_ops \<Rightarrow> ('c, 't) glz_dictionary \<Rightarrow> bool" where
  "gd_inv L T d \<longleftrightarrow> lru_inv L (gd_images d) \<and> bl_max_entries (gd_images d) < 2 ^ 32 - 1
     \<and> length (lru_iter T (gd_evicted_ids d)) \<le> EVICTED_ID_TOMBSTONES"

lemma put_all_subset:
  assumes T: "lru_laws cap T"
  shows "fst ` set (lru_iter T (foldl (\<lambda>t k. snd (lru_put T t k v)) t ks))
    \<subseteq> fst ` set (lru_iter T t) \<union> set ks"
proof (induction ks arbitrary: t)
  case (Cons k ks)
  have "fst ` set (lru_iter T (snd (lru_put T t k v))) \<subseteq> insert k (fst ` set (lru_iter T t))"
    by (auto simp: lru_put_iter [OF T] capped_def split: option.splits dest!: in_set_takeD)
  with Cons [of "snd (lru_put T t k v)"] show ?case by auto
qed simp

text \<open>As many ids as fit, put one after the other, are all there, the last one in front.\<close>

lemma put_all_recent:
  assumes T: "lru_laws (Some n) T" and "distinct ks" and "length ks \<le> n"
  shows "\<exists>rest. lru_iter T (foldl (\<lambda>t k. snd (lru_put T t k ())) t ks)
    = map (\<lambda>k. (k, ())) (rev ks) @ rest"
  using assms(2,3)
proof (induction ks rule: rev_induct)
  case (snoc k ks)
  let ?t = "foldl (\<lambda>t k. snd (lru_put T t k ())) t ks"
  from snoc obtain rest where r: "lru_iter T ?t = map (\<lambda>k. (k, ())) (rev ks) @ rest" by auto
  have "without k (map (\<lambda>k. (k, ())) (rev ks)) = map (\<lambda>k. (k, ())) (rev ks)"
    using snoc.prems(1) by (auto simp: filter_id_conv)
  then have "lru_iter T (snd (lru_put T ?t k ()))
      = map (\<lambda>k. (k, ())) (rev (ks @ [k])) @ take (n - length (ks @ [k])) (without k rest)"
    using snoc.prems(2) by (simp add: lru_put_iter [OF T] capped_def r take_Cons')
  then show ?case by auto
qed simp

lemma length_put_all:
  assumes T: "lru_laws (Some n) T" and "length (lru_iter T t) \<le> n"
  shows "length (lru_iter T (foldl (\<lambda>t k. snd (lru_put T t k ())) t ks)) \<le> n"
  using assms(2)
  by (induction ks arbitrary: t) (simp_all add: lru_put_iter [OF T] capped_def)

text \<open>What an insert into the cache does to the keys.\<close>

lemma insert_keys:
  assumes L: "lru_laws None L" and inv: "lru_inv L b" and small: "bl_max_entries b < 2 ^ 32 - 1"
  shows "\<exists>out ks b'. insert_recording_evicted L b i px = Some (out, ks, b') \<and> lru_inv L b'
    \<and> distinct ks \<and> i \<notin> set ks \<and> set ks = fst ` set (entries L b) - fst ` set (entries L b')
    \<and> fst ` set (entries L b') \<subseteq> insert i (fst ` set (entries L b))
    \<and> (length px \<le> bl_cap_bytes b \<longrightarrow> map_of (entries L b') i = Some px)
    \<and> bl_cap_bytes b' = bl_cap_bytes b \<and> bl_max_entries b' = bl_max_entries b"
proof (cases "length px \<le> bl_cap_bytes b")
  case True
  define xs where "xs = (i, px) # without i (entries L b)"
  define m where "m = kept (bl_cap_bytes b) (bl_max_entries b) xs (length xs)"
  have d: "distinct (map fst xs)"
    using distinct_without [OF lru_iter_distinct [OF L, of "bl_inner b"], of i] by (auto simp: xs_def)
  from insert_spec [OF L inv small True, of i, folded xs_def, folded m_def] obtain out b' where
    b': "insert_recording_evicted L b i px = Some (out, map fst (rev (drop m xs)), b')"
      "entries L b' = take m xs" "lru_inv L b'" "1 \<le> m"
      "bl_cap_bytes b' = bl_cap_bytes b" "bl_max_entries b' = bl_max_entries b" by blast
  have split: "map fst xs = map fst (take m xs) @ map fst (drop m xs)"
    by (simp flip: map_append)
  have disj: "fst ` set (take m xs) \<inter> fst ` set (drop m xs) = {}" "distinct (map fst (drop m xs))"
    using d unfolding split distinct_append by auto
  obtain m' where m': "m = Suc m'" using b'(4) by (cases m) auto
  have "i \<in> fst ` set (take m xs)" by (simp add: m' xs_def)
  moreover have "insert i (fst ` set (entries L b)) = fst ` set (take m xs) \<union> fst ` set (drop m xs)"
    using arg_cong [OF split, of set] by (auto simp: xs_def)
  ultimately have keys: "fst ` set (drop m xs) = fst ` set (entries L b) - fst ` set (take m xs)"
    "i \<notin> fst ` set (drop m xs)" "fst ` set (take m xs) \<subseteq> insert i (fst ` set (entries L b))"
    using disj(1) by blast+
  have "distinct (map fst (rev (drop m xs)))" using disj(2) by (simp add: rev_map [symmetric])
  moreover have "map_of (entries L b') i = Some px" by (simp add: b'(2) m' xs_def)
  ultimately show ?thesis using b' keys by auto
next
  case False
  with inv show ?thesis by (simp add: insert_recording_evicted_def subset_insertI)
qed

lemma insert_images_spec:
  assumes L: "lru_laws None L" and inv: "gd_inv L T d"
  shows "\<exists>out ks d'. gd_insert_images L d i px = Some (out, ks, d') \<and> gd_inv L T d'
    \<and> distinct ks \<and> i \<notin> set ks \<and> set ks = live L d - live L d' \<and> live L d' \<subseteq> insert i (live L d)
    \<and> (length px \<le> bl_cap_bytes (gd_images d) \<longrightarrow> map_of (entries L (gd_images d')) i = Some px)
    \<and> bl_cap_bytes (gd_images d') = bl_cap_bytes (gd_images d) \<and> gd_evicted_ids d' = gd_evicted_ids d"
proof -
  from inv have "lru_inv L (gd_images d)" "bl_max_entries (gd_images d) < 2 ^ 32 - 1" by (simp_all add: gd_inv_def)
  from insert_keys [OF L this, of i px] inv show ?thesis
    by (fastforce simp: gd_insert_images_def gd_inv_def)
qed

lemma insert_tombstones_spec:
  fixes i :: u64 and ks :: "u64 list"
  assumes T: "tomb_laws T" and inv: "gd_inv L T d"
  defines "d' \<equiv> gd_insert_tombstones T d i ks"
  shows "gd_inv L T d'" and "gd_images d' = gd_images d" and "dead T d' \<subseteq> (dead T d \<union> set ks) - {i}"
    and "distinct ks \<Longrightarrow> length ks \<le> EVICTED_ID_TOMBSTONES \<Longrightarrow> set ks - {i} \<subseteq> dead T d'"
proof -
  define t where "t = foldl (\<lambda>t k. snd (lru_put T t k ())) (gd_evicted_ids d) ks"
  have d': "d' = d\<lparr>gd_evicted_ids := snd (lru_pop T t i)\<rparr>"
    by (simp add: d'_def gd_insert_tombstones_def t_def)
  have dead: "dead T d' = fst ` set (lru_iter T t) - {i}"
    by (auto simp: d' lru_pop_iter [OF T])
  show "gd_inv L T d'"
    using length_put_all [OF T, of "gd_evicted_ids d" ks] inv
    by (auto simp: d' lru_pop_iter [OF T] t_def gd_inv_def intro: order_trans [OF length_filter_le])
  show "gd_images d' = gd_images d" by (simp add: d')
  show "dead T d' \<subseteq> (dead T d \<union> set ks) - {i}"
    using put_all_subset [OF T, of "()" "gd_evicted_ids d" ks] unfolding dead t_def by auto
  assume "distinct ks" "length ks \<le> EVICTED_ID_TOMBSTONES"
  from put_all_recent [OF T this, of "gd_evicted_ids d"] obtain rest where
    "lru_iter T t = map (\<lambda>k. (k, ())) (rev ks) @ rest" by (auto simp: t_def)
  then show "set ks - {i} \<subseteq> dead T d'" unfolding dead by force
qed

lemma gd_insert_logged_simps [simp]:
  "gd_images (gd_insert_logged d) = gd_images d" "gd_evicted_ids (gd_insert_logged d) = gd_evicted_ids d"
  "gd_inv L T (gd_insert_logged d) = gd_inv L T d"
  by (simp_all add: gd_insert_logged_def gd_inv_def)

text \<open>An insert no other channel interrupts.\<close>

lemma gd_insert_alone:
  assumes L: "lru_laws None L" and T: "tomb_laws T" and inv: "gd_inv L T d"
  shows "\<exists>d'. gd_insert L T (\<lambda>n d. d) d i px = Some d' \<and> gd_inv L T d' \<and> i \<notin> dead T d'
    \<and> (length px \<le> bl_cap_bytes (gd_images d) \<longrightarrow> map_of (entries L (gd_images d')) i = Some px)
    \<and> (card (live L d - live L d') \<le> EVICTED_ID_TOMBSTONES \<longrightarrow> live L d - live L d' \<subseteq> dead T d')"
proof -
  from insert_images_spec [OF L inv, of i px] obtain out ks d1 where
    d1: "gd_insert_images L d i px = Some (out, ks, d1)" "gd_inv L T d1"
      "length px \<le> bl_cap_bytes (gd_images d) \<longrightarrow> map_of (entries L (gd_images d1)) i = Some px"
    and ks: "distinct ks" "i \<notin> set ks" "set ks = live L d - live L d1" by blast
  note tomb = insert_tombstones_spec [OF T d1(2), where i = i and ks = ks]
  define d2 where "d2 = gd_insert_tombstones T d1 i ks"
  define d' where "d' = (case out of InsertedAfterEviction _ _ \<Rightarrow> gd_insert_logged d2 | _ \<Rightarrow> d2)"
  have d': "gd_images d' = gd_images d1" "gd_evicted_ids d' = gd_evicted_ids d2" "gd_inv L T d'"
    using tomb(1,2) by (simp_all add: d'_def d2_def split: insert_outcome.split)
  have ins: "gd_insert L T (\<lambda>n d. d) d i px = Some d'"
    unfolding d'_def d2_def by (simp add: gd_insert_def d1(1) Let_def)
  have "card (set ks) \<le> EVICTED_ID_TOMBSTONES \<longrightarrow> set ks \<subseteq> dead T d2"
    using tomb(4) [OF ks(1)] ks(1,2) by (auto simp: d2_def distinct_card)
  moreover have "i \<notin> dead T d2" using tomb(3) by (auto simp: d2_def)
  ultimately show ?thesis using ins d' d1(3) ks(3) by auto
qed

section \<open>Channels in parallel\<close>

text \<open>
  The dictionary with the inserts that are between two of their locks, by channel. A channel runs its insert
  to the end before it does anything else; \<open>GdContinue\<close> is the next lock of its insert.
\<close>

datatype insert_pc = AtTombstones u64 insert_outcome "u64 list" | AtLogged

record ('c, 't) glz_shared =
  sh_dict :: "('c, 't) glz_dictionary"
  sh_pending :: "(u8 \<times> insert_pc) list"

datatype gd_op = GdInsert u64 bytes | GdContinue | GdGet u64 | GdRemove u64 | GdEvictOlder u64 | GdClear

definition gd_continue :: "('t, unit) lru_ops \<Rightarrow> u8 \<Rightarrow> insert_pc \<Rightarrow> ('c, 't) glz_shared \<Rightarrow> ('c, 't) glz_shared" where
  "gd_continue T ch pc s =
     (let rest = filter (\<lambda>p. fst p \<noteq> ch) (sh_pending s) in
      case pc of
        AtTombstones image_id outcome evicted_keys \<Rightarrow>
          \<lparr>sh_dict = gd_insert_tombstones T (sh_dict s) image_id evicted_keys,
           sh_pending = (case outcome of InsertedAfterEviction _ _ \<Rightarrow> (ch, AtLogged) # rest | _ \<Rightarrow> rest)\<rparr>
      | AtLogged \<Rightarrow> \<lparr>sh_dict = gd_insert_logged (sh_dict s), sh_pending = rest\<rparr>)"

fun gd_step ::
  "('c, bytes) lru_ops \<Rightarrow> ('t, unit) lru_ops \<Rightarrow> u8 \<Rightarrow> gd_op \<Rightarrow> ('c, 't) glz_shared \<Rightarrow> ('c, 't) glz_shared option" where
  "gd_step L T ch GdContinue s =
     (case map_of (sh_pending s) ch of None \<Rightarrow> Some s | Some pc \<Rightarrow> Some (gd_continue T ch pc s))"
| "gd_step L T ch (GdInsert i px) s =
     (if ch \<in> fst ` set (sh_pending s) then Some s
      else case gd_insert_images L (sh_dict s) i px of
        None \<Rightarrow> None
      | Some (outcome, evicted_keys, d) \<Rightarrow>
          Some \<lparr>sh_dict = d, sh_pending = (ch, AtTombstones i outcome evicted_keys) # sh_pending s\<rparr>)"
| "gd_step L T ch (GdGet i) s =
     Some (if ch \<in> fst ` set (sh_pending s) then s else s\<lparr>sh_dict := snd (gd_get L (sh_dict s) i)\<rparr>)"
| "gd_step L T ch (GdRemove i) s =
     Some (if ch \<in> fst ` set (sh_pending s) then s else s\<lparr>sh_dict := snd (gd_remove L (sh_dict s) i)\<rparr>)"
| "gd_step L T ch (GdEvictOlder i) s =
     Some (if ch \<in> fst ` set (sh_pending s) then s else s\<lparr>sh_dict := snd (evict_older_than L (sh_dict s) i)\<rparr>)"
| "gd_step L T ch GdClear s =
     Some (if ch \<in> fst ` set (sh_pending s) then s else s\<lparr>sh_dict := gd_clear L (sh_dict s)\<rparr>)"

fun gd_run ::
  "('c, bytes) lru_ops \<Rightarrow> ('t, unit) lru_ops \<Rightarrow> (u8 \<times> gd_op) list \<Rightarrow> ('c, 't) glz_shared \<Rightarrow> ('c, 't) glz_shared option" where
  "gd_run L T [] s = Some s"
| "gd_run L T ((ch, op) # ops) s = Option.bind (gd_step L T ch op s) (gd_run L T ops)"

text \<open>With no other channel, the steps of an insert are the insert.\<close>

lemma gd_run_insert:
  "gd_run L T [(ch, GdInsert i px), (ch, GdContinue), (ch, GdContinue)] \<lparr>sh_dict = d, sh_pending = []\<rparr>
     = map_option (\<lambda>d'. \<lparr>sh_dict = d', sh_pending = []\<rparr>) (gd_insert L T (\<lambda>n d. d) d i px)"
proof (cases "gd_insert_images L d i px")
  case (Some r)
  obtain out ks d1 where "r = (out, ks, d1)" by (cases r)
  with Some show ?thesis by (cases out) (simp_all add: gd_insert_def gd_continue_def)
qed (simp add: gd_insert_def)

fun pc_inserts :: "insert_pc \<Rightarrow> u64 \<Rightarrow> bool" where
  "pc_inserts (AtTombstones i out ks) j = (i = j)"
| "pc_inserts AtLogged j = False"

fun pc_evicts :: "insert_pc \<Rightarrow> u64 \<Rightarrow> bool" where
  "pc_evicts (AtTombstones i out ks) j = (j \<in> set ks)"
| "pc_evicts AtLogged j = False"

definition inserting :: "('c, 't) glz_shared \<Rightarrow> u64 \<Rightarrow> bool" where
  "inserting s j \<longleftrightarrow> (\<exists>p\<in>set (sh_pending s). pc_inserts (snd p) j)"

definition evicting :: "('c, 't) glz_shared \<Rightarrow> u64 \<Rightarrow> bool" where
  "evicting s j \<longleftrightarrow> (\<exists>p\<in>set (sh_pending s). pc_evicts (snd p) j)"

text \<open>
  A step overtakes an insert on another channel when it puts an image back that the insert has evicted and not
  yet tombstoned.
\<close>

definition overtakes :: "('c, 't) glz_shared \<Rightarrow> u8 \<Rightarrow> gd_op \<Rightarrow> bool" where
  "overtakes s ch op = (case op of GdInsert i px \<Rightarrow> ch \<notin> fst ` set (sh_pending s) \<and> evicting s i | _ \<Rightarrow> False)"

fun no_overtaking ::
  "('c, bytes) lru_ops \<Rightarrow> ('t, unit) lru_ops \<Rightarrow> (u8 \<times> gd_op) list \<Rightarrow> ('c, 't) glz_shared \<Rightarrow> bool" where
  "no_overtaking L T [] s = True"
| "no_overtaking L T ((ch, op) # ops) s =
     (\<not> overtakes s ch op \<and> (case gd_step L T ch op s of None \<Rightarrow> True | Some s' \<Rightarrow> no_overtaking L T ops s'))"

definition sh_inv :: "('c, bytes) lru_ops \<Rightarrow> ('t, unit) lru_ops \<Rightarrow> ('c, 't) glz_shared \<Rightarrow> bool" where
  "sh_inv L T s \<longleftrightarrow> gd_inv L T (sh_dict s) \<and> distinct (map fst (sh_pending s))
     \<and> (\<forall>j. j \<in> live L (sh_dict s) \<longrightarrow> \<not> evicting s j)
     \<and> (\<forall>j. j \<in> live L (sh_dict s) \<longrightarrow> j \<in> dead T (sh_dict s) \<longrightarrow> inserting s j)"

text \<open>An operation that only shrinks or reorders the images keeps the invariant.\<close>

lemma gd_inv_images:
  assumes "gd_inv L T d" and "lru_inv L b'" and "bl_max_entries b' = bl_max_entries (gd_images d)"
  shows "gd_inv L T (d\<lparr>gd_images := b'\<rparr>)"
  using assms unfolding gd_inv_def by auto

lemma sh_inv_images:
  assumes "sh_inv L T s" and "lru_inv L b'" and "bl_max_entries b' = bl_max_entries (gd_images (sh_dict s))"
    and "fst ` set (entries L b') \<subseteq> live L (sh_dict s)"
  shows "sh_inv L T (s\<lparr>sh_dict := (sh_dict s)\<lparr>gd_images := b'\<rparr>\<rparr>)"
proof -
  define s' where "s' = s\<lparr>sh_dict := (sh_dict s)\<lparr>gd_images := b'\<rparr>\<rparr>"
  have eq: "evicting s' = evicting s" "inserting s' = inserting s" "sh_pending s' = sh_pending s"
    by (simp_all add: s'_def fun_eq_iff evicting_def inserting_def)
  have inv: "gd_inv L T (sh_dict s')"
    using gd_inv_images [of L T "sh_dict s" b'] assms(1-3) by (simp add: s'_def sh_inv_def)
  have sub: "live L (sh_dict s') \<subseteq> live L (sh_dict s)" "dead T (sh_dict s') = dead T (sh_dict s)"
    using assms(4) by (simp_all add: s'_def)
  have "\<not> evicting s j" "j \<in> dead T (sh_dict s) \<longrightarrow> inserting s j" if "j \<in> live L (sh_dict s')" for j
    using assms(1) subsetD [OF sub(1) that] unfolding sh_inv_def by simp_all
  with assms(1) inv have "sh_inv L T s'" unfolding sh_inv_def eq sub(2) by simp
  then show ?thesis by (simp add: s'_def)
qed

lemma sh_inv_lru: "sh_inv L T s \<Longrightarrow> lru_inv L (gd_images (sh_dict s))"
  by (simp add: sh_inv_def gd_inv_def)

lemma gd_get_spec:
  assumes L: "lru_laws None L" and inv: "gd_inv L T d"
  shows "fst (gd_get L d i) = map_of (entries L (gd_images d)) i"
  using get_spec [OF L, of "gd_images d" i] inv by (auto simp: gd_inv_def gd_get_def split: prod.split)

lemma step_insert_inv:
  assumes L: "lru_laws None L" and inv: "sh_inv L T s" and free: "ch \<notin> fst ` set (sh_pending s)"
    and over: "\<not> evicting s i"
  shows "\<exists>s'. gd_step L T ch (GdInsert i px) s = Some s' \<and> sh_inv L T s'
    \<and> bl_cap_bytes (gd_images (sh_dict s')) = bl_cap_bytes (gd_images (sh_dict s))"
proof -
  from inv have "gd_inv L T (sh_dict s)" by (simp add: sh_inv_def)
  from insert_images_spec [OF L this, of i px] obtain out ks d where
    d: "gd_insert_images L (sh_dict s) i px = Some (out, ks, d)" "gd_inv L T d"
      "bl_cap_bytes (gd_images d) = bl_cap_bytes (gd_images (sh_dict s))" "gd_evicted_ids d = gd_evicted_ids (sh_dict s)"
    and ks: "i \<notin> set ks" "set ks = live L (sh_dict s) - live L d" "live L d \<subseteq> insert i (live L (sh_dict s))" by blast
  let ?s' = "\<lparr>sh_dict = d, sh_pending = (ch, AtTombstones i out ks) # sh_pending s\<rparr>"
  have pend: "evicting ?s' j \<longleftrightarrow> j \<in> set ks \<or> evicting s j" "inserting ?s' j \<longleftrightarrow> i = j \<or> inserting s j" for j
    by (auto simp: evicting_def inserting_def)
  have "\<not> evicting ?s' j" "j \<in> dead T d \<longrightarrow> inserting ?s' j" if "j \<in> live L d" for j
  proof -
    from subsetD [OF ks(3) that] have "j = i \<or> j \<in> live L (sh_dict s)" by simp
    moreover have "j \<notin> set ks" using that by (simp add: ks(2))
    ultimately show "\<not> evicting ?s' j" "j \<in> dead T d \<longrightarrow> inserting ?s' j"
      using inv over unfolding sh_inv_def pend d(4) by metis+
  qed
  then have "sh_inv L T ?s'" using inv free d(2) by (simp add: sh_inv_def)
  then show ?thesis using d(1,3) free by auto
qed

lemma pending_split:
  assumes "distinct (map fst xs)" and "map_of xs ch = Some pc"
  shows "(\<exists>p\<in>set xs. Q (snd p)) \<longleftrightarrow> Q pc \<or> (\<exists>p\<in>set (filter (\<lambda>p. fst p \<noteq> ch) xs). Q (snd p))"
proof -
  have "set xs = insert (ch, pc) (set (filter (\<lambda>p. fst p \<noteq> ch) xs))"
    using eq_key_imp_eq_value [OF assms(1), of ch] map_of_SomeD [OF assms(2)] by auto
  then show ?thesis by (rule ssubst) simp
qed

lemma step_continue_inv:
  assumes T: "tomb_laws T" and inv: "sh_inv L T s" and pc: "map_of (sh_pending s) ch = Some pc"
  shows "sh_inv L T (gd_continue T ch pc s)
    \<and> bl_cap_bytes (gd_images (sh_dict (gd_continue T ch pc s))) = bl_cap_bytes (gd_images (sh_dict s))"
proof -
  define rest where "rest = filter (\<lambda>p. fst p \<noteq> ch) (sh_pending s)"
  have dist: "distinct (map fst (sh_pending s))" and inv': "gd_inv L T (sh_dict s)"
    and ev: "\<And>j. j \<in> live L (sh_dict s) \<Longrightarrow> \<not> evicting s j"
    and dd: "\<And>j. j \<in> live L (sh_dict s) \<Longrightarrow> j \<in> dead T (sh_dict s) \<Longrightarrow> inserting s j"
    using inv by (simp_all add: sh_inv_def)
  note split = pending_split [OF dist pc, folded rest_def]
  have rest: "distinct (map fst rest)" "ch \<notin> fst ` set rest"
    using dist by (auto simp: rest_def distinct_map_filter)
  show ?thesis
  proof (cases pc)
    case (AtTombstones i out ks)
    note tomb = insert_tombstones_spec [OF T inv', where i = i and ks = ks]
    define s' where "s' = gd_continue T ch pc s"
    have s': "sh_dict s' = gd_insert_tombstones T (sh_dict s) i ks"
      "sh_pending s' = rest \<or> sh_pending s' = (ch, AtLogged) # rest"
      by (cases out; simp add: s'_def gd_continue_def AtTombstones rest_def)+
    have pend: "evicting s' j \<longleftrightarrow> (\<exists>p\<in>set rest. pc_evicts (snd p) j)"
      "inserting s' j \<longleftrightarrow> (\<exists>p\<in>set rest. pc_inserts (snd p) j)" for j
      using s'(2) by (elim disjE; simp add: evicting_def inserting_def)+
    have old: "evicting s j \<longleftrightarrow> j \<in> set ks \<or> evicting s' j" "inserting s j \<longleftrightarrow> i = j \<or> inserting s' j" for j
      unfolding pend by (simp_all add: evicting_def inserting_def split [of "\<lambda>p. pc_evicts p j"]
        split [of "\<lambda>p. pc_inserts p j"] AtTombstones)
    have "\<not> evicting s' j" "j \<in> dead T (sh_dict s') \<longrightarrow> inserting s' j" if "j \<in> live L (sh_dict s)" for j
    proof -
      have "j \<in> dead T (sh_dict s') \<longrightarrow> j \<in> (dead T (sh_dict s) \<union> set ks) - {i}"
        unfolding s'(1) by (rule impI) (rule subsetD [OF tomb(3)])
      with ev [OF that] dd [OF that] show "\<not> evicting s' j" "j \<in> dead T (sh_dict s') \<longrightarrow> inserting s' j"
        unfolding old by (simp, metis DiffD1 DiffD2 UnE singletonI)
    qed
    moreover have "distinct (map fst (sh_pending s'))" using s'(2) rest by auto
    ultimately show ?thesis using s'(1) tomb(1,2) unfolding sh_inv_def s'_def [symmetric] by simp
  next
    case AtLogged
    define s' where "s' = gd_continue T ch pc s"
    have s': "s' = \<lparr>sh_dict = gd_insert_logged (sh_dict s), sh_pending = rest\<rparr>"
      by (simp add: s'_def gd_continue_def AtLogged rest_def)
    have "evicting s' j = evicting s j" "inserting s' j = inserting s j" for j
      by (simp_all add: s' evicting_def inserting_def split [of "\<lambda>p. pc_evicts p j"]
        split [of "\<lambda>p. pc_inserts p j"] AtLogged)
    with inv rest(1) show ?thesis unfolding s'_def [symmetric] by (simp add: s' sh_inv_def)
  qed
qed

lemma gd_step_inv:
  assumes L: "lru_laws None L" and T: "tomb_laws T" and inv: "sh_inv L T s" and over: "\<not> overtakes s ch op"
  shows "\<exists>s'. gd_step L T ch op s = Some s' \<and> sh_inv L T s'
    \<and> bl_cap_bytes (gd_images (sh_dict s')) = bl_cap_bytes (gd_images (sh_dict s))"
proof -
  let ?b = "gd_images (sh_dict s)"
  note lru = sh_inv_lru [OF inv]
  have shrink: ?thesis if "gd_step L T ch op s = Some (if ch \<in> fst ` set (sh_pending s) then s
        else s\<lparr>sh_dict := (sh_dict s)\<lparr>gd_images := b'\<rparr>\<rparr>)"
      "lru_inv L b'" "bl_max_entries b' = bl_max_entries ?b" "bl_cap_bytes b' = bl_cap_bytes ?b"
      "fst ` set (entries L b') \<subseteq> live L (sh_dict s)" for b'
    using that sh_inv_images [OF inv that(2,3,5)] inv by auto
  show ?thesis
  proof (cases op)
    case (GdInsert i px)
    with step_insert_inv [OF L inv, of ch i px] over inv show ?thesis
      by (cases "ch \<in> fst ` set (sh_pending s)") (auto simp: overtakes_def)
  next
    case GdContinue
    with step_continue_inv [OF T inv, of ch] inv show ?thesis by (auto split: option.split)
  next
    case (GdGet i)
    note g = get_spec [OF L lru, of i]
    from g have "set (entries L (snd (bl_get L ?b i))) = set (entries L ?b)" by (blast dest: mset_eq_setD)
    then have "fst ` set (entries L (snd (bl_get L ?b i))) \<subseteq> live L (sh_dict s)" by simp
    from shrink [OF _ _ _ _ this] g GdGet show ?thesis by (simp add: gd_get_def split_beta)
  next
    case (GdRemove i)
    note r = remove_spec [OF L lru, of i]
    from r have "fst ` set (entries L (snd (bl_remove L ?b i))) \<subseteq> live L (sh_dict s)" by auto
    from shrink [OF _ _ _ _ this] r GdRemove show ?thesis by (simp add: gd_remove_def split_beta)
  next
    case (GdEvictOlder i)
    note r = retain_spec [OF L lru, of "\<lambda>j. j \<ge> i"]
    from r have "fst ` set (entries L (snd (retain_keys L ?b (\<lambda>j. j \<ge> i)))) \<subseteq> live L (sh_dict s)" by auto
    from shrink [OF _ _ _ _ this] r GdEvictOlder show ?thesis by (simp add: evict_older_than_def split_beta)
  next
    case GdClear
    note c = clear_spec [OF L lru]
    from c have "fst ` set (entries L (bl_clear L ?b)) \<subseteq> live L (sh_dict s)" by auto
    from shrink [OF _ _ _ _ this] c GdClear show ?thesis by (simp add: gd_clear_def bl_clear_def)
  qed
qed

lemma gd_run_inv:
  assumes "lru_laws None L" and "tomb_laws T" and "sh_inv L T s" and "no_overtaking L T ops s"
  shows "\<exists>s'. gd_run L T ops s = Some s' \<and> sh_inv L T s'
    \<and> bl_cap_bytes (gd_images (sh_dict s')) = bl_cap_bytes (gd_images (sh_dict s))"
  using assms(3,4)
proof (induction ops arbitrary: s)
  case (Cons a ops)
  obtain ch op where a: "a = (ch, op)" by (cases a)
  from gd_step_inv [OF assms(1,2) Cons.prems(1), of ch op] Cons.prems(2) obtain s1 where
    s1: "gd_step L T ch op s = Some s1" "sh_inv L T s1"
      "bl_cap_bytes (gd_images (sh_dict s1)) = bl_cap_bytes (gd_images (sh_dict s))" by (auto simp: a)
  with Cons.IH [of s1] Cons.prems(2) show ?case by (simp add: a)
qed simp

abbreviation quiet :: "('c, 't) glz_dictionary \<Rightarrow> ('c, 't) glz_shared" where
  "quiet d \<equiv> \<lparr>sh_dict = d, sh_pending = []\<rparr>"

lemma gd_new_inv:
  assumes L: "lru_laws None L" and T: "tomb_laws T" and "gd_with_cap L T cap = Some d" and "cap < 2 ^ 32"
  shows "sh_inv L T (quiet d) \<and> bl_cap_bytes (gd_images d) = cap"
proof -
  from assms(3) obtain b where b: "ByteBoundedLru_new L cap = Some b"
    "d = \<lparr>gd_images = b, gd_evicted_ids = lru_empty T, gd_first_eviction_logged = False\<rparr>"
    by (auto simp: gd_with_cap_def)
  with new_inv [OF L b(1)] assms(4) show ?thesis
    by (simp add: sh_inv_def gd_inv_def lru_iter_empty [OF T] PER_ENTRY_OVERHEAD_BYTES_def)
qed

section \<open>Properties\<close>

text \<open>C30: Let display channels share a new GLZ dictionary and insert, look up, remove, move the window and clear
  in any interleaving, lock by lock, in which no channel puts an image back while another has evicted it and not
  yet tombstoned it. Every such schedule runs to its end. An id reported as evicted by the cap is in the dictionary
  only while its own insert has not come to the tombstones, so a reference that fails at once loses at most an image
  whose insert was in progress; at most 4096 ids are remembered; and an insert that no other channel interrupts
  stores its image if it fits, forgets the tombstone of its id, and remembers all the ids it evicts, unless it evicts
  more than 4096 at once. Without the condition a live image can stay marked: see \<open>glz_tombstone_overtaken\<close>.\<close>

theorem glz_tombstones_sound:
  assumes "lru_laws None L" and "tomb_laws T" and "gd_with_cap L T cap = Some d0" and "cap < 2 ^ 32"
    and "no_overtaking L T ops \<lparr>sh_dict = d0, sh_pending = []\<rparr>"
  shows "\<exists>s. gd_run L T ops \<lparr>sh_dict = d0, sh_pending = []\<rparr> = Some s
    \<and> (\<forall>j. was_evicted T (sh_dict s) j \<longrightarrow> j \<in> set (image_ids L (sh_dict s)) \<longrightarrow> inserting s j)
    \<and> length (lru_iter T (gd_evicted_ids (sh_dict s))) \<le> EVICTED_ID_TOMBSTONES
    \<and> (\<exists>d'. gd_insert L T (\<lambda>n d. d) (sh_dict s) i px = Some d' \<and> \<not> was_evicted T d' i
        \<and> (length px \<le> cap \<longrightarrow> fst (gd_get L d' i) = Some px)
        \<and> (let gone = set (image_ids L (sh_dict s)) - set (image_ids L d') in
             card gone \<le> EVICTED_ID_TOMBSTONES \<longrightarrow> (\<forall>j\<in>gone. was_evicted T d' j)))"
proof -
  note new = gd_new_inv [OF assms(1-4)]
  from gd_run_inv [OF assms(1,2) conjunct1 [OF new] assms(5)] new obtain s where
    s: "gd_run L T ops (quiet d0) = Some s" "sh_inv L T s" "bl_cap_bytes (gd_images (sh_dict s)) = cap" by auto
  have ids: "set (image_ids L d) = live L d" for d :: "('a, 'b) glz_dictionary"
    by (simp add: image_ids_def bl_keys_def)
  have dead: "was_evicted T d j \<longleftrightarrow> j \<in> dead T d" for d :: "('a, 'b) glz_dictionary" and j
    by (simp add: was_evicted_def lru_contains_iff [OF assms(2)])
  have inv: "gd_inv L T (sh_dict s)" using s(2) by (simp add: sh_inv_def)
  from gd_insert_alone [OF assms(1,2) inv, of i px] obtain d' where
    d': "gd_insert L T (\<lambda>n d. d) (sh_dict s) i px = Some d'" "gd_inv L T d'" "i \<notin> dead T d'"
      "length px \<le> cap \<longrightarrow> map_of (entries L (gd_images d')) i = Some px"
      "card (live L (sh_dict s) - live L d') \<le> EVICTED_ID_TOMBSTONES \<longrightarrow> live L (sh_dict s) - live L d' \<subseteq> dead T d'"
    unfolding s(3) by blast
  have "\<forall>j. j \<in> dead T (sh_dict s) \<longrightarrow> j \<in> live L (sh_dict s) \<longrightarrow> inserting s j"
    "length (lru_iter T (gd_evicted_ids (sh_dict s))) \<le> EVICTED_ID_TOMBSTONES"
    using s(2) unfolding sh_inv_def gd_inv_def by blast+
  then show ?thesis using s(1) d' gd_get_spec [OF assms(1) d'(2), of i] unfolding ids dead Let_def by auto
qed

theorem glz_tombstones_sound_witness:
  "let L = list_lru None; T = list_lru (Some EVICTED_ID_TOMBSTONES);
       ops = [(0, GdInsert 1 [0, 0, 0, 255]), (0, GdContinue), (0, GdInsert 2 [9]), (0, GdContinue),
         (1, GdGet 1), (0, GdInsert 3 [8]), (1, GdInsert 4 []), (1, GdContinue), (0, GdContinue), (1, GdEvictOlder 2)]
   in \<exists>d0 s. gd_with_cap L T 192 = Some d0 \<and> no_overtaking L T ops (quiet d0) \<and> gd_run L T ops (quiet d0) = Some s
     \<and> (\<forall>j. was_evicted T (sh_dict s) j \<longrightarrow> j \<in> set (image_ids L (sh_dict s)) \<longrightarrow> inserting s j)"
proof -
  let ?L = "list_lru None" and ?T = "list_lru (Some EVICTED_ID_TOMBSTONES)"
  let ?ops = "[(0, GdInsert 1 [0, 0, 0, 255]), (0, GdContinue), (0, GdInsert 2 [9]), (0, GdContinue),
    (1, GdGet 1), (0, GdInsert 3 [8]), (1, GdInsert 4 []), (1, GdContinue), (0, GdContinue), (1, GdEvictOlder 2)]"
  let ?d0 = "the (gd_with_cap ?L ?T 192)"
  have d0: "gd_with_cap ?L ?T 192 = Some ?d0"
    by (simp add: gd_with_cap_def ByteBoundedLru_new_def with_caps_def PER_ENTRY_OVERHEAD_BYTES_def)
  have over: "no_overtaking ?L ?T ?ops (quiet ?d0)" by code_simp
  from glz_tombstones_sound [OF list_lru_laws list_lru_laws d0 _ over, of 5 "[]"] d0 over
  show ?thesis unfolding Let_def by auto
qed

text \<open>
  The condition cannot be dropped. Channel 0 inserts image 3 and evicts image 1; before it comes to the
  tombstones, channel 1 inserts image 1 again and finishes; then channel 0 tombstones image 1. No insert is in
  progress, the dictionary holds image 1, and \<open>was_evicted\<close> says it was dropped and is not back.
\<close>

theorem glz_tombstone_overtaken:
  "let L = list_lru None; T = list_lru (Some EVICTED_ID_TOMBSTONES);
       ops = [(0, GdInsert 1 [7]), (0, GdContinue), (0, GdInsert 2 [9]), (0, GdContinue), (0, GdInsert 3 [8]),
         (1, GdInsert 1 [7]), (1, GdContinue), (1, GdContinue), (0, GdContinue), (0, GdContinue)]
   in case Option.bind (gd_with_cap L T 192) (\<lambda>d0. gd_run L T ops (quiet d0)) of
        None \<Rightarrow> False
      | Some s \<Rightarrow> sh_pending s = [] \<and> fst (gd_get L (sh_dict s) 1) = Some [7] \<and> was_evicted T (sh_dict s) 1"
  by code_simp

end
