(* ===== verification/Glz.thy ===== *)
theory Glz
  imports Glz_Dictionary Lz
begin

text \<open>
  The GLZ decoder (\<open>shakenfist-spice-compression/src/glz.rs\<close>). It shares its literal runs, run
  lengths and same-image copies with LZ, whose definitions are used for them, and adds copies out of
  earlier images, which it looks up in the shared dictionary and may wait for.

  Other channels use the dictionary while this one decodes: \<open>env n\<close> is what they do to it before this
  decoder takes its lock for the \<open>n\<close>-th time, and \<open>wakes k\<close> how many notifications reach its \<open>k\<close>-th
  wait before the deadline.
\<close>

section \<open>The code\<close>

definition GLZ_MAGIC :: bytes where "GLZ_MAGIC = LZ_MAGIC"

record ('c, 't) glz_state =
  gs_dict :: "('c, 't) glz_dictionary"
  gs_locks :: nat
  gs_waits :: nat

text \<open>A lookup under the lock.\<close>

definition glz_get ::
  "('c, bytes) lru_ops \<Rightarrow> ('c, 't) glz_env \<Rightarrow> u64 \<Rightarrow> ('c, 't) glz_state \<Rightarrow> bytes option \<times> ('c, 't) glz_state" where
  "glz_get L env source_id g =
     (let (r, d) = gd_get L (env (gs_locks g) (gs_dict g)) source_id in
      (r, g\<lparr>gs_dict := d, gs_locks := gs_locks g + 1\<rparr>))"

primrec glz_wait ::
  "('c, bytes) lru_ops \<Rightarrow> ('c, 't) glz_env \<Rightarrow> u64 \<Rightarrow> nat \<Rightarrow> ('c, 't) glz_state
    \<Rightarrow> bytes option \<times> ('c, 't) glz_state" where
  "glz_wait L env source_id 0 g = (None, g)"
| "glz_wait L env source_id (Suc n) g =
     (case glz_get L env source_id g of
        (Some p, g') \<Rightarrow> (Some p, g')
      | (None, g') \<Rightarrow> glz_wait L env source_id n g')"

definition glz_lookup ::
  "('c, bytes) lru_ops \<Rightarrow> ('t, unit) lru_ops \<Rightarrow> ('c, 't) glz_env \<Rightarrow> (nat \<Rightarrow> nat) \<Rightarrow> u64
    \<Rightarrow> ('c, 't) glz_state \<Rightarrow> bytes option \<times> ('c, 't) glz_state" where
  "glz_lookup L T env wakes source_id g =
     (case glz_get L env source_id g of
        (Some p, g') \<Rightarrow> (Some p, g')
      | (None, g') \<Rightarrow>
          (let d = env (gs_locks g') (gs_dict g'); g'' = g'\<lparr>gs_dict := d, gs_locks := gs_locks g' + 1\<rparr> in
           if was_evicted T d source_id then (None, g'')
           else glz_wait L env source_id (wakes (gs_waits g''))
                  (g''\<lparr>gs_waits := gs_waits g'' + 1\<rparr>)))"

text \<open>The extra bytes of an image distance: fewer when the data ends.\<close>

primrec glz_dist_bytes :: "bytes \<Rightarrow> nat \<Rightarrow> nat \<Rightarrow> nat \<Rightarrow> nat \<Rightarrow> nat \<times> nat" where
  "glz_dist_bytes data shift 0 off dist = (off, dist)"
| "glz_dist_bytes data shift (Suc n) off dist =
     (if off \<ge> length data then (off, dist)
      else glz_dist_bytes data (shift + 8) n (off + 1) (dist + unat (data ! off) * 2 ^ shift))"

text \<open>
  A reference after its control byte: length, pixel offset, image distance and the offset of what
  follows; \<open>None\<close> is a \<open>break\<close> out of the decoding loop.
\<close>

definition glz_ref :: "bytes \<Rightarrow> u8 \<Rightarrow> nat \<Rightarrow> (nat \<times> nat \<times> nat \<times> nat) option" where
  "glz_ref data ctrl off0 =
     (let len0 = unat (drop_bit 5 ctrl);
          pixel_flag = (drop_bit 4 ctrl) AND 1;
          (off1, len) = (if len0 = 7 then lz_run_length data off0 len0 else (off0, len0)) in
      if off1 \<ge> length data then None
      else if off1 + 1 \<ge> length data then None
      else
        let pixel_offset = unat (ctrl AND 0x0F) + unat (data ! off1) * 16;
            code2 = data ! (off1 + 1);
            image_flag = unat (drop_bit 6 code2 AND 3) in
        if pixel_flag = 0
        then (let (off2, dist) = glz_dist_bytes data 6 image_flag (off1 + 2) (unat (code2 AND 0x3F)) in
              Some (len, pixel_offset, dist, off2))
        else
          let pf2 = drop_bit 5 code2 AND 1;
              pixel_offset' = pixel_offset + unat (code2 AND 0x1F) * 4096;
              (off2, dist) = glz_dist_bytes data 0 image_flag (off1 + 2) 0 in
          if pf2 \<noteq> 0
          then (if off2 \<ge> length data then None
                else Some (len, pixel_offset' + unat (data ! off2) * 2 ^ 17, dist, off2 + 1))
          else Some (len, pixel_offset', dist, off2))"

primrec glz_copy_prev :: "nat \<Rightarrow> bytes \<Rightarrow> nat \<Rightarrow> nat \<Rightarrow> lz_state \<Rightarrow> lz_state" where
  "glz_copy_prev sz prev pi_idx 0 s = s"
| "glz_copy_prev sz prev pi_idx (Suc n) s =
     (if lz_idx s + 4 > sz \<or> pi_idx + 4 > length prev then s
      else glz_copy_prev sz prev (pi_idx + 4) n
        (s\<lparr>lz_out := set_pixel (lz_out s) (lz_idx s) (prev ! pi_idx) (prev ! (pi_idx + 1))
             (prev ! (pi_idx + 2)) (prev ! (pi_idx + 3)), lz_idx := lz_idx s + 4\<rparr>))"

definition glz_self :: "nat \<Rightarrow> nat \<Rightarrow> nat \<Rightarrow> lz_state \<Rightarrow> lz_error + lz_state" where
  "glz_self sz pixel_offset len s =
     (let po = pixel_offset + 1; src = wrapping_sub (lz_idx s) (po * 4) in
      if po = 1 then Inr (lz_repeat sz src len s) else lz_copy sz src len s)"

definition glz_step ::
  "('c, bytes) lru_ops \<Rightarrow> ('t, unit) lru_ops \<Rightarrow> ('c, 't) glz_env \<Rightarrow> (nat \<Rightarrow> nat) \<Rightarrow> u64 \<Rightarrow> bytes \<Rightarrow> nat
    \<Rightarrow> lz_state \<Rightarrow> ('c, 't) glz_state \<Rightarrow> lz_error + (bool \<times> lz_state \<times> ('c, 't) glz_state)" where
  "glz_step L T env wakes image_id data sz s g =
     (let ctrl = data ! lz_off s; s' = s\<lparr>lz_off := lz_off s + 1\<rparr> in
      if ctrl < LZ_MAX_COPY then Inr (True, lz_literals data sz (unat ctrl + 1) s', g)
      else case glz_ref data ctrl (lz_off s') of
        None \<Rightarrow> Inr (False, s', g)
      | Some (len, pixel_offset, image_dist, off) \<Rightarrow>
          (let s'' = s'\<lparr>lz_off := off\<rparr> in
           if image_dist = 0
           then (case glz_self sz pixel_offset len s'' of Inl e \<Rightarrow> Inl e | Inr t \<Rightarrow> Inr (True, t, g))
           else case glz_lookup L T env wakes (image_id - word_of_nat image_dist) g of
             (None, g') \<Rightarrow> Inr (True, s''\<lparr>lz_idx := lz_idx s'' + len * 4\<rparr>, g')
           | (Some prev, g') \<Rightarrow> Inr (True, glz_copy_prev sz prev (pixel_offset * 4) len s'', g')))"

subsection \<open>The loop ends: every step consumes data\<close>

lemma glz_dist_bytes_off: "glz_dist_bytes data sh n off dist = (off', dist') \<Longrightarrow> off \<le> off'"
proof (induction n arbitrary: sh off dist)
  case (Suc n)
  from Suc.prems Suc.IH [of "sh + 8" "off + 1"] show ?case by (force split: if_splits)
qed simp

lemma glz_ref_off:
  assumes "glz_ref data ctrl off0 = Some (len, po, dist, off)"
  shows "off0 < off"
proof -
  let ?len0 = "unat (drop_bit 5 ctrl)"
  obtain off1 len1 where r: "(if ?len0 = 7 then lz_run_length data off0 ?len0 else (off0, ?len0)) = (off1, len1)"
    by force
  then have "off0 \<le> off1" using lz_run_length_off [of off0 data ?len0] by (auto split: if_splits)
  moreover from assms have "off1 + 2 \<le> off"
    unfolding glz_ref_def Let_def r prod.case
    by (auto split: if_splits prod.splits dest!: glz_dist_bytes_off)
  ultimately show ?thesis by simp
qed

lemma glz_off_copy_prev [simp]: "lz_off (glz_copy_prev sz prev p n s) = lz_off s"
  by (induction n arbitrary: p s) simp_all

lemma glz_self_off: "glz_self sz po len s = Inr t \<Longrightarrow> lz_off t = lz_off s"
  by (auto simp: glz_self_def Let_def dest: lz_off_copy split: if_splits)

lemma glz_step_off:
  assumes "glz_step L T env wakes image_id data sz s g = Inr (True, s', g')"
  shows "lz_off s < lz_off s'"
  using assms lz_off_literals [of "s\<lparr>lz_off := lz_off s + 1\<rparr>" data sz "unat (data ! lz_off s) + 1"]
  by (auto simp: glz_step_def Let_def dest!: glz_ref_off glz_self_off
      split: if_splits option.splits prod.splits sum.splits)

function glz_loop ::
  "('c, bytes) lru_ops \<Rightarrow> ('t, unit) lru_ops \<Rightarrow> ('c, 't) glz_env \<Rightarrow> (nat \<Rightarrow> nat) \<Rightarrow> u64 \<Rightarrow> bytes \<Rightarrow> nat
    \<Rightarrow> lz_state \<Rightarrow> ('c, 't) glz_state \<Rightarrow> lz_error + (lz_state \<times> ('c, 't) glz_state)" where
  "glz_loop L T env wakes image_id data sz s g =
     (if lz_idx s < sz \<and> lz_off s < length data then
        (case glz_step L T env wakes image_id data sz s g of
           Inl e \<Rightarrow> Inl e
         | Inr (False, s', g') \<Rightarrow> Inr (s', g')
         | Inr (True, s', g') \<Rightarrow> glz_loop L T env wakes image_id data sz s' g')
      else Inr (s, g))"
  by pat_completeness auto
termination
  by (relation "measure (\<lambda>(L, T, env, wakes, i, data, sz, s, g). length data - lz_off s)")
    (auto dest: glz_step_off)

declare glz_loop.simps [simp del]

definition glz_finish :: "u32 \<Rightarrow> u32 \<Rightarrow> bool \<Rightarrow> u64 \<Rightarrow> u32 \<Rightarrow> bytes \<Rightarrow> lz_error + decompressed_image" where
  "glz_finish width height top_down image_id win_head_dist out =
     (let output = (if \<not> top_down then flip_rows (unat width * 4) (unat height) out else out) in
      case DecompressedImage_new_glz width height output image_id win_head_dist of
        None \<Rightarrow> Inl LzRefused | Some im \<Rightarrow> Inr im)"

definition decompress_glz ::
  "('c, bytes) lru_ops \<Rightarrow> ('t, unit) lru_ops \<Rightarrow> ('c, 't) glz_env \<Rightarrow> (nat \<Rightarrow> nat) \<Rightarrow> bytes
    \<Rightarrow> ('c, 't) glz_dictionary \<Rightarrow> lz_error + (decompressed_image \<times> ('c, 't) glz_dictionary)" where
  "decompress_glz L T env wakes data d =
     (if length data < 33 then Inl LzShort
      else if take 4 data \<noteq> GLZ_MAGIC then Inl LzMagic
      else if (be_word (take 2 (drop 4 data)) :: u16) \<noteq> 1 then Inl LzVersion
      else let type_packed = data ! 8;
               top_down = (drop_bit 4 type_packed AND 1) \<noteq> 0;
               width = be_word (take 4 (drop 9 data)) :: u32;
               height = be_word (take 4 (drop 13 data)) :: u32;
               image_id = be_word (take 8 (drop 21 data)) :: u64;
               win_head_dist = be_word (take 4 (drop 29 data)) :: u32 in
        case rgba_len (unat width) (unat height) of
          None \<Rightarrow> Inl LzRefused
        | Some output_size \<Rightarrow>
            (case glz_loop L T env wakes image_id data output_size
                    \<lparr>lz_out = replicate output_size 0, lz_idx = 0, lz_off = 33\<rparr>
                    \<lparr>gs_dict = d, gs_locks = 0, gs_waits = 0\<rparr> of
               Inl e \<Rightarrow> Inl e
             | Inr (s, g) \<Rightarrow>
                 (case glz_finish width height top_down image_id win_head_dist (lz_out s) of
                    Inl e \<Rightarrow> Inl e | Inr im \<Rightarrow> Inr (im, gs_dict g))))"

section \<open>Specification: token streams over earlier images\<close>

text \<open>
  A GLZ stream as an encoder sees it: literal runs and references. A reference has an image
  distance, an offset and a length; distance 0 is the image itself, where the offset counts pixels
  back, and otherwise the offset counts from the start of the image that many ids before. The flag
  chooses between the two encodings of a reference, with short or with extended offsets.
\<close>

datatype glz_token = GLits "(u8 \<times> u8 \<times> u8) list" | GRef bool nat nat nat

type_synonym glz_view = "u64 \<Rightarrow> bytes list option"

fun glz_expand :: "glz_view \<Rightarrow> u64 \<Rightarrow> bytes list \<Rightarrow> glz_token \<Rightarrow> bytes list" where
  "glz_expand V i ps (GLits ls) = ps @ map lz_rgba ls"
| "glz_expand V i ps (GRef ext dist off len) =
     (if dist = 0 then lz_back off len ps
      else ps @ take len (drop off (the (V (i - word_of_nat dist)))))"

definition glz_field :: "nat \<Rightarrow> nat \<Rightarrow> nat" where
  "glz_field dist off = (if dist = 0 then off - 1 else off)"

fun glz_token_ok :: "glz_view \<Rightarrow> u64 \<Rightarrow> bytes list \<Rightarrow> glz_token \<Rightarrow> bool" where
  "glz_token_ok V i ps (GLits ls) \<longleftrightarrow> 1 \<le> length ls \<and> length ls \<le> 32"
| "glz_token_ok V i ps (GRef ext dist off len) \<longleftrightarrow>
     1 \<le> len \<and> (if ext then dist < 2 ^ 24 \<and> glz_field dist off < 2 ^ 25
                 else dist < 2 ^ 30 \<and> glz_field dist off < 2 ^ 12)
     \<and> (if dist = 0 then 1 \<le> off \<and> off \<le> length ps
        else \<exists>P. V (i - word_of_nat dist) = Some P \<and> pixels4 P \<and> off + len \<le> length P)"

fun glz_tokens_ok :: "glz_view \<Rightarrow> u64 \<Rightarrow> bytes list \<Rightarrow> glz_token list \<Rightarrow> bool" where
  "glz_tokens_ok V i ps [] \<longleftrightarrow> True"
| "glz_tokens_ok V i ps (t # ts) \<longleftrightarrow> glz_token_ok V i ps t \<and> glz_tokens_ok V i (glz_expand V i ps t) ts"

text \<open>The bytes of a number below \<open>2 ^ 24\<close>, least significant first, and how many there are.\<close>

definition glz_nb :: "nat \<Rightarrow> nat" where
  "glz_nb x = (if x = 0 then 0 else if x < 256 then 1 else if x < 65536 then 2 else 3)"

definition glz_le :: "nat \<Rightarrow> bytes" where
  "glz_le x = take (glz_nb x) [word_of_nat (x mod 256), word_of_nat (x div 256 mod 256), word_of_nat (x div 65536)]"

definition glz_ctrl :: "bool \<Rightarrow> nat \<Rightarrow> nat \<Rightarrow> u8" where
  "glz_ctrl ext n len = word_of_nat (min len 7 * 32 + of_bool ext * 16 + n mod 16)"

definition glz_tail :: "bool \<Rightarrow> nat \<Rightarrow> nat \<Rightarrow> bytes" where
  "glz_tail ext n dist =
     word_of_nat (n div 16 mod 256) #
       (if ext
        then word_of_nat (glz_nb dist * 64 + of_bool (n \<ge> 2 ^ 17) * 32 + n div 4096 mod 32)
               # glz_le dist @ (if n \<ge> 2 ^ 17 then [word_of_nat (n div 2 ^ 17)] else [])
        else word_of_nat (glz_nb (dist div 64) * 64 + dist mod 64) # glz_le (dist div 64))"

fun glz_encode :: "glz_token \<Rightarrow> bytes" where
  "glz_encode (GLits ls) = lz_encode (Lits ls)"
| "glz_encode (GRef ext dist off len) =
     (let n = glz_field dist off in glz_ctrl ext n len # lz_len_bytes len @ glz_tail ext n dist)"

section \<open>References are read back\<close>

lemma unat_byte: "c < 256 \<Longrightarrow> unat (word_of_nat c :: u8) = c"
  by (simp add: unat_of_nat)

lemma byte_fields:
  assumes "unat (w :: u8) = c"
  shows "unat (drop_bit k w) = c div 2 ^ k"
    and "unat (drop_bit k w AND 1) = c div 2 ^ k mod 2" and "unat (drop_bit k w AND 3) = c div 2 ^ k mod 4"
    and "unat (w AND 0x0F) = c mod 16" and "unat (w AND 0x1F) = c mod 32" and "unat (w AND 0x3F) = c mod 64"
proof -
  have d: "unat (drop_bit k w) = c div 2 ^ k" for k
    unfolding unat_drop_bit_eq by (simp add: assms drop_bit_eq_div)
  have m: "unat (x AND mask j) = unat x mod 2 ^ j" for x :: u8 and j
    unfolding take_bit_eq_mask [symmetric] unsigned_take_bit_eq by (simp add: take_bit_eq_mod)
  show "unat (drop_bit k w) = c div 2 ^ k" by (rule d)
  show "unat (drop_bit k w AND 1) = c div 2 ^ k mod 2"
    using m [of "drop_bit k w" 1] d by (simp add: mask_eq_exp_minus_1)
  show "unat (drop_bit k w AND 3) = c div 2 ^ k mod 4"
    using m [of "drop_bit k w" 2] d by (simp add: mask_eq_exp_minus_1)
  show "unat (w AND 0x0F) = c mod 16" using m [of w 4] assms by (simp add: mask_eq_exp_minus_1)
  show "unat (w AND 0x1F) = c mod 32" using m [of w 5] assms by (simp add: mask_eq_exp_minus_1)
  show "unat (w AND 0x3F) = c mod 64" using m [of w 6] assms by (simp add: mask_eq_exp_minus_1)
qed

lemma length_glz_le [simp]: "length (glz_le x) = glz_nb x"
  by (simp add: glz_le_def glz_nb_def)

lemma glz_dist_decode:
  assumes "x < 2 ^ 24"
  shows "glz_dist_bytes (pre @ glz_le x @ post) sh (glz_nb x) (length pre) d
       = (length pre + glz_nb x, d + x * 2 ^ sh)"
proof -
  define a b c where "a = x mod 256" and "b = x div 256 mod 256" and "c = x div 65536"
  have e: "x = a + b * 256 + c * 65536"
  proof -
    have "c = x div 256 div 256" by (simp add: c_def div_mult2_eq [symmetric])
    moreover have "x = x div 256 * 256 + a" "x div 256 = x div 256 div 256 * 256 + b"
      by (simp_all add: a_def b_def)
    ultimately show ?thesis by linarith
  qed
  have "a < 256" "b < 256" "c < 256" using assms by (simp_all add: a_def b_def c_def)
  then have u: "unat (word_of_nat a :: u8) = a" "unat (word_of_nat b :: u8) = b"
    "unat (word_of_nat c :: u8) = c" by (simp_all only: unat_byte)
  have le: "glz_le x = take (glz_nb x) [word_of_nat a, word_of_nat b, word_of_nat c]"
    by (simp add: glz_le_def a_def b_def c_def)
  consider "x = 0" | "0 < x" "x < 256" | "256 \<le> x" "x < 65536" | "65536 \<le> x" by linarith
  then show ?thesis
  proof cases
    case 2
    then have "b = 0" "c = 0" by (simp_all add: b_def c_def)
    with e have x: "x = a" by simp
    have l: "glz_le x = [word_of_nat a]" "glz_nb x = 1" using 2 by (simp_all add: le glz_nb_def)
    show ?thesis unfolding l using u by (simp add: x nth_append)
  next
    case 3
    then have "c = 0" by (simp add: c_def)
    with e have x: "x = a + b * 256" by simp
    have l: "glz_le x = [word_of_nat a, word_of_nat b]" "glz_nb x = Suc (Suc 0)"
      using 3 by (simp_all add: le glz_nb_def)
    show ?thesis unfolding l using u by (simp add: x nth_append power_add algebra_simps)
  next
    case 4
    have l: "glz_le x = [word_of_nat a, word_of_nat b, word_of_nat c]" "glz_nb x = Suc (Suc (Suc 0))"
      using 4 by (simp_all add: le glz_nb_def)
    show ?thesis unfolding l using u by (subst e) (simp add: nth_append power_add algebra_simps)
  qed (simp add: glz_nb_def)
qed

lemma glz_ctrl_fields:
  assumes "1 \<le> len"
  shows "unat (drop_bit 5 (glz_ctrl ext n len)) = min len 7"
    and "drop_bit 4 (glz_ctrl ext n len) AND 1 = 0 \<longleftrightarrow> \<not> ext"
    and "unat (glz_ctrl ext n len AND 0x0F) = n mod 16"
    and "\<not> glz_ctrl ext n len < LZ_MAX_COPY"
proof -
  define c where "c = min len 7 * 32 + of_bool ext * 16 + n mod 16"
  define m where "m = n mod 16"
  have m: "m < 16" by (simp add: m_def)
  have c: "c = 32 * min len 7 + (16 * of_bool ext + m)" by (simp add: c_def m_def)
  have lo: "16 * of_bool ext + m < 32" using m by (cases ext) simp_all
  have "min len 7 \<le> 7" by simp
  then have "c < 256" using c lo by linarith
  then have u: "unat (glz_ctrl ext n len) = c" by (simp only: glz_ctrl_def c_def unat_byte)
  note f = byte_fields [OF u]
  have d5: "c div 32 = min len 7" using lo by (simp add: c)
  show "unat (drop_bit 5 (glz_ctrl ext n len)) = min len 7" using f(1) [of 5] d5 by simp
  define q where "q = 2 * min len 7 + of_bool ext"
  have "c = 16 * q + m" by (simp add: c q_def)
  then have "c div 16 = q" "c mod 16 = m" using m by simp_all
  moreover have "q mod 2 = of_bool ext" by (simp add: q_def)
  ultimately have "c div 16 mod 2 = of_bool ext" "c mod 16 = m" by simp_all
  then show "drop_bit 4 (glz_ctrl ext n len) AND 1 = 0 \<longleftrightarrow> \<not> ext"
    and "unat (glz_ctrl ext n len AND 0x0F) = n mod 16"
    using f(2) [of 4] f(4) by (auto simp: unat_eq_0 [symmetric] m_def)
  have "32 \<le> c" using assms c by simp
  then show "\<not> glz_ctrl ext n len < LZ_MAX_COPY" by (simp add: word_less_nat_alt u LZ_MAX_COPY_def)
qed

lemma glz_nb_le: "glz_nb x \<le> 3"
  by (simp add: glz_nb_def)

lemma code2_fields:
  assumes "k < 4" and "r < 64"
  shows "unat (drop_bit 6 (word_of_nat (k * 64 + r) :: u8) AND 3) = k"
    and "unat ((word_of_nat (k * 64 + r) :: u8) AND 0x3F) = r"
    and "unat ((word_of_nat (k * 64 + r) :: u8) AND 0x1F) = r mod 32"
    and "drop_bit 5 (word_of_nat (k * 64 + r) :: u8) AND 1 = 0 \<longleftrightarrow> r < 32"
proof -
  define c where "c = k * 64 + r"
  have "c < 256" using assms by (simp add: c_def)
  then have u: "unat (word_of_nat c :: u8) = c" by (rule unat_byte)
  note f = byte_fields [OF u]
  have "c div 64 = k" "c mod 64 = r" "c mod 32 = r mod 32" using assms by (simp_all add: c_def mod_add_eq [symmetric])
  moreover have "c div 32 = 2 * k + r div 32" using assms by (simp add: c_def)
  moreover have "r div 32 mod 2 = 0 \<longleftrightarrow> r < 32" using assms(2) by auto
  ultimately show "unat (drop_bit 6 (word_of_nat (k * 64 + r) :: u8) AND 3) = k"
    and "unat ((word_of_nat (k * 64 + r) :: u8) AND 0x3F) = r"
    and "unat ((word_of_nat (k * 64 + r) :: u8) AND 0x1F) = r mod 32"
    and "drop_bit 5 (word_of_nat (k * 64 + r) :: u8) AND 1 = 0 \<longleftrightarrow> r < 32"
    using f(3) [of 6] f(5,6) f(2) [of 5] assms unfolding c_def [symmetric]
    by (simp_all add: unat_eq_0 [symmetric])
qed

lemma glz_ref_eq:
  assumes "(if unat (drop_bit 5 ctrl) = 7 then lz_run_length data off0 (unat (drop_bit 5 ctrl))
            else (off0, unat (drop_bit 5 ctrl))) = (off1, len)"
    and "drop off1 data = c1 # c2 # rest"
  shows "glz_ref data ctrl off0 =
     (let po = unat (ctrl AND 0x0F) + unat c1 * 16; fl = unat (drop_bit 6 c2 AND 3) in
      if drop_bit 4 ctrl AND 1 = 0
      then (case glz_dist_bytes data 6 fl (off1 + 2) (unat (c2 AND 0x3F)) of (off2, dist) \<Rightarrow>
              Some (len, po, dist, off2))
      else case glz_dist_bytes data 0 fl (off1 + 2) 0 of (off2, dist) \<Rightarrow>
          if drop_bit 5 c2 AND 1 \<noteq> 0
          then (if off2 \<ge> length data then None
                else Some (len, po + unat (c2 AND 0x1F) * 4096 + unat (data ! off2) * 2 ^ 17, dist, off2 + 1))
          else Some (len, po + unat (c2 AND 0x1F) * 4096, dist, off2))"
proof -
  have "off1 + 1 < length data" using arg_cong [OF assms(2), of length] by simp
  moreover from this have "data ! off1 = c1" "data ! (off1 + 1) = c2"
    using assms(2) nth_drop [of off1 data 0] nth_drop [of off1 data 1] by simp_all
  ultimately show ?thesis
    unfolding glz_ref_def Let_def assms(1) by (simp split: prod.splits)
qed

lemma field_split:
  fixes n :: nat
  shows "n mod 16 + n div 16 mod 256 * 16 + n div 4096 mod 32 * 4096 + n div 2 ^ 17 * 2 ^ 17 = n"
proof -
  define a b c where "a = n div 16" and "b = n div 4096" and "c = n div 2 ^ 17"
  have "b = a div 256" "c = b div 32" by (simp_all add: a_def b_def c_def div_mult2_eq [symmetric])
  then have "n = a * 16 + n mod 16" "a = b * 256 + a mod 256" "b = c * 32 + b mod 32"
    by (simp_all add: a_def)
  then show ?thesis unfolding a_def [symmetric] b_def [symmetric] c_def [symmetric] by simp
qed

lemma glz_ref_decode:
  assumes "1 \<le> len"
    and "if ext then dist < 2 ^ 24 \<and> n < 2 ^ 25 else dist < 2 ^ 30 \<and> n < 2 ^ 12"
  shows "glz_ref (pre @ lz_len_bytes len @ glz_tail ext n dist @ post) (glz_ctrl ext n len) (length pre)
       = Some (len, n, dist, length (pre @ lz_len_bytes len @ glz_tail ext n dist))"
proof -
  let ?data = "pre @ lz_len_bytes len @ glz_tail ext n dist @ post"
  let ?pre = "pre @ lz_len_bytes len" and ?c = "glz_ctrl ext n len"
  define r where "r = (if ext then of_bool (n \<ge> 2 ^ 17) * 32 + n div 4096 mod 32 else dist mod 64)"
  define x where "x = (if ext then dist else dist div 64)"
  define k where "k = glz_nb x"
  define c1 c2 :: u8 where "c1 = word_of_nat (n div 16 mod 256)" and "c2 = word_of_nat (k * 64 + r)"
  define le where "le = glz_le x"
  define hi :: bytes where "hi = (if ext \<and> n \<ge> 2 ^ 17 then [word_of_nat (n div 2 ^ 17)] else [])"
  have tail: "glz_tail ext n dist = c1 # c2 # le @ hi"
    by (simp add: glz_tail_def c1_def c2_def k_def r_def le_def hi_def x_def)
  note cf = glz_ctrl_fields [OF assms(1), of ext n]
  have len: "(if unat (drop_bit 5 ?c) = 7 then lz_run_length ?data (length pre) (unat (drop_bit 5 ?c))
      else (length pre, unat (drop_bit 5 ?c))) = (length ?pre, len)"
    unfolding cf(1) length_append by (rule lz_len_decode [OF assms(1)])
  have ref: "drop (length ?pre) ?data = c1 # c2 # le @ hi @ post" by (simp add: tail)
  have kr: "k < 4" "r < 64"
    using glz_nb_le [of x] by (auto simp: k_def r_def)
  note c2 = code2_fields [OF kr, folded c2_def]
  have c1: "unat c1 = n div 16 mod 256" unfolding c1_def by (rule unat_byte) simp
  have dist: "glz_dist_bytes ?data sh k (length ?pre + 2) d
      = (length ?pre + 2 + k, d + x * 2 ^ sh)" for sh d
  proof -
    have "x < 2 ^ 24" using assms(2) by (auto simp: x_def intro!: less_mult_imp_div_less split: if_splits)
    from glz_dist_decode [OF this, of "?pre @ [c1, c2]" "hi @ post" sh d] show ?thesis
      unfolding tail by (simp add: le_def k_def)
  qed
  have lek: "length le = k" by (simp add: le_def k_def)
  note tl = arg_cong [OF tail, of length]
  show ?thesis
  proof (cases ext)
    case False
    then have "n mod 16 + n div 16 mod 256 * 16 = n" using assms(2) field_split [of n] by simp
    moreover have "dist mod 64 + dist div 64 * 64 = dist" by simp
    ultimately show ?thesis
      unfolding glz_ref_eq [OF len ref] Let_def c2(1) dist using False cf(2,3) c1 c2(2) lek tl
      by (simp add: hi_def r_def x_def)
  next
    case True
    note split = field_split [of n]
    have r32: "r mod 32 = n div 4096 mod 32" "r < 32 \<longleftrightarrow> \<not> n \<ge> 2 ^ 17" using True by (auto simp: r_def)
    have dist': "glz_dist_bytes ?data 0 k (length ?pre + 2) 0 = (length ?pre + 2 + k, dist)"
      using dist [of 0 0] True by (simp add: x_def)
    show ?thesis
    proof (cases "n \<ge> 2 ^ 17")
      case False
      with split r32 show ?thesis
        unfolding glz_ref_eq [OF len ref] Let_def c2(1) dist' using True cf(2,3) c1 c2(3,4) lek tl
        by (simp add: hi_def)
    next
      case big: True
      have "n div 2 ^ 17 < 256" using assms(2) True by (intro less_mult_imp_div_less) simp
      then have "unat (word_of_nat (n div 2 ^ 17) :: u8) = n div 2 ^ 17" by (rule unat_byte)
      moreover have "?data ! (length ?pre + 2 + k) = word_of_nat (n div 2 ^ 17)"
        unfolding tail using lek big True by (simp add: hi_def nth_append)
      ultimately show ?thesis
        unfolding glz_ref_eq [OF len ref] Let_def c2(1) dist' using True cf(2,3) c1 c2(3,4) lek r32 big split tl
        by (simp add: hi_def)
    qed
  qed
qed

section \<open>Each step decodes one token\<close>

lemma glz_copy_prev_decode:
  assumes "pixels4 P" and "off + n \<le> length P" and "pixels4 ps" and "4 * n \<le> length zs"
    and "sz = 4 * length ps + length zs"
  shows "glz_copy_prev sz (concat P) (4 * off) n
           \<lparr>lz_out = concat ps @ zs, lz_idx = 4 * length ps, lz_off = f\<rparr>
       = \<lparr>lz_out = concat (ps @ take n (drop off P)) @ drop (4 * n) zs,
          lz_idx = 4 * (length ps + n), lz_off = f\<rparr>"
  using assms(2-)
proof (induction n arbitrary: off ps zs)
  case (Suc n)
  have lt: "off < length P" using Suc.prems(1) by simp
  with assms(1) have "length (P ! off) = 4" by (simp add: pixels4_def list_all_iff)
  then obtain a b c d where p: "P ! off = [a, b, c, d]" by (rule length_4E)
  have nth: "concat P ! (4 * off) = a" "concat P ! (4 * off + 1) = b" "concat P ! (4 * off + 2) = c"
    "concat P ! (4 * off + 3) = d"
    using nth_concat_pixels4 [OF assms(1) lt, of 0 "[]"] nth_concat_pixels4 [OF assms(1) lt, of 1 "[]"]
      nth_concat_pixels4 [OF assms(1) lt, of 2 "[]"] nth_concat_pixels4 [OF assms(1) lt, of 3 "[]"] p
    by (simp_all add: numeral_eq_Suc)
  have px: "set_pixel (concat ps @ zs) (4 * length ps) (concat P ! (4 * off)) (concat P ! (4 * off + 1))
      (concat P ! (4 * off + 2)) (concat P ! (4 * off + 3)) = concat (ps @ [[a, b, c, d]]) @ drop 4 zs"
    unfolding nth using Suc.prems by (subst set_pixel_append) (simp_all add: length_concat_pixels4)
  have "4 * off + 4 \<le> length (concat P)" using lt by (simp add: length_concat_pixels4 [OF assms(1)])
  moreover have "take (Suc n) (drop off P) = [a, b, c, d] # take n (drop (Suc off) P)"
    using lt p by (simp add: Cons_nth_drop_Suc [symmetric])
  ultimately show ?case
    using Suc.IH [of "Suc off" "ps @ [[a, b, c, d]]" "drop 4 zs"] Suc.prems px
    by (simp add: algebra_simps)
qed simp

lemma glz_self_decode:
  assumes "1 \<le> off" and "off \<le> length ps" and "pixels4 ps" and "4 * len \<le> length zs"
    and "sz = 4 * length ps + length zs" and "sz \<le> USIZE_MAX"
  shows "glz_self sz (off - 1) len \<lparr>lz_out = concat ps @ zs, lz_idx = 4 * length ps, lz_off = f\<rparr>
       = Inr \<lparr>lz_out = concat (lz_back off len ps) @ drop (4 * len) zs,
              lz_idx = 4 * (length ps + len), lz_off = f\<rparr>"
proof -
  have src: "wrapping_sub (4 * length ps) (off * 4) = 4 * (length ps - off)"
    using assms(2) by (simp add: wrapping_sub_def algebra_simps)
  have eq: "off - 1 + 1 = off" using assms(1) by simp
  show ?thesis
  proof (cases "off = 1")
    case True
    with assms(2) have "ps \<noteq> []" by auto
    from lz_repeat_decode [of ps "[]" len zs sz "4 * (length ps - 1)" f] assms(3-5) this
      lz_back_1 [OF this, of len] True src
    show ?thesis by (simp add: glz_self_def)
  next
    case False
    with lz_copy_decode [OF assms(3) assms(1,2,4-6), of f] src show ?thesis
      unfolding glz_self_def Let_def eq by simp
  qed
qed

text \<open>The images a stream may refer to are in the dictionary.\<close>

definition dict_shows :: "('c, bytes) lru_ops \<Rightarrow> glz_view \<Rightarrow> ('c, 't) glz_dictionary \<Rightarrow> bool" where
  "dict_shows L V d \<longleftrightarrow> (\<forall>i P. V i = Some P \<longrightarrow> map_of (entries L (gd_images d)) i = Some (concat P))"

text \<open>Other channels leave those images in the dictionary.\<close>

definition env_keeps :: "('c, bytes) lru_ops \<Rightarrow> glz_view \<Rightarrow> ('c, 't) glz_env \<Rightarrow> bool" where
  "env_keeps L V env \<longleftrightarrow> (\<forall>n d. dict_shows L V d \<longrightarrow> dict_shows L V (env n d))"

lemma map_of_promote:
  assumes "map_of xs k = Some v"
  shows "map_of ((k, v) # without k xs) = map_of xs"
proof
  fix j
  have "j \<noteq> k \<Longrightarrow> map_of (without k xs) j = map_of xs j" by (induction xs) auto
  with assms show "map_of ((k, v) # without k xs) j = map_of xs j" by simp
qed

lemma gd_get_view:
  assumes L: "lru_laws None L"
  shows "fst (gd_get L d i) = map_of (entries L (gd_images d)) i
    \<and> dict_shows L V (snd (gd_get L d i)) = dict_shows L V d"
proof -
  obtain r c where g: "lru_get L (bl_inner (gd_images d)) i = (r, c)"
    by (cases "lru_get L (bl_inner (gd_images d)) i")
  have r: "r = map_of (entries L (gd_images d)) i" and c: "lru_iter L c =
      (case r of None \<Rightarrow> entries L (gd_images d) | Some v \<Rightarrow> (i, v) # without i (entries L (gd_images d)))"
    using lru_get_val [OF L, of "bl_inner (gd_images d)" i] lru_get_iter [OF L, of "bl_inner (gd_images d)" i]
    by (simp_all add: g)
  have "map_of (lru_iter L c) = map_of (entries L (gd_images d))"
    using c r map_of_promote [of "entries L (gd_images d)" i] by (simp split: option.splits)
  then show ?thesis using r by (simp add: gd_get_def bl_get_def g dict_shows_def)
qed

lemma glz_lookup_hit:
  assumes "lru_laws None L" and "dict_shows L V (gs_dict g)"
    and "env_keeps L V env" and "V i = Some P"
  shows "\<exists>g'. glz_lookup L T env wakes i g = (Some (concat P), g') \<and> dict_shows L V (gs_dict g')"
proof -
  let ?d = "env (gs_locks g) (gs_dict g)"
  have s: "dict_shows L V ?d" using assms(2,3) by (simp add: env_keeps_def)
  then have "map_of (entries L (gd_images ?d)) i = Some (concat P)" using assms(4) by (simp add: dict_shows_def)
  with gd_get_view [OF assms(1), of ?d i V] s show ?thesis
    by (cases "gd_get L ?d i") (simp add: glz_lookup_def glz_get_def)
qed

lemma glz_step_token:
  assumes "lru_laws None L" and "dict_shows L V (gs_dict g)"
    and env: "env_keeps L V env"
    and ok: "glz_token_ok V i ps t" and "pixels4 ps" and sz: "sz = 4 * length ps + length zs"
    and le: "4 * length (glz_expand V i ps t) \<le> sz" and "sz \<le> USIZE_MAX"
  shows "\<exists>g'. glz_step L T env wakes i (pre @ glz_encode t @ post) sz
           \<lparr>lz_out = concat ps @ zs, lz_idx = 4 * length ps, lz_off = length pre\<rparr> g
       = Inr (True, \<lparr>lz_out = concat (glz_expand V i ps t)
                       @ drop (4 * (length (glz_expand V i ps t) - length ps)) zs,
           lz_idx = 4 * length (glz_expand V i ps t), lz_off = length (pre @ glz_encode t)\<rparr>, g')
         \<and> dict_shows L V (gs_dict g')"
proof (cases t)
  case (GLits ls)
  have "lz_step (pre @ lz_encode (Lits ls) @ post) sz
      \<lparr>lz_out = concat ps @ zs, lz_idx = 4 * length ps, lz_off = length pre\<rparr>
    = Inr (True, \<lparr>lz_out = concat (ps @ map lz_rgba ls) @ drop (4 * length ls) zs,
        lz_idx = 4 * (length ps + length ls), lz_off = length pre + length (lz_encode (Lits ls))\<rparr>)"
    by (rule lz_step_Lits) (use assms GLits in auto)
  moreover have "word_of_nat (length ls - 1) < (LZ_MAX_COPY :: u8)"
  proof -
    define m where "m = length ls - 1"
    have "m < 32" using ok GLits by (auto simp: m_def)
    then show ?thesis unfolding m_def [symmetric] by (simp add: LZ_MAX_COPY_def word_less_nat_alt unat_of_nat)
  qed
  ultimately show ?thesis
    using GLits assms(2) unfolding glz_step_def lz_step_def Let_def
    by (simp add: nth_append)
next
  case (GRef ext dist off len)
  define n where "n = glz_field dist off"
  define c where "c = glz_ctrl ext n len"
  define s where "s = \<lparr>lz_out = concat ps @ zs, lz_idx = 4 * length ps, lz_off = length (pre @ glz_encode t)\<rparr>"
  have len: "1 \<le> len" and b: "if ext then dist < 2 ^ 24 \<and> n < 2 ^ 25 else dist < 2 ^ 30 \<and> n < 2 ^ 12"
    using ok GRef by (auto simp: n_def)
  have enc: "pre @ glz_encode t @ post = (pre @ [c]) @ lz_len_bytes len @ glz_tail ext n dist @ post"
    by (simp add: GRef n_def c_def Let_def)
  have ref: "glz_ref (pre @ glz_encode t @ post) c (length pre + 1) = Some (len, n, dist, length (pre @ glz_encode t))"
    using glz_ref_decode [OF len b, of "pre @ [c]" post] unfolding enc c_def [symmetric]
    by (simp add: GRef n_def c_def Let_def)
  have nth: "(pre @ glz_encode t @ post) ! length pre = c" unfolding enc by (simp add: nth_append)
  have step: "glz_step L T env wakes i (pre @ glz_encode t @ post) sz
      \<lparr>lz_out = concat ps @ zs, lz_idx = 4 * length ps, lz_off = length pre\<rparr> g =
     (if dist = 0 then (case glz_self sz n len s of Inl e \<Rightarrow> Inl e | Inr t \<Rightarrow> Inr (True, t, g))
      else case glz_lookup L T env wakes (i - word_of_nat dist) g of
         (None, g') \<Rightarrow> Inr (True, s\<lparr>lz_idx := lz_idx s + len * 4\<rparr>, g')
       | (Some prev, g') \<Rightarrow> Inr (True, glz_copy_prev sz prev (n * 4) len s, g'))"
    using glz_ctrl_fields(4) [OF len, of ext n] ref nth
    unfolding glz_step_def Let_def
    by (simp add: c_def [symmetric] s_def split: prod.splits option.splits)
  show ?thesis
  proof (cases "dist = 0")
    case True
    with ok GRef have off: "1 \<le> off" "off \<le> length ps" by auto
    have "4 * len \<le> length zs" using le sz GRef True by simp
    from glz_self_decode [OF off assms(5) this sz assms(8)] True GRef step assms(2) show ?thesis
      by (simp add: s_def n_def glz_field_def)
  next
    case False
    with ok GRef obtain P where P: "V (i - word_of_nat dist) = Some P" "pixels4 P" "off + len \<le> length P"
      by auto
    have zs: "4 * len \<le> length zs" using le sz GRef False P by simp
    obtain g' where
      "glz_lookup L T env wakes (i - word_of_nat dist) g = (Some (concat P), g')" "dict_shows L V (gs_dict g')"
      using glz_lookup_hit [OF assms(1,2) env P(1)] by blast
    with glz_copy_prev_decode [OF P(2,3) assms(5) zs sz, of "length (pre @ glz_encode t)"] False GRef step P
    show ?thesis by (simp add: s_def n_def glz_field_def mult.commute)
  qed
qed

lemma glz_expand_pixels4:
  assumes "glz_token_ok V i ps t" and "pixels4 ps"
  shows "pixels4 (glz_expand V i ps t)"
proof (cases t)
  case (GRef ext dist off len)
  show ?thesis
  proof (cases "dist = 0")
    case False
    with assms GRef show ?thesis by (auto simp: pixels4_def list_all_iff dest!: in_set_takeD in_set_dropD)
  qed (use assms GRef lz_back_pixels4 in auto)
qed (use assms in \<open>auto simp: pixels4_def list_all_iff lz_rgba_def split: prod.splits\<close>)

lemma glz_expand_grows: "glz_token_ok V i ps t \<Longrightarrow> length ps < length (glz_expand V i ps t)"
  by (cases t) auto

lemma glz_tokens_grow: "glz_tokens_ok V i ps ts \<Longrightarrow> length ps \<le> length (foldl (glz_expand V i) ps ts)"
  by (induction ts arbitrary: ps) (auto intro: order_trans dest: glz_expand_grows less_imp_le)

lemma glz_encode_nonempty [simp]: "glz_encode t \<noteq> []"
  by (cases t) (simp_all add: Let_def)

lemma glz_loop_tokens:
  assumes "lru_laws None L" and "dict_shows L V (gs_dict g)"
    and env: "env_keeps L V env"
    and "glz_tokens_ok V i ps ts" and "pixels4 ps" and "sz = 4 * length ps + length zs"
    and "4 * length (foldl (glz_expand V i) ps ts) = sz" and "sz \<le> USIZE_MAX"
  shows "\<exists>off g'. glz_loop L T env wakes i (pre @ concat (map glz_encode ts) @ post) sz
           \<lparr>lz_out = concat ps @ zs, lz_idx = 4 * length ps, lz_off = length pre\<rparr> g
         = Inr (\<lparr>lz_out = concat (foldl (glz_expand V i) ps ts), lz_idx = sz, lz_off = off\<rparr>, g')
         \<and> dict_shows L V (gs_dict g')"
  using assms(2,4-)
proof (induction ts arbitrary: ps zs pre g)
  case Nil
  then show ?case by (subst glz_loop.simps) simp
next
  case (Cons t ts)
  let ?ps = "glz_expand V i ps t" and ?rest = "concat (map glz_encode ts) @ post"
  let ?zs = "drop (4 * (length ?ps - length ps)) zs"
  from Cons.prems have t: "glz_token_ok V i ps t" and ts: "glz_tokens_ok V i ?ps ts" by simp_all
  have grow: "length ps < length ?ps" "length ?ps \<le> length (foldl (glz_expand V i) ?ps ts)"
    using glz_expand_grows [OF t] glz_tokens_grow [OF ts] .
  then have le: "4 * length ?ps \<le> sz" using Cons.prems(5) by simp
  obtain g1 where g1: "glz_step L T env wakes i (pre @ glz_encode t @ ?rest) sz
        \<lparr>lz_out = concat ps @ zs, lz_idx = 4 * length ps, lz_off = length pre\<rparr> g
      = Inr (True, \<lparr>lz_out = concat ?ps @ ?zs, lz_idx = 4 * length ?ps, lz_off = length (pre @ glz_encode t)\<rparr>, g1)"
    "dict_shows L V (gs_dict g1)"
    using glz_step_token [OF assms(1) Cons.prems(1) env t Cons.prems(3,4) le Cons.prems(6)] by blast
  have "glz_loop L T env wakes i (pre @ glz_encode t @ ?rest) sz
        \<lparr>lz_out = concat ps @ zs, lz_idx = 4 * length ps, lz_off = length pre\<rparr> g
      = glz_loop L T env wakes i ((pre @ glz_encode t) @ ?rest) sz
        \<lparr>lz_out = concat ?ps @ ?zs, lz_idx = 4 * length ?ps, lz_off = length (pre @ glz_encode t)\<rparr> g1"
    using grow le by (subst glz_loop.simps) (simp add: g1(1))
  moreover have "sz = 4 * length ?ps + length ?zs"
    using Cons.prems(4) grow le by simp
  ultimately show ?case
    using Cons.IH [OF g1(2) ts glz_expand_pixels4 [OF t Cons.prems(3)], of ?zs "pre @ glz_encode t"]
      Cons.prems(5,6) by simp
qed

section \<open>Headers\<close>

definition glz_header :: "u32 \<Rightarrow> u32 \<Rightarrow> bool \<Rightarrow> u64 \<Rightarrow> u32 \<Rightarrow> bytes" where
  "glz_header w h top_down i win =
     GLZ_MAGIC @ [0, 1, 0, 1, if top_down then 0x18 else 0x08] @ rev (u32_le w) @ rev (u32_le h)
       @ [0, 0, 0, 0] @ rev (u64_le i) @ rev (u32_le win)"

lemma be_word_rev64 [simp]: "be_word (rev (u64_le i)) = i"
  by (simp add: be_word_def)

lemma glz_header_fields:
  "length (glz_header w h td i win) = 33"
  "take 4 (glz_header w h td i win @ xs) = GLZ_MAGIC"
  "(be_word (take 2 (drop 4 (glz_header w h td i win @ xs))) :: u16) = 1"
  "drop_bit 4 ((glz_header w h td i win @ xs) ! 8) AND 1 \<noteq> 0 \<longleftrightarrow> td"
  "(be_word (take 4 (drop 9 (glz_header w h td i win @ xs))) :: u32) = w"
  "(be_word (take 4 (drop 13 (glz_header w h td i win @ xs))) :: u32) = h"
  "(be_word (take 8 (drop 21 (glz_header w h td i win @ xs))) :: u64) = i"
  "(be_word (take 4 (drop 29 (glz_header w h td i win @ xs))) :: u32) = win"
  by (simp_all add: glz_header_def GLZ_MAGIC_def LZ_MAGIC_def, simp_all add: be_word_def le_word_def)

section \<open>Whatever the data\<close>

lemma length_copy_prev [simp]: "length (lz_out (glz_copy_prev sz prev p n s)) = length (lz_out s)"
  by (induction n arbitrary: p s) simp_all

lemma length_glz_self: "glz_self sz po len s = Inr t \<Longrightarrow> length (lz_out t) = length (lz_out s)"
  by (auto simp: glz_self_def Let_def dest: length_copy split: if_splits)

lemma length_glz_step:
  "glz_step L T env wakes i data sz s g = Inr (b, s', g') \<Longrightarrow> length (lz_out s') = length (lz_out s)"
  by (auto simp: glz_step_def Let_def dest!: length_glz_self
      split: if_splits prod.splits option.splits sum.splits)

lemma length_glz_loop:
  "glz_loop L T env wakes i data sz s g = Inr (s', g') \<Longrightarrow> length (lz_out s') = length (lz_out s)"
proof (induction L T env wakes i data sz s g rule: glz_loop.induct)
  case (1 L T env wakes i data sz s g)
  show ?case
  proof (cases "lz_idx s < sz \<and> lz_off s < length data")
    case True
    with "1.prems" obtain b s1 g1 where st: "glz_step L T env wakes i data sz s g = Inr (b, s1, g1)"
      by (subst (asm) glz_loop.simps) (auto split: sum.splits prod.splits)
    note len = length_glz_step [OF st]
    show ?thesis
    proof (cases b)
      case True
      with \<open>lz_idx s < sz \<and> lz_off s < length data\<close> "1.prems" st
      have "glz_loop L T env wakes i data sz s1 g1 = Inr (s', g')" by (subst (asm) glz_loop.simps) simp
      with "1.IH" [OF \<open>lz_idx s < sz \<and> lz_off s < length data\<close> st] True len show ?thesis by simp
    next
      case False
      with \<open>lz_idx s < sz \<and> lz_off s < length data\<close> "1.prems" st len show ?thesis
        by (subst (asm) glz_loop.simps) simp
    qed
  next
    case False
    with "1.prems" show ?thesis by (subst (asm) glz_loop.simps) simp
  qed
qed

lemma glz_finish_ok:
  assumes "rgba_len (unat w) (unat h) = Some sz" and "length out = sz"
  shows "glz_finish w h td i win out
       = Inr \<lparr>di_width = w, di_height = h,
              di_pixels = (if td then out else flip_rows (unat w * 4) (unat h) out),
              di_image_id = i, di_win_head_dist = win\<rparr>"
  using lz_image_size [OF assms, of td] assms
  by (auto simp: glz_finish_def DecompressedImage_new_glz_def Let_def split: if_splits)

section \<open>Properties\<close>

text \<open>C28: The GLZ decoder turns every well-formed token stream for the image, literal runs, references
  into the image itself and references into earlier images, in either encoding, into exactly the
  pixels the tokens denote, provided the earlier images it names are in the dictionary and other
  channels, whatever else they do to it meanwhile, leave them there.\<close>

theorem glz_decodes:
  assumes "lru_laws None L" and "dict_shows L V d" and "env_keeps L V env"
    and "rgba_len (unat w) (unat h) = Some sz" and "glz_tokens_ok V i [] ts"
    and "length (foldl (glz_expand V i) [] ts) = unat w * unat h"
  shows "\<exists>d'. decompress_glz L T env wakes
        (glz_header w h td i win @ concat (map glz_encode ts) @ post) d
      = Inr (\<lparr>di_width = w, di_height = h,
              di_pixels = (let out = concat (foldl (glz_expand V i) [] ts) in
                if td then out else flip_rows (unat w * 4) (unat h) out),
              di_image_id = i, di_win_head_dist = win\<rparr>, d') \<and> dict_shows L V d'"
proof -
  let ?out = "concat (foldl (glz_expand V i) [] ts)"
  define data where "data = glz_header w h td i win @ concat (map glz_encode ts) @ post"
  have hdr: "33 \<le> length data" "take 4 data = GLZ_MAGIC" "(be_word (take 2 (drop 4 data)) :: u16) = 1"
    "drop_bit 4 (data ! 8) AND 1 \<noteq> 0 \<longleftrightarrow> td"
    "(be_word (take 4 (drop 9 data)) :: u32) = w" "(be_word (take 4 (drop 13 data)) :: u32) = h"
    "(be_word (take 8 (drop 21 data)) :: u64) = i" "(be_word (take 4 (drop 29 data)) :: u32) = win"
    unfolding data_def by (rule glz_header_fields | simp add: glz_header_fields(1))+
  have sz: "4 * length (foldl (glz_expand V i) [] ts) = sz"
    using assms(4,6) by (simp add: rgba_len_Some)
  obtain off g where loop: "glz_loop L T env wakes i data sz \<lparr>lz_out = replicate sz 0, lz_idx = 0, lz_off = 33\<rparr>
        \<lparr>gs_dict = d, gs_locks = 0, gs_waits = 0\<rparr>
      = Inr (\<lparr>lz_out = ?out, lz_idx = sz, lz_off = off\<rparr>, g)" "dict_shows L V (gs_dict g)"
    using glz_loop_tokens [OF assms(1) _ assms(3,5), of "\<lparr>gs_dict = d, gs_locks = 0, gs_waits = 0\<rparr>" sz
        "replicate sz 0" T wakes "glz_header w h td i win" post] sz assms(2)
      rgba_len_usize [OF assms(4)] by (auto simp: glz_header_fields(1) data_def)
  from length_glz_loop [OF this(1)] have "length ?out = sz" by simp
  from glz_finish_ok [OF assms(4) this, of td i win] assms(4) loop hdr show ?thesis
    unfolding data_def [symmetric] by (simp add: decompress_glz_def Let_def)
qed

theorem glz_decodes_witness:
  "\<exists>d'. decompress_glz (list_lru None) (list_lru (Some EVICTED_ID_TOMBSTONES)) (\<lambda>n d. d) (\<lambda>k. 0)
      (glz_header 2 1 True 5 3 @ concat (map glz_encode [GRef False 1 0 1, GLits [(1, 2, 3)]]) @ [])
      \<lparr>gd_images = \<lparr>bl_inner = [(4, [9, 8, 7, 255])], bl_bytes = 4, bl_cap_bytes = 96, bl_max_entries = 1,
         bl_evictions_total = 0, bl_evicted_bytes_total = 0\<rparr>, gd_evicted_ids = [],
       gd_first_eviction_logged = False\<rparr>
    = Inr (\<lparr>di_width = 2, di_height = 1, di_pixels = [9, 8, 7, 255, 3, 2, 1, 255],
            di_image_id = 5, di_win_head_dist = 3\<rparr>, d')"
proof -
  let ?d = "\<lparr>gd_images = \<lparr>bl_inner = [(4, [9, 8, 7, 255])], bl_bytes = 4, bl_cap_bytes = 96,
      bl_max_entries = 1, bl_evictions_total = 0, bl_evicted_bytes_total = 0\<rparr>, gd_evicted_ids = [],
      gd_first_eviction_logged = False\<rparr> :: ((u64 \<times> bytes) list, (u64 \<times> unit) list) glz_dictionary"
  let ?V = "[4 \<mapsto> [[9, 8, 7, 255]]] :: glz_view"
  have "dict_shows (list_lru None) ?V ?d" by (simp add: dict_shows_def list_lru_def)
  moreover have "env_keeps (list_lru None) ?V (\<lambda>n d. d :: ((u64 \<times> bytes) list, (u64 \<times> unit) list) glz_dictionary)"
    by (simp add: env_keeps_def)
  moreover have "rgba_len (unat (2 :: u32)) (unat (1 :: u32)) = Some 8"
    by (simp add: rgba_len_def MAX_IMAGE_DIMENSION_def MAX_IMAGE_PIXELS_def)
  ultimately show ?thesis
    using glz_decodes [OF list_lru_laws, of ?V ?d "\<lambda>n d. d" 2 1 8 5 "[GRef False 1 0 1, GLits [(1, 2, 3)]]"
        "list_lru (Some EVICTED_ID_TOMBSTONES)" "\<lambda>k. 0" True 3 "[]"]
    by (auto simp: glz_field_def)
qed

text \<open>C29: A cross-image reference can fail although its image is in the dictionary: if another channel
  inserts the image after the decoder's first lookup and before it starts to wait, and nothing is
  inserted during the wait, the deadline passes without a second look and the pixels are skipped.\<close>

theorem glz_missed_insert:
  assumes "lru_laws None L"
    and "map_of (entries L (gd_images (env (gs_locks g) (gs_dict g)))) i = None"
    and "d = env (gs_locks g + 1) (snd (gd_get L (env (gs_locks g) (gs_dict g)) i))"
    and "map_of (entries L (gd_images d)) i = Some px" and "\<not> was_evicted T d i"
    and "wakes (gs_waits g) = 0"
  shows "\<exists>g'. glz_lookup L T env wakes i g = (None, g')
    \<and> map_of (entries L (gd_images (gs_dict g'))) i = Some px"
  using assms gd_get_view [OF assms(1), of "env (gs_locks g) (gs_dict g)" i]
  by (cases "gd_get L (env (gs_locks g) (gs_dict g)) i") (simp add: glz_lookup_def glz_get_def Let_def)

theorem glz_missed_insert_witness:
  "let env = (\<lambda>n d. if n = 1 then d\<lparr>gd_images := (gd_images d)\<lparr>bl_inner := [(4, [9, 8, 7, 255])]\<rparr>\<rparr> else d);
       d0 = \<lparr>gd_images = \<lparr>bl_inner = [], bl_bytes = 0, bl_cap_bytes = 96, bl_max_entries = 1,
              bl_evictions_total = 0, bl_evicted_bytes_total = 0\<rparr>, gd_evicted_ids = [],
             gd_first_eviction_logged = False\<rparr> in
   \<exists>g'. glz_lookup (list_lru None) (list_lru (Some EVICTED_ID_TOMBSTONES)) env (\<lambda>k. 0) 4
      \<lparr>gs_dict = d0, gs_locks = 0, gs_waits = 0\<rparr> = (None, g')
    \<and> map_of (entries (list_lru None) (gd_images (gs_dict g'))) 4 = Some [9, 8, 7, 255]"
  unfolding Let_def
  by (rule glz_missed_insert [OF list_lru_laws _ refl])
    (simp_all add: list_lru_def gd_get_def bl_get_def was_evicted_def)

end
