(* ===== verification/Clip_Area.thy ===== *)
theory Clip_Area
  imports Messages_Display "HOL-Library.Product_Lexorder"
begin

text \<open>
  A draw's clip reduced to the part of its destination it leaves
  (\<open>shakenfist-spice-renderer/src/display/clip.rs\<close>): the union of the clip's rectangles, cut to the
  destination, as disjoint banded rectangles, or a refusal when that takes too many of them.
\<close>

section \<open>The code\<close>

definition MAX_CLIP_RECTS :: nat where "MAX_CLIP_RECTS = 1024"

type_synonym ltrb = "u32 \<times> u32 \<times> u32 \<times> u32"

datatype clip_area_result = Whole | Rects "ltrb list" | Nothing | TooComplex nat

definition clamp :: "rect \<Rightarrow> ltrb \<Rightarrow> ltrb option" where
  "clamp rect dest =
     (case dest of (dl, dt, dr, db) \<Rightarrow>
       let left = max (sint (rc_left rect)) (uint dl);
           tp = max (sint (rc_top rect)) (uint dt);
           right = min (sint (rc_right rect)) (uint dr);
           bottom = min (sint (rc_bottom rect)) (uint db) in
       if left \<ge> right \<or> tp \<ge> bottom then None
       else Some (word_of_int left, word_of_int tp, word_of_int right, word_of_int bottom))"

text \<open>
  The set of distinct rectangles is kept as a list in insertion order: it is sorted before it is
  used, so the order in which the source's hash set yields it does not matter.
\<close>

fun distinct_clamped :: "ltrb \<Rightarrow> rect list \<Rightarrow> ltrb list \<Rightarrow> ltrb list option" where
  "distinct_clamped dest [] acc = Some acc"
| "distinct_clamped dest (r # rs) acc =
     (case clamp r dest of
        None \<Rightarrow> distinct_clamped dest rs acc
      | Some c \<Rightarrow>
          (let acc' = List.insert c acc in
           if length acc' > MAX_CLIP_RECTS then None else distinct_clamped dest rs acc'))"

definition merge_span :: "(u32 \<times> u32) list \<Rightarrow> u32 \<times> u32 \<Rightarrow> (u32 \<times> u32) list" where
  "merge_span merged s =
     (if merged \<noteq> [] \<and> fst s \<le> snd (last merged)
      then butlast merged @ [(fst (last merged), max (snd (last merged)) (snd s))]
      else merged @ [s])"

definition band_spans :: "ltrb list \<Rightarrow> u32 \<Rightarrow> u32 \<Rightarrow> (u32 \<times> u32) list" where
  "band_spans rects tp bottom =
     foldl merge_span []
       (sort (map (\<lambda>(l, t, r, b). (l, r)) (filter (\<lambda>(l, t, r, b). t \<le> tp \<and> b \<ge> bottom) rects)))"

record union_state =
  us_out :: "ltrb list"
  us_spans :: "(u32 \<times> u32) list"
  us_boxes :: "nat list"
  us_bottom :: "u32 option"

definition set_bottom :: "u32 \<Rightarrow> ltrb list \<Rightarrow> nat \<Rightarrow> ltrb list" where
  "set_bottom bottom out i = out[i := (case out ! i of (l, t, r, b) \<Rightarrow> (l, t, r, bottom))]"

definition union_band :: "ltrb list \<Rightarrow> u32 \<times> u32 \<Rightarrow> union_state \<Rightarrow> union_state option" where
  "union_band rects band s =
     (case band of (tp, bottom) \<Rightarrow>
       let merged = band_spans rects tp bottom in
       if us_bottom s = Some tp \<and> merged = us_spans s
       then Some (s\<lparr>us_out := foldl (set_bottom bottom) (us_out s) (us_boxes s), us_bottom := Some bottom\<rparr>)
       else let out = us_out s @ map (\<lambda>(l, r). (l, tp, r, bottom)) merged in
         if length out > MAX_CLIP_RECTS then None
         else Some \<lparr>us_out = out, us_spans = merged, us_boxes = [length (us_out s)..<length out],
                    us_bottom = Some bottom\<rparr>)"

fun union_bands :: "ltrb list \<Rightarrow> (u32 \<times> u32) list \<Rightarrow> union_state \<Rightarrow> union_state option" where
  "union_bands rects [] s = Some s"
| "union_bands rects (band # bands) s =
     (case union_band rects band s of None \<Rightarrow> None | Some s' \<Rightarrow> union_bands rects bands s')"

definition rect_edges :: "ltrb list \<Rightarrow> u32 list" where
  "rect_edges rects = remdups_adj (sort (concat (map (\<lambda>(l, t, r, b). [t, b]) rects)))"

definition clip_union :: "ltrb list \<Rightarrow> ltrb list option" where
  "clip_union rects =
     (let edges = rect_edges rects in
      map_option us_out
        (union_bands rects (zip edges (tl edges))
          \<lparr>us_out = [], us_spans = [], us_boxes = [], us_bottom = None\<rparr>))"

definition clip_area :: "clip \<Rightarrow> ltrb \<Rightarrow> clip_area_result" where
  "clip_area c dest =
     (if clip_kind c \<noteq> CLIP_RECTS then Whole
      else case distinct_clamped dest (clip_rects c) [] of
        None \<Rightarrow> TooComplex (length (clip_rects c))
      | Some ds \<Rightarrow>
          (if ds = [] then Nothing
           else case clip_union (sort ds) of
             Some boxes \<Rightarrow> Rects boxes | None \<Rightarrow> TooComplex (length (clip_rects c))))"

section \<open>Pixels\<close>

definition box_pixels :: "ltrb \<Rightarrow> (u32 \<times> u32) set" where
  "box_pixels = (\<lambda>(l, t, r, b). {(x, y). l \<le> x \<and> x < r \<and> t \<le> y \<and> y < b})"

text \<open>The pixels of a signed clip rectangle that a surface has.\<close>

definition wire_pixels :: "rect \<Rightarrow> (u32 \<times> u32) set" where
  "wire_pixels r = {(x, y). sint (rc_left r) \<le> uint x \<and> uint x < sint (rc_right r)
     \<and> sint (rc_top r) \<le> uint y \<and> uint y < sint (rc_bottom r)}"

definition boxes_pixels :: "ltrb list \<Rightarrow> (u32 \<times> u32) set" where
  "boxes_pixels bs = (\<Union>b\<in>set bs. box_pixels b)"

definition box_ok :: "ltrb \<Rightarrow> bool" where
  "box_ok = (\<lambda>(l, t, r, b). l < r \<and> t < b)"

definition box_in :: "ltrb \<Rightarrow> ltrb \<Rightarrow> bool" where
  "box_in = (\<lambda>(l, t, r, b) (dl, dt, dr, db). dl \<le> l \<and> dt \<le> t \<and> r \<le> dr \<and> b \<le> db)"

text \<open>
  Banded order: a box ends above the next one, or is in the same band and ends left of it, with a
  gap.
\<close>

definition box_before :: "ltrb \<Rightarrow> ltrb \<Rightarrow> bool" where
  "box_before = (\<lambda>(l, t, r, b) (l', t', r', b'). b \<le> t' \<or> (t = t' \<and> b = b' \<and> r < l'))"

lemma box_before_disjoint:
  "box_before a b \<Longrightarrow> box_pixels a \<inter> box_pixels b = {}"
  by (auto simp: box_before_def box_pixels_def)

lemma box_pixels_nonempty: "box_ok b \<Longrightarrow> box_pixels b \<noteq> {}"
  by (auto simp: box_ok_def box_pixels_def)

section \<open>Clamping\<close>

lemma clamp_Some:
  assumes "clamp r dest = Some c"
  shows "box_ok c \<and> box_in c dest \<and> box_pixels c = wire_pixels r \<inter> box_pixels dest"
proof -
  obtain dl dt dr db where d: "dest = (dl, dt, dr, db)" by (cases dest)
  define l where "l = max (sint (rc_left r)) (uint dl)"
  define t where "t = max (sint (rc_top r)) (uint dt)"
  define rr where "rr = min (sint (rc_right r)) (uint dr)"
  define b where "b = min (sint (rc_bottom r)) (uint db)"
  note defs = l_def t_def rr_def b_def
  have c: "c = (word_of_int l, word_of_int t, word_of_int rr, word_of_int b)" and lt: "l < rr" "t < b"
    using assms by (auto simp: clamp_def d Let_def defs split: if_splits)
  have bounds: "uint dl \<le> l" "uint dt \<le> t" "rr \<le> uint dr" "b \<le> uint db" by (auto simp: defs)
  have u: "uint (word_of_int z :: u32) = z" if "uint (w :: u32) \<le> z" "z \<le> uint (w' :: u32)" for z w w'
  proof -
    have "0 \<le> uint w" "uint w' < 2 ^ 32" using uint_lt2p [of w'] by simp_all
    with that have "0 \<le> z" "z < 2 ^ 32" by linarith+
    then show ?thesis by (simp add: uint_word_of_int)
  qed
  have e: "uint (word_of_int l :: u32) = l" "uint (word_of_int t :: u32) = t"
    "uint (word_of_int rr :: u32) = rr" "uint (word_of_int b :: u32) = b"
    using u [of dl l dr] u [of dt t db] u [of dl rr dr] u [of dt b db] bounds lt by auto
  show ?thesis
    unfolding c d using lt bounds
    by (auto simp: box_ok_def box_in_def box_pixels_def wire_pixels_def word_less_def word_le_def e)
       (auto simp: defs)
qed

lemma clamp_None:
  assumes "clamp r dest = None"
  shows "wire_pixels r \<inter> box_pixels dest = {}"
  using assms
  by (cases dest) (auto simp: clamp_def Let_def wire_pixels_def box_pixels_def word_less_def word_le_def
      split: if_splits)

lemma distinct_clamped_Some:
  assumes "distinct_clamped dest rs acc = Some ds"
    and "\<forall>c\<in>set acc. box_ok c \<and> box_in c dest"
  shows "(\<forall>c\<in>set ds. box_ok c \<and> box_in c dest)
    \<and> boxes_pixels ds = boxes_pixels acc \<union> ((\<Union>r\<in>set rs. wire_pixels r) \<inter> box_pixels dest)"
  using assms
proof (induction dest rs acc rule: distinct_clamped.induct)
  case (1 dest acc)
  then show ?case by simp
next
  case (2 dest r rs acc)
  show ?case
  proof (cases "clamp r dest")
    case None
    with 2 clamp_None [OF None] show ?thesis by auto
  next
    case (Some c)
    let ?acc = "List.insert c acc"
    from 2(3) Some have len: "\<not> length ?acc > MAX_CLIP_RECTS"
      and rec: "distinct_clamped dest rs ?acc = Some ds" by (auto simp: Let_def split: if_splits)
    have ok: "\<forall>c\<in>set ?acc. box_ok c \<and> box_in c dest" using 2(4) clamp_Some [OF Some] by auto
    have "boxes_pixels ?acc = boxes_pixels acc \<union> (wire_pixels r \<inter> box_pixels dest)"
      using clamp_Some [OF Some] by (auto simp: boxes_pixels_def)
    with 2(2) [OF Some refl len rec ok] show ?thesis by auto
  qed
qed

section \<open>Spans of a band\<close>

definition span_xs :: "u32 \<times> u32 \<Rightarrow> u32 set" where
  "span_xs s = {x. fst s \<le> x \<and> x < snd s}"

definition spans_ok :: "(u32 \<times> u32) list \<Rightarrow> bool" where
  "spans_ok ss \<longleftrightarrow> sorted_wrt (\<lambda>a b. snd a < fst b) ss \<and> (\<forall>s\<in>set ss. fst s < snd s)"

lemma merge_span_ok:
  assumes "spans_ok m" and "fst s < snd s" and "m \<noteq> [] \<longrightarrow> fst (last m) \<le> fst s"
  shows "spans_ok (merge_span m s) \<and> fst (last (merge_span m s)) \<le> fst s
    \<and> (\<Union>(span_xs ` set (merge_span m s))) = (\<Union>(span_xs ` set m)) \<union> span_xs s"
proof (cases "m \<noteq> [] \<and> fst s \<le> snd (last m)")
  case False
  have "snd a < fst s" if "a \<in> set m" for a
  proof (cases m rule: rev_cases)
    case (snoc m' z)
    with False have z: "snd z < fst s" by auto
    with snoc that assms(1) show ?thesis
      by (auto simp: spans_ok_def sorted_wrt_append)
  qed (use that in simp)
  with False assms show ?thesis
    by (auto simp: merge_span_def spans_ok_def sorted_wrt_append)
next
  case True
  then obtain m' z where m: "m = m' @ [z]" by (cases m rule: rev_cases) auto
  with True have z: "fst s \<le> snd z" and zl: "fst z \<le> fst s" using assms(3) by auto
  have "span_xs z \<union> span_xs s = span_xs (fst z, max (snd z) (snd s))"
    using z zl assms(1,2) m by (auto simp: span_xs_def spans_ok_def less_max_iff_disj)
  moreover have "spans_ok (m' @ [(fst z, max (snd z) (snd s))])"
    using assms(1) m by (auto simp: spans_ok_def sorted_wrt_append less_max_iff_disj)
  ultimately show ?thesis
    using True m zl by (auto simp: merge_span_def)
qed

lemma merge_spans_ok:
  assumes "spans_ok m" and "\<forall>s\<in>set ss. fst s < snd s" and "sorted (map fst ss)"
    and "m \<noteq> [] \<longrightarrow> (\<forall>s\<in>set ss. fst (last m) \<le> fst s)"
  shows "spans_ok (foldl merge_span m ss)
    \<and> (\<Union>(span_xs ` set (foldl merge_span m ss))) = (\<Union>(span_xs ` set m)) \<union> (\<Union>(span_xs ` set ss))"
  using assms
proof (induction ss arbitrary: m)
  case (Cons s ss)
  note step = merge_span_ok [OF Cons.prems(1), of s]
  have "spans_ok (merge_span m s)" "fst (last (merge_span m s)) \<le> fst s"
    and u: "(\<Union>(span_xs ` set (merge_span m s))) = (\<Union>(span_xs ` set m)) \<union> span_xs s"
    using step Cons.prems by auto
  moreover from this Cons.prems(3) have "\<forall>s'\<in>set ss. fst (last (merge_span m s)) \<le> fst s'"
    by (auto intro: order_trans)
  ultimately have "spans_ok (foldl merge_span (merge_span m s) ss) \<and>
      (\<Union>(span_xs ` set (foldl merge_span (merge_span m s) ss)))
        = (\<Union>(span_xs ` set (merge_span m s))) \<union> (\<Union>(span_xs ` set ss))"
    using Cons.IH [of "merge_span m s"] Cons.prems by simp
  with u show ?case by auto
qed simp

lemma length_merge_spans: "length (foldl merge_span m ss) \<le> length m + length ss"
proof (induction ss arbitrary: m)
  case (Cons s ss)
  have "length (merge_span m s) \<le> Suc (length m)" by (auto simp: merge_span_def)
  with Cons.IH [of "merge_span m s"] show ?case by simp
qed simp

lemma length_band_spans: "length (band_spans rects t b) \<le> length rects"
proof -
  let ?f = "filter (\<lambda>(l, t', r, b'). t' \<le> t \<and> b' \<ge> b) rects"
  have "length (band_spans rects t b) \<le> length ?f"
    using length_merge_spans [of "[]" "sort (map (\<lambda>(l, t, r, b). (l, r)) ?f)"]
    by (simp add: band_spans_def)
  also have "\<dots> \<le> length rects" by (rule length_filter_le)
  finally show ?thesis .
qed

lemma sorted_map_fst: "sorted (ss :: (u32 \<times> u32) list) \<Longrightarrow> sorted (map fst ss)"
  by (induction ss) (auto simp: less_eq_prod_def split: prod.splits)

lemma band_spans_ok:
  assumes "\<forall>r\<in>set rects. box_ok r"
  shows "spans_ok (band_spans rects tp bottom) \<and> (\<Union>(span_xs ` set (band_spans rects tp bottom)))
    = {x. \<exists>(l, t, r, b)\<in>set rects. t \<le> tp \<and> bottom \<le> b \<and> l \<le> x \<and> x < r}"
proof -
  let ?ss = "sort (map (\<lambda>(l, t, r, b). (l, r)) (filter (\<lambda>(l, t, r, b). t \<le> tp \<and> b \<ge> bottom) rects))"
  have "\<forall>s\<in>set ?ss. fst s < snd s" using assms by (auto simp: box_ok_def)
  from merge_spans_ok [of "[]", OF _ this sorted_map_fst]
  have "spans_ok (foldl merge_span [] ?ss)
      \<and> (\<Union>(span_xs ` set (foldl merge_span [] ?ss))) = (\<Union>(span_xs ` set ?ss))"
    by (simp add: spans_ok_def)
  moreover have "(\<Union>(span_xs ` set ?ss))
      = {x. \<exists>(l, t, r, b)\<in>set rects. t \<le> tp \<and> bottom \<le> b \<and> l \<le> x \<and> x < r}"
    by (auto simp: span_xs_def) fastforce
  ultimately show ?thesis by (simp add: band_spans_def)
qed

section \<open>Edges\<close>

lemma strict_remdups_adj: "sorted xs \<Longrightarrow> sorted_wrt (<) (remdups_adj (xs :: u32 list))"
  by (induction xs rule: remdups_adj.induct) (auto simp: order.strict_iff_order)

lemma rect_edges_strict: "sorted_wrt (<) (rect_edges rects)"
  unfolding rect_edges_def by (rule strict_remdups_adj) simp

lemma rect_edges_mem:
  "(l, t, r, b) \<in> set rects \<Longrightarrow> t \<in> set (rect_edges rects) \<and> b \<in> set (rect_edges rects)"
  by (force simp: rect_edges_def)

text \<open>Between two neighbouring edges a rectangle covers every row or none.\<close>

lemma covers_band:
  assumes "sorted_wrt (<) (ps @ tp # bottom # es)" and "{t, b} \<subseteq> set (ps @ tp # bottom # es)"
    and "tp \<le> y" and "y < (bottom :: u32)"
  shows "t \<le> y \<and> y < b \<longleftrightarrow> t \<le> tp \<and> bottom \<le> b"
proof -
  have e: "e \<le> tp \<or> bottom \<le> e" if "e \<in> set (ps @ tp # bottom # es)" for e
    using that assms(1) by (auto simp: sorted_wrt_append less_imp_le)
  from assms(2) have "t \<le> tp \<or> bottom \<le> t" "b \<le> tp \<or> bottom \<le> b" using e by auto
  with assms(3,4) show ?thesis by auto
qed

lemma band_rows:
  assumes edges: "rect_edges rects = ps @ tp # bottom # es" and "tp \<le> y" and "y < bottom"
  shows "(x, y) \<in> boxes_pixels rects \<longleftrightarrow>
    (\<exists>(l, t, r, b)\<in>set rects. t \<le> tp \<and> bottom \<le> b \<and> l \<le> x \<and> x < r)"
proof -
  have "t \<le> y \<and> y < b \<longleftrightarrow> t \<le> tp \<and> bottom \<le> b" if "(l, t, r, b) \<in> set rects" for l t r b
  proof (rule covers_band [OF _ _ assms(2,3)])
    show "sorted_wrt (<) (ps @ tp # bottom # es)" using rect_edges_strict [of rects] edges by simp
    show "{t, b} \<subseteq> set (ps @ tp # bottom # es)" using rect_edges_mem [OF that] edges by simp
  qed
  then show ?thesis by (auto simp: boxes_pixels_def box_pixels_def) blast+
qed

section \<open>The banded union\<close>

lemma set_bottom_all:
  "foldl (set_bottom bottom) (pre @ xs) [length pre..<length pre + length xs]
     = pre @ map (\<lambda>(l, t, r, b). (l, t, r, bottom)) xs"
proof (induction xs arbitrary: pre)
  case (Cons x xs)
  let ?x = "case x of (l, t, r, b) \<Rightarrow> (l, t, r, bottom)"
  have "[length pre..<length pre + length (x # xs)]
      = length pre # [length (pre @ [?x])..<length (pre @ [?x]) + length xs]"
    by (subst upt_conv_Cons) simp_all
  moreover have "set_bottom bottom (pre @ x # xs) (length pre) = (pre @ [?x]) @ xs"
    by (simp add: set_bottom_def)
  ultimately show ?case
    using Cons [of "pre @ [?x]"] by (simp only: foldl_Cons) simp
qed simp

definition box_bottom :: "ltrb \<Rightarrow> u32" where
  "box_bottom = (\<lambda>(l, t, r, b). b)"

definition union_inv :: "ltrb list \<Rightarrow> u32 \<Rightarrow> union_state \<Rightarrow> bool" where
  "union_inv rects e s \<longleftrightarrow>
     (\<exists>pre t0. us_out s = pre @ map (\<lambda>(l, r). (l, t0, r, e)) (us_spans s)
        \<and> us_boxes s = [length pre..<length (us_out s)]
        \<and> (us_spans s \<noteq> [] \<longrightarrow> t0 < e) \<and> (\<forall>a\<in>set pre. box_bottom a \<le> t0))
     \<and> spans_ok (us_spans s) \<and> (\<forall>a\<in>set (us_out s). box_ok a \<and> box_bottom a \<le> e)
     \<and> sorted_wrt box_before (us_out s)
     \<and> boxes_pixels (us_out s) = {(x, y). (x, y) \<in> boxes_pixels rects \<and> y < e}"

lemma band_boxes:
  assumes "spans_ok ss" and "ss \<noteq> [] \<longrightarrow> t < b"
  shows "sorted_wrt box_before (map (\<lambda>(l, r). (l, t, r, b)) ss)
    \<and> (\<forall>a\<in>set (map (\<lambda>(l, r). (l, t, r, b)) ss). box_ok a \<and> box_bottom a = b)
    \<and> boxes_pixels (map (\<lambda>(l, r). (l, t, r, b)) ss)
        = {(x, y). x \<in> (\<Union>(span_xs ` set ss)) \<and> t \<le> y \<and> y < b}"
proof -
  have "sorted_wrt box_before (map (\<lambda>(l, r). (l, t, r, b)) ss)"
    using assms(1) unfolding spans_ok_def sorted_wrt_map
    by (elim conjE sorted_wrt_mono_rel [rotated]) (auto simp: box_before_def)
  moreover have "boxes_pixels (map (\<lambda>(l, r). (l, t, r, b)) ss)
      = {(x, y). x \<in> (\<Union>(span_xs ` set ss)) \<and> t \<le> y \<and> y < b}"
    by (auto simp: boxes_pixels_def box_pixels_def span_xs_def) force+
  ultimately show ?thesis
    using assms by (auto simp: spans_ok_def box_ok_def box_bottom_def)
qed

lemma boxes_pixels_append [simp]: "boxes_pixels (xs @ ys) = boxes_pixels xs \<union> boxes_pixels ys"
  by (auto simp: boxes_pixels_def)

lemma sorted_boxes_append:
  assumes "sorted_wrt box_before xs" and "\<forall>a\<in>set xs. box_bottom a \<le> t"
    and "spans_ok ss" and "ss \<noteq> [] \<longrightarrow> t < b"
  shows "sorted_wrt box_before (xs @ map (\<lambda>(l, r). (l, t, r, b)) ss)"
  using assms band_boxes [OF assms(3,4)]
  by (auto simp: sorted_wrt_append box_before_def box_bottom_def)

text \<open>One band, with its effect on the union written out: the spans either extend the previous
  band's boxes or start new ones.\<close>

lemma union_band_inv:
  assumes rects: "\<forall>r\<in>set rects. box_ok r"
    and edges: "rect_edges rects = ps @ tp # bottom # es"
    and inv: "union_inv rects tp s" and run: "union_band rects (tp, bottom) s = Some s'"
  shows "union_inv rects bottom s'"
proof -
  let ?m = "band_spans rects tp bottom"
  have lt: "tp < bottom" using rect_edges_strict [of rects] by (simp add: edges sorted_wrt_append)
  then have le: "z \<le> tp \<Longrightarrow> z \<le> bottom" for z by simp
  have ok: "spans_ok ?m" and xs: "(\<Union>(span_xs ` set ?m))
      = {x. \<exists>(l, t, r, b)\<in>set rects. t \<le> tp \<and> bottom \<le> b \<and> l \<le> x \<and> x < r}"
    using band_spans_ok [OF rects] by auto
  have band: "(x, y) \<in> boxes_pixels rects \<longleftrightarrow> x \<in> (\<Union>(span_xs ` set ?m))" if "tp \<le> y" "y < bottom" for x y
    using band_rows [OF edges that, of x] xs by simp
  from inv obtain pre t0 where out: "us_out s = pre @ map (\<lambda>(l, r). (l, t0, r, tp)) (us_spans s)"
    and boxes: "us_boxes s = [length pre..<length (us_out s)]"
    and t0: "us_spans s \<noteq> [] \<longrightarrow> t0 < tp" and pre: "\<forall>a\<in>set pre. box_bottom a \<le> t0"
    and okb: "\<forall>a\<in>set (us_out s). box_ok a \<and> box_bottom a \<le> tp"
    and srt: "sorted_wrt box_before (us_out s)"
    and px: "boxes_pixels (us_out s) = {(x, y). (x, y) \<in> boxes_pixels rects \<and> y < tp}"
    unfolding union_inv_def by blast
  show ?thesis
  proof (cases "us_bottom s = Some tp \<and> ?m = us_spans s")
    case True
    define out' where "out' = pre @ map (\<lambda>(l, r). (l, t0, r, bottom)) ?m"
    have t0': "?m \<noteq> [] \<longrightarrow> t0 < bottom" "?m \<noteq> [] \<longrightarrow> t0 < tp" using t0 lt True by auto
    have "foldl (set_bottom bottom) (us_out s) (us_boxes s) = out'"
      using set_bottom_all [of bottom pre "map (\<lambda>(l, r). (l, t0, r, tp)) ?m"] boxes out True
      by (simp add: out'_def comp_def split_def)
    with True run have s': "s' = s\<lparr>us_out := out', us_bottom := Some bottom\<rparr>"
      by (auto simp: union_band_def)
    have "boxes_pixels out' = {(x, y). (x, y) \<in> boxes_pixels rects \<and> y < bottom}"
    proof (intro set_eqI, clarify)
      fix x y
      have "(x, y) \<in> boxes_pixels pre \<union> {(x, y). x \<in> (\<Union>(span_xs ` set ?m)) \<and> t0 \<le> y \<and> y < tp}
          \<longleftrightarrow> (x, y) \<in> boxes_pixels rects \<and> y < tp"
        using px out True band_boxes [OF ok t0'(2)] by auto
      then show "(x, y) \<in> boxes_pixels out' \<longleftrightarrow>
          (x, y) \<in> {(x, y). (x, y) \<in> boxes_pixels rects \<and> y < bottom}"
        using band [of y x] band_boxes [OF ok t0'(1)] lt t0'
        by (cases "y < tp") (auto simp: out'_def not_less)
    qed
    moreover have "\<forall>a\<in>set out'. box_ok a \<and> box_bottom a \<le> bottom"
      using okb band_boxes [OF ok t0'(1)] unfolding out'_def out set_append by (blast intro: le order_eq_refl)
    moreover have "sorted_wrt box_before out'"
      unfolding out'_def using srt out pre ok t0'
      by (intro sorted_boxes_append) (auto simp: sorted_wrt_append)
    moreover have "us_out s' = pre @ map (\<lambda>(l, r). (l, t0, r, bottom)) (us_spans s')
        \<and> us_boxes s' = [length pre..<length (us_out s')]
        \<and> (us_spans s' \<noteq> [] \<longrightarrow> t0 < bottom) \<and> (\<forall>a\<in>set pre. box_bottom a \<le> t0)"
      using pre boxes out True t0'(1) by (simp add: s' out'_def)
    then have "\<exists>pre t0. us_out s' = pre @ map (\<lambda>(l, r). (l, t0, r, bottom)) (us_spans s')
        \<and> us_boxes s' = [length pre..<length (us_out s')]
        \<and> (us_spans s' \<noteq> [] \<longrightarrow> t0 < bottom) \<and> (\<forall>a\<in>set pre. box_bottom a \<le> t0)"
      by (intro exI)
    ultimately show ?thesis
      unfolding union_inv_def using True ok by (simp add: s')
  next
    case False
    define out' where "out' = us_out s @ map (\<lambda>(l, r). (l, tp, r, bottom)) ?m"
    from False run have s': "s' = \<lparr>us_out = out', us_spans = ?m,
        us_boxes = [length (us_out s)..<length out'], us_bottom = Some bottom\<rparr>"
      by (auto simp: union_band_def Let_def out'_def split: if_splits)
    have lt': "?m \<noteq> [] \<longrightarrow> tp < bottom" using lt by simp
    have "boxes_pixels out' = {(x, y). (x, y) \<in> boxes_pixels rects \<and> y < bottom}"
    proof (intro set_eqI, clarify)
      fix x y
      show "(x, y) \<in> boxes_pixels out' \<longleftrightarrow>
          (x, y) \<in> {(x, y). (x, y) \<in> boxes_pixels rects \<and> y < bottom}"
        using px band [of y x] band_boxes [OF ok lt'] lt
        by (cases "y < tp") (auto simp: out'_def not_less)
    qed
    moreover have "\<forall>a\<in>set out'. box_ok a \<and> box_bottom a \<le> bottom"
      using okb band_boxes [OF ok lt'] unfolding out'_def set_append by (blast intro: le order_eq_refl)
    moreover have "sorted_wrt box_before out'"
      unfolding out'_def using srt okb ok lt' by (intro sorted_boxes_append) auto
    moreover have "us_out s' = us_out s @ map (\<lambda>(l, r). (l, tp, r, bottom)) (us_spans s')
        \<and> us_boxes s' = [length (us_out s)..<length (us_out s')]
        \<and> (us_spans s' \<noteq> [] \<longrightarrow> tp < bottom) \<and> (\<forall>a\<in>set (us_out s). box_bottom a \<le> tp)"
      using okb lt by (simp add: s' out'_def)
    then have "\<exists>pre t0. us_out s' = pre @ map (\<lambda>(l, r). (l, t0, r, bottom)) (us_spans s')
        \<and> us_boxes s' = [length pre..<length (us_out s')]
        \<and> (us_spans s' \<noteq> [] \<longrightarrow> t0 < bottom) \<and> (\<forall>a\<in>set pre. box_bottom a \<le> t0)"
      by (intro exI)
    ultimately show ?thesis
      unfolding union_inv_def using ok by (simp add: s')
  qed
qed

lemma union_bands_inv:
  assumes "\<forall>r\<in>set rects. box_ok r" and "rect_edges rects = ps @ e # es"
    and "union_inv rects e s" and "union_bands rects (zip (e # es) es) s = Some s'"
  shows "union_inv rects (last (e # es)) s'"
  using assms(2-)
proof (induction es arbitrary: ps e s)
  case (Cons bottom es)
  from Cons.prems(3) obtain s1 where s1: "union_band rects (e, bottom) s = Some s1"
    "union_bands rects (zip (bottom # es) es) s1 = Some s'" by (auto split: option.splits)
  from union_band_inv [OF assms(1) Cons.prems(1,2) s1(1)] have "union_inv rects bottom s1" .
  with Cons.IH [of "ps @ [e]" bottom s1] Cons.prems(1) s1(2) show ?case by simp
qed simp

lemma strict_sorted_ends:
  assumes "sorted_wrt (<) (e # es)" and "z \<in> set (e # es)"
  shows "e \<le> z \<and> z \<le> last (e # es :: u32 list)"
  using assms
proof (induction es arbitrary: e z)
  case (Cons a es)
  from Cons.prems(1) have "e < a" "sorted_wrt (<) (a # es)" by auto
  with Cons.IH [of a a] Cons.IH [of a z] Cons.prems(2) show ?case by fastforce
qed simp

lemma clip_union_ok:
  assumes rects: "\<forall>r\<in>set rects. box_ok r" "rects \<noteq> []" and "clip_union rects = Some bs"
  shows "sorted_wrt box_before bs \<and> (\<forall>b\<in>set bs. box_ok b) \<and> boxes_pixels bs = boxes_pixels rects"
proof -
  from rects(2) obtain l t r b where "(l, t, r, b) \<in> set rects" by (cases rects) auto
  then have "rect_edges rects \<noteq> []" using rect_edges_mem by force
  then obtain e es where edges: "rect_edges rects = e # es" by (cases "rect_edges rects") auto
  let ?s = "\<lparr>us_out = [], us_spans = [], us_boxes = [], us_bottom = None\<rparr>"
  from assms(3) obtain s where s: "union_bands rects (zip (e # es) es) ?s = Some s" "bs = us_out s"
    by (auto simp: clip_union_def edges Let_def)
  have inside: "e \<le> y \<and> y < last (e # es)" if "(x, y) \<in> boxes_pixels rects" for x y
  proof -
    from that obtain l t r b where r: "(l, t, r, b) \<in> set rects" "t \<le> y" "y < b"
      by (auto simp: boxes_pixels_def box_pixels_def)
    then have "t \<in> set (e # es)" "b \<in> set (e # es)" using rect_edges_mem [OF r(1)] edges by simp_all
    then have "e \<le> t" "b \<le> last (e # es)"
      using strict_sorted_ends [of e es] rect_edges_strict [of rects] edges by auto
    with r show ?thesis using order_trans [of e t y] order_less_le_trans [of y b] by blast
  qed
  then have "{(x, y). (x, y) \<in> boxes_pixels rects \<and> y < e} = {}" by fastforce
  then have "union_inv rects e ?s"
    by (simp only: union_inv_def) (simp add: spans_ok_def boxes_pixels_def [of "[]"])
  from union_bands_inv [OF rects(1) _ this s(1), of "[]"] edges
  have "union_inv rects (last (e # es)) s" by simp
  moreover have "{(x, y). (x, y) \<in> boxes_pixels rects \<and> y < last (e # es)} = boxes_pixels rects"
    using inside by fastforce
  ultimately show ?thesis using s(2) by (simp add: union_inv_def)
qed

lemma length_clip_union:
  assumes "union_bands rects bands s = Some s'" and "length (us_out s) \<le> MAX_CLIP_RECTS"
  shows "length (us_out s') \<le> MAX_CLIP_RECTS"
proof -
  have len: "length (foldl (set_bottom e) out is) = length out" for e out "is"
    by (induction "is" arbitrary: out) (simp_all add: set_bottom_def)
  show ?thesis using assms
  proof (induction rects bands s rule: union_bands.induct)
    case (2 rects band bands s)
    from 2(2) obtain s1 where s1: "union_band rects band s = Some s1" "union_bands rects bands s1 = Some s'"
      by (auto split: option.splits)
    then have "length (us_out s1) \<le> MAX_CLIP_RECTS"
      using 2(3) len by (auto simp: union_band_def Let_def split: prod.splits if_splits)
    with 2(1) [OF s1] show ?case .
  qed simp
qed

text \<open>A box of pixels of the destination lies in the destination.\<close>

lemma box_in_pixels:
  assumes "box_ok b" and "box_pixels b \<subseteq> box_pixels d"
  shows "box_in b d"
proof -
  obtain l t r bt where b: "b = (l, t, r, bt)" by (cases b)
  obtain dl dt dr db where d: "d = (dl, dt, dr, db)" by (cases d)
  have ne: "l < r" "t < bt" using assms(1) by (simp_all add: b box_ok_def)
  have pred: "x \<le> y - 1 \<and> y - 1 < y" if "x < y" for x y :: u32 using that by uint_arith
  from assms(2) ne have "(l, t) \<in> box_pixels d" "(r - 1, bt - 1) \<in> box_pixels d"
    using pred [of l r] pred [of t bt] by (auto simp: b box_pixels_def)
  then have "dl \<le> l" "dt \<le> t" "r - 1 < dr" "bt - 1 < db" by (simp_all add: d box_pixels_def)
  moreover have "y \<le> z" if "y - 1 < z" "x < y" for x y z :: u32 using that by uint_arith
  ultimately show ?thesis using ne by (auto simp: b d box_in_def)
qed

lemma clip_area_Rects:
  assumes "clip_area c dest = Rects bs"
  shows "sorted_wrt box_before bs \<and> (\<forall>b\<in>set bs. box_ok b \<and> box_in b dest)
    \<and> boxes_pixels bs = (\<Union>r\<in>set (clip_rects c). wire_pixels r) \<inter> box_pixels dest
    \<and> length bs \<le> MAX_CLIP_RECTS \<and> bs \<noteq> []"
proof -
  from assms obtain ds where ds: "distinct_clamped dest (clip_rects c) [] = Some ds" "ds \<noteq> []"
    and bs: "clip_union (sort ds) = Some bs"
    by (auto simp: clip_area_def split: if_splits option.splits)
  from distinct_clamped_Some [OF ds(1)] have ok: "\<forall>b\<in>set (sort ds). box_ok b"
    and px: "boxes_pixels ds = (\<Union>r\<in>set (clip_rects c). wire_pixels r) \<inter> box_pixels dest"
    by (auto simp: boxes_pixels_def)
  have "sort ds \<noteq> []" using ds(2) by (metis length_sort length_0_conv)
  then have u: "sorted_wrt box_before bs" "\<forall>b\<in>set bs. box_ok b" "boxes_pixels bs = boxes_pixels ds"
    using clip_union_ok [OF ok _ bs] by (simp_all add: boxes_pixels_def)
  have "box_in b dest" if "b \<in> set bs" for b
    by (rule box_in_pixels) (use that u px in \<open>auto simp: boxes_pixels_def\<close>)
  moreover have "length bs \<le> MAX_CLIP_RECTS"
    using bs length_clip_union by (fastforce simp: clip_union_def Let_def)
  moreover have "bs \<noteq> []"
  proof
    assume "bs = []"
    with u(3) have "boxes_pixels ds = {}" by (simp add: boxes_pixels_def)
    moreover obtain b where "b \<in> set ds" using ds(2) by (cases ds) auto
    moreover from this ok have "box_pixels b \<noteq> {}" by (intro box_pixels_nonempty) simp
    ultimately show False by (simp add: boxes_pixels_def)
  qed
  ultimately show ?thesis using u px by blast
qed

lemma clip_area_Nothing:
  assumes "clip_area c dest = Nothing"
  shows "(\<Union>r\<in>set (clip_rects c). wire_pixels r) \<inter> box_pixels dest = {}"
proof -
  from assms have "distinct_clamped dest (clip_rects c) [] = Some []"
    by (auto simp: clip_area_def split: if_splits option.splits)
  from distinct_clamped_Some [OF this] show ?thesis by (simp add: boxes_pixels_def)
qed

text \<open>Few rectangles are never refused: each band of the union has at most as many spans as there
  are rectangles, and there are fewer bands than edges.\<close>

lemma distinct_clamped_few:
  assumes "length acc + length rs \<le> MAX_CLIP_RECTS"
  shows "\<exists>ds. distinct_clamped dest rs acc = Some ds \<and> length ds \<le> length acc + length rs"
  using assms
proof (induction dest rs acc rule: distinct_clamped.induct)
  case (2 dest r rs acc)
  show ?case
  proof (cases "clamp r dest")
    case None
    with 2(1) [OF None] 2(3) show ?thesis by fastforce
  next
    case (Some c)
    have len: "length (List.insert c acc) \<le> Suc (length acc)" by (simp add: List.insert_def)
    with 2(3) have "\<not> length (List.insert c acc) > MAX_CLIP_RECTS" by simp
    with 2(2) [OF Some refl this] 2(3) len Some show ?thesis by fastforce
  qed
qed simp

lemma union_bands_few:
  assumes "length (us_out s) + length bands * length rects \<le> MAX_CLIP_RECTS"
  shows "union_bands rects bands s \<noteq> None"
proof -
  have len: "length (foldl (set_bottom e) out is) = length out" for e out "is"
    by (induction "is" arbitrary: out) (simp_all add: set_bottom_def)
  show ?thesis using assms
  proof (induction rects bands s rule: union_bands.induct)
    case (2 rects band bands s)
    obtain t b where band: "band = (t, b)" by (cases band)
    have "length (us_out s) + length (band_spans rects t b) \<le> MAX_CLIP_RECTS"
      using 2(2) length_band_spans [of rects t b] by simp
    then have "\<exists>s1. union_band rects band s = Some s1 \<and> length (us_out s1) \<le> length (us_out s) + length rects"
      using length_band_spans [of rects t b]
      by (cases "us_bottom s = Some t \<and> band_spans rects t b = us_spans s")
        (simp_all add: band union_band_def Let_def len)
    then obtain s1 where s1: "union_band rects band s = Some s1"
      "length (us_out s1) \<le> length (us_out s) + length rects" by blast
    with 2(1) [OF s1(1)] 2(2) show ?case by simp
  qed simp
qed

lemma length_rect_edges: "length (rect_edges rects) \<le> 2 * length rects"
proof -
  have "length (concat (map (\<lambda>(l, t, r, b). [t, b]) rects)) = 2 * length rects"
    by (induction rects) auto
  with remdups_adj_length [of "sort (concat (map (\<lambda>(l, t, r, b). [t, b]) rects))"] show ?thesis
    by (simp add: rect_edges_def)
qed

lemma clip_few_accepted:
  assumes "length (clip_rects c) \<le> 22"
  shows "clip_area c dest \<noteq> TooComplex n"
proof -
  obtain ds where ds: "distinct_clamped dest (clip_rects c) [] = Some ds" "length ds \<le> 22"
    using distinct_clamped_few [of "[]" "clip_rects c" dest] assms by (auto simp: MAX_CLIP_RECTS_def)
  let ?e = "rect_edges (sort ds)"
  have "length (zip ?e (tl ?e)) \<le> 43" using length_rect_edges [of "sort ds"] ds(2) by simp
  then have "length (zip ?e (tl ?e)) * length (sort ds) \<le> 43 * 22"
    using ds(2) by (intro mult_le_mono) simp_all
  then have "clip_union (sort ds) \<noteq> None"
    using union_bands_few [of "\<lparr>us_out = [], us_spans = [], us_boxes = [], us_bottom = None\<rparr>"
        "zip ?e (tl ?e)" "sort ds"]
    by (auto simp: clip_union_def Let_def MAX_CLIP_RECTS_def)
  with ds show ?thesis by (auto simp: clip_area_def split: option.splits)
qed

section \<open>Properties\<close>

text \<open>C18: What a clip leaves of a draw's destination is exact. A list of rectangles is never empty, has
  at most 1024 of them, each non-empty and inside the destination, no two sharing a pixel, banded
  top to bottom and left to right; together they cover exactly the destination's pixels the clip's
  signed rectangles cover. The answer that nothing is left is given only when no such pixel exists,
  and the whole destination only for a clip that is not a rectangle list.\<close>

theorem clip_area_exact:
  "case clip_area c dest of
     Whole \<Rightarrow> clip_kind c \<noteq> CLIP_RECTS
   | Rects bs \<Rightarrow> bs \<noteq> [] \<and> length bs \<le> MAX_CLIP_RECTS
       \<and> list_all (\<lambda>b. box_pixels b \<noteq> {} \<and> box_in b dest) bs
       \<and> sorted_wrt box_before bs \<and> sorted_wrt (\<lambda>a b. box_pixels a \<inter> box_pixels b = {}) bs
       \<and> boxes_pixels bs = (\<Union>(wire_pixels ` set (clip_rects c))) \<inter> box_pixels dest
   | Nothing \<Rightarrow> (\<Union>(wire_pixels ` set (clip_rects c))) \<inter> box_pixels dest = {}
   | TooComplex n \<Rightarrow> n = length (clip_rects c)"
proof (cases "clip_area c dest")
  case (Rects bs)
  note r = clip_area_Rects [OF Rects]
  have "sorted_wrt (\<lambda>a b. box_pixels a \<inter> box_pixels b = {}) bs"
    by (rule sorted_wrt_mono_rel [OF box_before_disjoint conjunct1 [OF r]])
  with r Rects show ?thesis by (simp add: list_all_iff box_pixels_nonempty)
next
  case Nothing
  with clip_area_Nothing [OF Nothing] show ?thesis by simp
next
  case (TooComplex n)
  then show ?thesis by (auto simp: clip_area_def split: if_splits option.splits)
qed (auto simp: clip_area_def split: if_splits option.splits)

text \<open>C33: A clip of at most 22 rectangles is never refused as too complex, whatever the rectangles and
  the destination.\<close>

theorem clip_area_accepts:
  assumes "length (clip_rects c) \<le> 22"
  shows "clip_area c dest \<noteq> TooComplex n"
  using clip_few_accepted [OF assms] .

theorem clip_area_accepts_witness:
  "clip_area (Clip_of_rects (replicate 22 \<lparr>rc_top = 0, rc_left = -1, rc_bottom = 5, rc_right = 9\<rparr>))
     (0, 0, 100, 100) \<noteq> TooComplex 22"
  by (rule clip_area_accepts) (simp add: Clip_of_rects_def)

end
