(* ===== verification/Surface.thy ===== *)
theory Surface
  imports Image Damage Clip_Area
begin

text \<open>
  Display surfaces (\<open>shakenfist-spice-renderer/src/display/surface.rs\<close>): an RGBA pixel buffer that
  the server's draws are painted on, with a dirty flag and a damage region. Every access to the
  buffer is bounds-checked as in the source: an operation that would index past the end is \<open>None\<close>,
  the panic.
\<close>

section \<open>Loops and checked accesses\<close>

fun for_each :: "'a list \<Rightarrow> ('a \<Rightarrow> 's \<Rightarrow> 's option) \<Rightarrow> 's \<Rightarrow> 's option" where
  "for_each [] f s = Some s"
| "for_each (x # xs) f s = (case f x s of None \<Rightarrow> None | Some s' \<Rightarrow> for_each xs f s')"

type_synonym rgba = "u8 \<times> u8 \<times> u8 \<times> u8"

definition write_pixel :: "bytes \<Rightarrow> nat \<Rightarrow> rgba \<Rightarrow> bytes option" where
  "write_pixel buf p c =
     (case c of (r, g, b, a) \<Rightarrow> if p + 3 < length buf then Some (set_pixel buf p r g b a) else None)"

definition read_slice :: "bytes \<Rightarrow> nat \<Rightarrow> nat \<Rightarrow> bytes option" where
  "read_slice buf i n = (if i + n \<le> length buf then Some (take n (drop i buf)) else None)"

definition write_slice :: "bytes \<Rightarrow> nat \<Rightarrow> bytes \<Rightarrow> bytes option" where
  "write_slice buf i xs = (if i + length xs \<le> length buf then Some (copy_slice buf i xs) else None)"

section \<open>The surface\<close>

definition MAX_SURFACE_DIMENSION :: u32 where "MAX_SURFACE_DIMENSION = MAX_IMAGE_DIMENSION"

record display_surface =
  ds_id :: u32
  ds_width :: u32
  ds_height :: u32
  ds_pixels :: bytes
  ds_dirty :: bool
  ds_damage :: damage_region

definition DisplaySurface_new :: "u32 \<Rightarrow> u32 \<Rightarrow> u32 \<Rightarrow> display_surface" where
  "DisplaySurface_new i width height =
     (let (w, h) = (if width > MAX_SURFACE_DIMENSION \<or> height > MAX_SURFACE_DIMENSION
                    then (min width MAX_SURFACE_DIMENSION, min height MAX_SURFACE_DIMENSION)
                    else (width, height)) in
      \<lparr>ds_id = i, ds_width = w, ds_height = h,
       ds_pixels = concat (replicate (unat w * unat h) [0, 0, 0, 255]),
       ds_dirty = True, ds_damage = DamageRegion_full w h\<rparr>)"

definition add_damage :: "u32 \<Rightarrow> u32 \<Rightarrow> u32 \<Rightarrow> u32 \<Rightarrow> display_surface \<Rightarrow> display_surface" where
  "add_damage l t r b s = s\<lparr>ds_damage := DamageRegion_add (ds_damage s) (DamageRect_new l t r b)\<rparr>"

definition saturating_add32 :: "u32 \<Rightarrow> u32 \<Rightarrow> u32" where
  "saturating_add32 a b = (if unat a + unat b < 2 ^ 32 then a + b else - 1)"

definition blit :: "display_surface \<Rightarrow> u32 \<Rightarrow> u32 \<Rightarrow> u32 \<Rightarrow> u32 \<Rightarrow> bytes \<Rightarrow> display_surface option" where
  "blit s left tp width height pixels =
     (if left \<ge> ds_width s \<or> tp \<ge> ds_height s then Some s
      else
        let src_stride = unat width * 4;
            dst_stride = unat (ds_width s) * 4;
            dst_left = unat left * 4;
            copy_width = min src_stride (dst_stride - dst_left) in
        case for_each (takeWhile (\<lambda>y. unat tp + y < unat (ds_height s)) [0..<unat height])
               (\<lambda>y buf.
                  let src_start = y * src_stride;
                      dst_start = (unat tp + y) * dst_stride + dst_left in
                  if src_start + copy_width \<le> length pixels \<and> dst_start + copy_width \<le> length buf
                  then Some (copy_slice buf dst_start (take copy_width (drop src_start pixels)))
                  else Some buf)
               (ds_pixels s) of
          None \<Rightarrow> None
        | Some px \<Rightarrow>
            let right = left + word_of_nat (copy_width div 4);
                bottom = min (saturating_add32 tp height) (ds_height s) in
            Some ((add_damage left tp right bottom (s\<lparr>ds_pixels := px\<rparr>))\<lparr>ds_dirty := True\<rparr>))"

definition clip_to_bounds :: "u32 \<Rightarrow> u32 \<Rightarrow> u32 \<Rightarrow> u32 \<Rightarrow> u32 \<Rightarrow> u32 \<Rightarrow> ltrb option" where
  "clip_to_bounds width height left tp right bottom =
     (let l = min left width; t = min tp height; r = min right width; b = min bottom height in
      if l \<ge> r \<or> t \<ge> b then None else Some (l, t, r, b))"

text \<open>
  What filling, copying and inverting share: the box is painted whole, or once per clip rectangle
  that meets it, and each painted box is damage.
\<close>

definition paint_one ::
  "(ltrb \<Rightarrow> display_surface \<Rightarrow> display_surface option) \<Rightarrow> ltrb \<Rightarrow> ltrb \<Rightarrow> display_surface \<times> bool
    \<Rightarrow> (display_surface \<times> bool) option" where
  "paint_one paint box c st =
     (case (box, c, st) of ((l, t, r, b), (cl, ct, cr, cb), (s, wrote)) \<Rightarrow>
       let il = max l cl; it = max t ct; ir = min r cr; ib = min b cb in
       if il \<ge> ir \<or> it \<ge> ib then Some (s, wrote)
       else case paint (il, it, ir, ib) s of
         None \<Rightarrow> None | Some s' \<Rightarrow> Some (add_damage il it ir ib s', True))"

definition paint_clipped ::
  "(ltrb \<Rightarrow> display_surface \<Rightarrow> display_surface option) \<Rightarrow> ltrb \<Rightarrow> ltrb list \<Rightarrow> display_surface
    \<Rightarrow> display_surface option" where
  "paint_clipped paint box clip s =
     (if clip = []
      then (case paint box s of
              None \<Rightarrow> None
            | Some s' \<Rightarrow> (case box of (l, t, r, b) \<Rightarrow> Some ((add_damage l t r b s')\<lparr>ds_dirty := True\<rparr>)))
      else
        case for_each clip (paint_one paint box) (s, False) of
          None \<Rightarrow> None
        | Some (s', wrote) \<Rightarrow> Some (if wrote then s'\<lparr>ds_dirty := True\<rparr> else s'))"

definition fill_subrect :: "rgba \<Rightarrow> ltrb \<Rightarrow> display_surface \<Rightarrow> display_surface option" where
  "fill_subrect colour box s =
     (case box of (left, tp, right, bottom) \<Rightarrow>
       let stride = unat (ds_width s * 4) in
       map_option (\<lambda>px. s\<lparr>ds_pixels := px\<rparr>)
         (for_each [unat tp..<unat bottom] (\<lambda>y.
            for_each [unat left..<unat right] (\<lambda>x buf. write_pixel buf (y * stride + x * 4) colour))
          (ds_pixels s)))"

definition fill_rect ::
  "display_surface \<Rightarrow> u32 \<Rightarrow> u32 \<Rightarrow> u32 \<Rightarrow> u32 \<Rightarrow> rgba \<Rightarrow> ltrb list \<Rightarrow> display_surface option" where
  "fill_rect s left tp right bottom colour clip =
     (case clip_to_bounds (ds_width s) (ds_height s) left tp right bottom of
        None \<Rightarrow> Some s
      | Some box \<Rightarrow> paint_clipped (fill_subrect colour) box clip s)"

definition invert_pixel :: "bytes \<Rightarrow> nat \<Rightarrow> bytes option" where
  "invert_pixel buf p =
     (if p + 2 < length buf
      then Some (buf[p := 255 - buf ! p, p + 1 := 255 - buf ! (p + 1), p + 2 := 255 - buf ! (p + 2)])
      else None)"

definition invert_subrect :: "ltrb \<Rightarrow> display_surface \<Rightarrow> display_surface option" where
  "invert_subrect box s =
     (case box of (left, tp, right, bottom) \<Rightarrow>
       let stride = unat (ds_width s * 4) in
       map_option (\<lambda>px. s\<lparr>ds_pixels := px\<rparr>)
         (for_each [unat tp..<unat bottom] (\<lambda>y.
            for_each [unat left..<unat right] (\<lambda>x buf. invert_pixel buf (y * stride + x * 4)))
          (ds_pixels s)))"

definition invert_rect ::
  "display_surface \<Rightarrow> u32 \<Rightarrow> u32 \<Rightarrow> u32 \<Rightarrow> u32 \<Rightarrow> ltrb list \<Rightarrow> display_surface option" where
  "invert_rect s left tp right bottom clip =
     (case clip_to_bounds (ds_width s) (ds_height s) left tp right bottom of
        None \<Rightarrow> Some s
      | Some box \<Rightarrow> paint_clipped invert_subrect box clip s)"

definition copy_subrect :: "u32 \<Rightarrow> u32 \<Rightarrow> ltrb \<Rightarrow> display_surface \<Rightarrow> display_surface option" where
  "copy_subrect sx sy box s =
     (case box of (dl, dt, dr, db) \<Rightarrow>
       let stride = unat (ds_width s * 4);
           w = unat (dr - dl); h = unat (db - dt);
           row_bytes = w * 4 in
       case for_each [0..<h]
              (\<lambda>row scratch.
                 case read_slice (ds_pixels s) ((unat sy + row) * stride + unat sx * 4) row_bytes of
                   None \<Rightarrow> None | Some xs \<Rightarrow> write_slice scratch (row * row_bytes) xs)
              (replicate (row_bytes * h) 0) of
         None \<Rightarrow> None
       | Some scratch \<Rightarrow>
           map_option (\<lambda>px. s\<lparr>ds_pixels := px\<rparr>)
             (for_each [0..<h]
               (\<lambda>row buf.
                  case read_slice scratch (row * row_bytes) row_bytes of
                    None \<Rightarrow> None
                  | Some xs \<Rightarrow> write_slice buf ((unat dt + row) * stride + unat dl * 4) xs)
               (ds_pixels s)))"

text \<open>
  The clipping of a copy to the surface: what is left of the destination, or nothing. The source is
  clipped too, and the destination shrunk by as much.
\<close>

definition copy_bits_box :: "u32 \<Rightarrow> u32 \<Rightarrow> u32 \<Rightarrow> u32 \<Rightarrow> ltrb \<Rightarrow> ltrb option" where
  "copy_bits_box w h sx sy dest =
     (case dest of (dl, dt, dr0, db0) \<Rightarrow>
       if dl \<ge> dr0 \<or> dt \<ge> db0 then None
       else let dr = (if dr0 > w then w else dr0); db = (if db0 > h then h else db0) in
       if dl \<ge> dr \<or> dt \<ge> db then None
       else if sx \<ge> w \<or> sy \<ge> h then None
       else let src_r = saturating_add32 sx (dr - dl); src_b = saturating_add32 sy (db - dt) in
       if src_r > w \<and> src_r - w \<ge> dr - dl then None
       else let dr' = (if src_r > w then dr - (src_r - w) else dr) in
       if src_b > h \<and> src_b - h \<ge> db - dt then None
       else let db' = (if src_b > h then db - (src_b - h) else db) in
       if dl \<ge> dr' \<or> dt \<ge> db' then None else Some (dl, dt, dr', db'))"

definition copy_shifted :: "u32 \<Rightarrow> u32 \<Rightarrow> u32 \<Rightarrow> u32 \<Rightarrow> ltrb \<Rightarrow> display_surface \<Rightarrow> display_surface option" where
  "copy_shifted sx sy dl dt box =
     (case box of (il, it, ir, ib) \<Rightarrow> copy_subrect (sx + (il - dl)) (sy + (it - dt)) (il, it, ir, ib))"

definition copy_bits ::
  "display_surface \<Rightarrow> u32 \<Rightarrow> u32 \<Rightarrow> u32 \<Rightarrow> u32 \<Rightarrow> u32 \<Rightarrow> u32 \<Rightarrow> ltrb list \<Rightarrow> display_surface option" where
  "copy_bits s sx sy dest_left dest_top dest_right dest_bottom clip =
     (case copy_bits_box (ds_width s) (ds_height s) sx sy (dest_left, dest_top, dest_right, dest_bottom) of
        None \<Rightarrow> Some s
      | Some (dl, dt, dr, db) \<Rightarrow>
          paint_clipped (copy_shifted sx sy dl dt) (dl, dt, dr, db) clip s)"

text \<open>The pixel of a source buffer at byte \<open>sp\<close>, as the blits with a per-pixel rule read it.\<close>

definition pixel_at :: "bytes \<Rightarrow> nat \<Rightarrow> rgba" where
  "pixel_at buf p = (buf ! p, buf ! (p + 1), buf ! (p + 2), buf ! (p + 3))"

definition blit_chroma ::
  "display_surface \<Rightarrow> u32 \<Rightarrow> u32 \<Rightarrow> u32 \<Rightarrow> u32 \<Rightarrow> bytes \<Rightarrow> rgba \<Rightarrow> display_surface option" where
  "blit_chroma s left tp width height pixels chroma =
     (if left \<ge> ds_width s \<or> tp \<ge> ds_height s then Some s
      else if width = 0 \<or> height = 0 then Some s
      else
        let clip_w = min width (ds_width s - left); clip_h = min height (ds_height s - tp) in
        if clip_w = 0 \<or> clip_h = 0 then Some s
        else
          let src_stride = unat width * 4; dst_stride = unat (ds_width s) * 4 in
          case for_each [0..<unat clip_h]
                 (\<lambda>y. for_each (takeWhile (\<lambda>x. y * src_stride + x * 4 + 4 \<le> length pixels) [0..<unat clip_w])
                    (\<lambda>x (buf, wrote).
                       case pixel_at pixels (y * src_stride + x * 4) of (sr, sg, sb, sa) \<Rightarrow>
                       case chroma of (cr, cg, cb, _) \<Rightarrow>
                         if sr = cr \<and> sg = cg \<and> sb = cb then Some (buf, wrote)
                         else map_option (\<lambda>buf'. (buf', True))
                           (write_pixel buf ((unat tp + y) * dst_stride + unat left * 4 + x * 4)
                             (sr, sg, sb, sa))))
                 (ds_pixels s, False) of
            None \<Rightarrow> None
          | Some (px, wrote) \<Rightarrow>
              Some (if wrote
                    then (add_damage left tp (left + clip_w) (tp + clip_h) (s\<lparr>ds_pixels := px\<rparr>))\<lparr>ds_dirty := True\<rparr>
                    else s\<lparr>ds_pixels := px\<rparr>))"

text \<open>Source-over blending of one channel, in the 16 bits the source computes it in.\<close>

definition effective_alpha :: "u8 \<Rightarrow> u8 \<Rightarrow> u16" where
  "effective_alpha sa alpha = (ucast sa * ucast alpha + 127) div 255"

definition blend_channel :: "u16 \<Rightarrow> u8 \<Rightarrow> u8 \<Rightarrow> u8" where
  "blend_channel ea sc dc = ucast ((ucast sc * ea + ucast dc * (255 - ea) + 127) div 255 :: u16)"

definition blend_pixel :: "u8 \<Rightarrow> rgba \<Rightarrow> bytes \<Rightarrow> nat \<Rightarrow> bytes option" where
  "blend_pixel alpha src buf dp =
     (case src of (sr, sg, sb, sa) \<Rightarrow>
       if dp + 3 < length buf
       then let ea = effective_alpha sa alpha in
         write_pixel buf dp (blend_channel ea sr (buf ! dp), blend_channel ea sg (buf ! (dp + 1)),
           blend_channel ea sb (buf ! (dp + 2)), 255)
       else None)"

definition blit_alpha ::
  "display_surface \<Rightarrow> u32 \<Rightarrow> u32 \<Rightarrow> u32 \<Rightarrow> u32 \<Rightarrow> bytes \<Rightarrow> u8 \<Rightarrow> display_surface option" where
  "blit_alpha s left tp width height pixels alpha =
     (if left \<ge> ds_width s \<or> tp \<ge> ds_height s then Some s
      else if width = 0 \<or> height = 0 \<or> alpha = 0 then Some s
      else
        let clip_w = min width (ds_width s - left); clip_h = min height (ds_height s - tp) in
        if clip_w = 0 \<or> clip_h = 0 then Some s
        else
          let src_stride = unat width * 4; dst_stride = unat (ds_width s) * 4 in
          map_option
            (\<lambda>px. (add_damage left tp (left + clip_w) (tp + clip_h) (s\<lparr>ds_pixels := px\<rparr>))\<lparr>ds_dirty := True\<rparr>)
            (for_each [0..<unat clip_h]
               (\<lambda>y. for_each (takeWhile (\<lambda>x. y * src_stride + x * 4 + 4 \<le> length pixels) [0..<unat clip_w])
                  (\<lambda>x buf. blend_pixel alpha (pixel_at pixels (y * src_stride + x * 4)) buf
                       ((unat tp + y) * dst_stride + unat left * 4 + x * 4)))
               (ds_pixels s)))"

definition consume_dirty :: "display_surface \<Rightarrow> bool \<times> display_surface" where
  "consume_dirty s = (ds_dirty s, s\<lparr>ds_dirty := False\<rparr>)"

definition take_damage :: "display_surface \<Rightarrow> damage_region \<times> display_surface" where
  "take_damage s = (ds_damage s, s\<lparr>ds_damage := DamageRegion_new\<rparr>)"

definition mark_all_damaged :: "display_surface \<Rightarrow> display_surface" where
  "mark_all_damaged s =
     s\<lparr>ds_damage := DamageRegion_full (ds_width s) (ds_height s), ds_dirty := True\<rparr>"

section \<open>Pixels of a buffer\<close>

lemma u32_lt: "unat (c :: u32) < 4294967296"
  using unsigned_less [of c] by simp

definition pix :: "nat \<Rightarrow> bytes \<Rightarrow> bytes" where
  "pix j buf = [buf ! (4 * j), buf ! (4 * j + 1), buf ! (4 * j + 2), buf ! (4 * j + 3)]"

lemma for_each_append:
  "for_each (xs @ ys) f s = (case for_each xs f s of None \<Rightarrow> None | Some s' \<Rightarrow> for_each ys f s')"
  by (induction xs arbitrary: s) (simp_all split: option.splits)

lemma for_each_map: "for_each (map h xs) f s = for_each xs (\<lambda>x. f (h x)) s"
  by (induction xs arbitrary: s) (simp_all split: option.splits)

text \<open>Two nested loops are one loop over the pairs.\<close>

lemma for_each_nested:
  "for_each ys (\<lambda>y. for_each (xs y) (f y)) s
     = for_each (concat (map (\<lambda>y. map (Pair y) (xs y)) ys)) (\<lambda>(y, x). f y x) s"
  by (induction ys arbitrary: s) (simp_all add: for_each_append for_each_map split: option.splits)

lemma for_each_inv:
  assumes "for_each xs f s = Some s'" and "P s"
    and "\<And>x t t'. x \<in> set xs \<Longrightarrow> P t \<Longrightarrow> f x t = Some t' \<Longrightarrow> P t'"
  shows "P s'"
  using assms
proof (induction xs arbitrary: s)
  case (Cons x xs)
  from Cons.prems(1) obtain t where t: "f x s = Some t" "for_each xs f t = Some s'"
    by (auto split: option.splits)
  have "P t" by (rule Cons.prems(3) [OF _ Cons.prems(2) t(1)]) simp
  then show ?case by (rule Cons.IH [OF t(2)]) (rule Cons.prems(3), simp_all)
qed simp

lemma for_each_inv2:
  assumes "for_each ys (\<lambda>y. for_each (xs y) (f y)) s = Some s'" and "P s"
    and "\<And>y x t t'. y \<in> set ys \<Longrightarrow> x \<in> set (xs y) \<Longrightarrow> P t \<Longrightarrow> f y x t = Some t' \<Longrightarrow> P t'"
  shows "P s'"
proof (rule for_each_inv [where P = P, OF assms(1,2)])
  show "P t'" if "y \<in> set ys" "P t" "for_each (xs y) (f y) t = Some t'" for y t t'
    by (rule for_each_inv [where P = P, OF that(3,2)]) (rule assms(3) [OF that(1)])
qed

text \<open>
  Steps that each rewrite their own set of pixels, and never the same pixel twice, rewrite each pixel
  as if the others did not happen. The state of the loop holds the buffer, and maybe more.
\<close>

definition repaints ::
  "nat \<Rightarrow> ('s \<Rightarrow> bytes) \<Rightarrow> nat set \<Rightarrow> (nat \<Rightarrow> bytes \<Rightarrow> bytes) \<Rightarrow> 's \<Rightarrow> 's \<Rightarrow> bool" where
  "repaints n buf K G s s' \<longleftrightarrow> length (buf s') = 4 * n
     \<and> (\<forall>j<n. pix j (buf s') = (if j \<in> K then G j (pix j (buf s)) else pix j (buf s)))"

lemma disjoint_steps:
  assumes "distinct qs" and "\<And>q q'. q \<in> set qs \<Longrightarrow> q' \<in> set qs \<Longrightarrow> q \<noteq> q' \<Longrightarrow> K q \<inter> K q' = {}"
    and "\<And>q s. q \<in> set qs \<Longrightarrow> length (buf s) = 4 * n \<Longrightarrow> \<exists>s'. f q s = Some s' \<and> repaints n buf (K q) (G q) s s'"
    and "length (buf s) = 4 * n"
  shows "\<exists>s'. for_each qs f s = Some s' \<and> length (buf s') = 4 * n
    \<and> (\<forall>j<n. (\<forall>q\<in>set qs. j \<in> K q \<longrightarrow> pix j (buf s') = G q j (pix j (buf s)))
        \<and> ((\<forall>q\<in>set qs. j \<notin> K q) \<longrightarrow> pix j (buf s') = pix j (buf s)))"
  using assms
proof (induction qs arbitrary: s)
  case (Cons q qs)
  from Cons.prems(3) [of q s] Cons.prems(4) obtain s1 where
    s1: "f q s = Some s1" "repaints n buf (K q) (G q) s s1" by auto
  then have len: "length (buf s1) = 4 * n" by (simp add: repaints_def)
  from Cons.IH [OF _ _ _ len] Cons.prems(1-3) obtain s' where
    s': "for_each qs f s1 = Some s'" "length (buf s') = 4 * n"
      "\<And>j q'. j < n \<Longrightarrow> q' \<in> set qs \<Longrightarrow> j \<in> K q' \<Longrightarrow> pix j (buf s') = G q' j (pix j (buf s1))"
      "\<And>j. j < n \<Longrightarrow> \<forall>q'\<in>set qs. j \<notin> K q' \<Longrightarrow> pix j (buf s') = pix j (buf s1)"
    by force
  have one: "pix j (buf s1) = (if j \<in> K q then G q j (pix j (buf s)) else pix j (buf s))" if "j < n" for j
    using s1(2) that by (simp add: repaints_def)
  have "pix j (buf s') = G q' j (pix j (buf s))" if j: "j < n" "q' \<in> set (q # qs)" "j \<in> K q'" for j q'
  proof (cases "q' = q")
    case True
    have "j \<notin> K q''" if "q'' \<in> set qs" for q''
      using Cons.prems(1) Cons.prems(2) [of q q''] that j True by auto
    with s'(4) [of j] one [OF j(1)] j True show ?thesis by simp
  next
    case False
    with Cons.prems(2) [of q' q] j have "j \<notin> K q" by auto
    with s'(3) [of j q'] one [OF j(1)] j False show ?thesis by simp
  qed
  moreover have "pix j (buf s') = pix j (buf s)" if "j < n" "\<forall>q'\<in>set (q # qs). j \<notin> K q'" for j
    using s'(4) [of j] one [of j] that by simp
  ultimately show ?case using s1(1) s'(1,2) by auto
qed simp

lemma pix_set_pixel:
  assumes "length buf = 4 * n" and "k < n" and "j < n"
  shows "pix j (set_pixel buf (4 * k) a b c d) = (if j = k then [a, b, c, d] else pix j buf)"
proof -
  have ne: "4 * j + i = 4 * k + i' \<longleftrightarrow> j = k \<and> i = i'" if "i < 4" "i' < 4" for i i' :: nat
    using that by presburger
  have nth: "set_pixel buf (4 * k) a b c d ! (4 * j + i) =
      (if j = k then [a, b, c, d] ! i else buf ! (4 * j + i))" if "i < 4" for i
  proof -
    have "i = 0 \<or> i = 1 \<or> i = 2 \<or> i = 3" using that by arith
    then show ?thesis
      using assms ne [OF that, of 0] ne [OF that, of 1] ne [OF that, of 2] ne [OF that, of 3]
      by (elim disjE) (simp_all add: set_pixel_def nth_list_update)
  qed
  show ?thesis
    using nth [of 0] nth [of 1] nth [of 2] nth [of 3] by (simp add: pix_def numeral_eq_Suc)
qed

lemma write_pixel_repaints:
  assumes "length buf = 4 * n" and "k < n"
  shows "\<exists>buf'. write_pixel buf (4 * k) (r, g, b, a) = Some buf'
    \<and> repaints n (\<lambda>b. b) {k} (\<lambda>_ _. [r, g, b, a]) buf buf'"
  using assms pix_set_pixel [OF assms(1,2)] by (auto simp: write_pixel_def repaints_def)

lemma pix_eq_iff:
  "pix j a = pix k b \<longleftrightarrow> (\<forall>i<4. a ! (4 * j + i) = b ! (4 * k + i))"
proof -
  have "(i :: nat) < 4 \<longleftrightarrow> i = 0 \<or> i = 1 \<or> i = 2 \<or> i = 3" for i by arith
  then show ?thesis by (auto simp: pix_def)
qed

lemma pix_copy_slice:
  assumes "length xs = 4 * m" and "4 * k + length xs \<le> length buf" and "4 * j + 4 \<le> length buf"
  shows "pix j (copy_slice buf (4 * k) xs) = (if k \<le> j \<and> j < k + m then pix (j - k) xs else pix j buf)"
proof (cases "k \<le> j \<and> j < k + m")
  case True
  then obtain d where d: "j = k + d" "d < m" using le_Suc_ex by fastforce
  show ?thesis
    using True d assms by (auto simp: pix_eq_iff copy_slice_def nth_append)
next
  case False
  then consider "j < k" | "k + m \<le> j" by linarith
  then show ?thesis
  proof cases
    case 1
    with False assms show ?thesis by (auto simp: pix_eq_iff copy_slice_def nth_append)
  next
    case 2
    then obtain d where d: "j = k + m + d" using le_Suc_ex by blast
    have "pix j (copy_slice buf (4 * k) xs) = pix j buf"
      unfolding pix_eq_iff using assms d
      by (auto simp: copy_slice_def nth_append algebra_simps)
    with False show ?thesis by auto
  qed
qed

lemma pix_take_drop:
  "4 * j + 4 \<le> m \<Longrightarrow> 4 * k + m \<le> length buf \<Longrightarrow> pix j (take m (drop (4 * k) buf)) = pix (k + j) buf"
  by (auto simp: pix_eq_iff algebra_simps)

lemma pix_nth:
  "pix j buf ! 0 = buf ! (4 * j)" "pix j buf ! Suc 0 = buf ! Suc (4 * j)"
  "pix j buf ! 2 = buf ! Suc (Suc (4 * j))" "pix j buf ! 3 = buf ! (4 * j + 3)"
  by (simp_all add: pix_def numeral_eq_Suc)

definition inverted :: "bytes \<Rightarrow> bytes" where
  "inverted p = [255 - p ! 0, 255 - p ! 1, 255 - p ! 2, p ! 3]"

lemma invert_pixel_repaints:
  assumes "length buf = 4 * n" and "k < n"
  shows "\<exists>buf'. invert_pixel buf (4 * k) = Some buf' \<and> repaints n (\<lambda>b. b) {k} (\<lambda>_. inverted) buf buf'"
proof -
  have "buf[4 * k := x, 4 * k + 1 := y, 4 * k + 2 := z] = set_pixel buf (4 * k) x y z (buf ! (4 * k + 3))" for x y z
    using assms by (auto intro!: nth_equalityI simp: set_pixel_def nth_list_update)
  then show ?thesis
    using assms pix_set_pixel [OF assms(1,2)]
    by (auto simp: invert_pixel_def repaints_def inverted_def pix_nth)
qed

definition blended :: "u8 \<Rightarrow> rgba \<Rightarrow> bytes \<Rightarrow> bytes" where
  "blended alpha src p = (case src of (r, g, b, a) \<Rightarrow>
     let ea = effective_alpha a alpha in
     [blend_channel ea r (p ! 0), blend_channel ea g (p ! 1), blend_channel ea b (p ! 2), 255])"

lemma blend_pixel_repaints:
  assumes "length buf = 4 * n" and "k < n"
  shows "\<exists>buf'. blend_pixel alpha src buf (4 * k) = Some buf'
    \<and> repaints n (\<lambda>b. b) {k} (\<lambda>_. blended alpha src) buf buf'"
  using assms pix_set_pixel [OF assms(1,2)]
  by (auto simp: blend_pixel_def write_pixel_def repaints_def blended_def pix_nth Let_def split: prod.splits)

lemma grid_loop:
  assumes "distinct ys" and "\<And>y. y \<in> set ys \<Longrightarrow> distinct (xs y)"
    and inj: "\<And>y x y' x'. y \<in> set ys \<Longrightarrow> x \<in> set (xs y) \<Longrightarrow> y' \<in> set ys \<Longrightarrow> x' \<in> set (xs y') \<Longrightarrow> k y x = k y' x'
          \<Longrightarrow> y = y' \<and> x = x'"
    and step: "\<And>y x s. y \<in> set ys \<Longrightarrow> x \<in> set (xs y) \<Longrightarrow> length (buf s) = 4 * n
          \<Longrightarrow> \<exists>s'. f y x s = Some s' \<and> repaints n buf {k y x} (\<lambda>_. G y x) s s'"
    and len: "length (buf s) = 4 * n"
  shows "\<exists>s'. for_each ys (\<lambda>y. for_each (xs y) (f y)) s = Some s' \<and> length (buf s') = 4 * n
    \<and> (\<forall>y\<in>set ys. \<forall>x\<in>set (xs y). k y x < n \<longrightarrow> pix (k y x) (buf s') = G y x (pix (k y x) (buf s)))
    \<and> (\<forall>j<n. (\<forall>y\<in>set ys. \<forall>x\<in>set (xs y). j \<noteq> k y x) \<longrightarrow> pix j (buf s') = pix j (buf s))"
proof -
  define qs where "qs = concat (map (\<lambda>y. map (Pair y) (xs y)) ys)"
  have mem: "q \<in> set qs \<longleftrightarrow> fst q \<in> set ys \<and> snd q \<in> set (xs (fst q))" for q
    by (cases q) (auto simp: qs_def)
  have "distinct qs"
    unfolding qs_def using assms(1,2) by (induction ys) (auto simp: distinct_map inj_on_def)
  then have "\<exists>s'. for_each qs (\<lambda>q. f (fst q) (snd q)) s = Some s' \<and> length (buf s') = 4 * n
    \<and> (\<forall>j<n. (\<forall>q\<in>set qs. j \<in> {k (fst q) (snd q)} \<longrightarrow> pix j (buf s') = G (fst q) (snd q) (pix j (buf s)))
        \<and> ((\<forall>q\<in>set qs. j \<notin> {k (fst q) (snd q)}) \<longrightarrow> pix j (buf s') = pix j (buf s)))"
  proof (rule disjoint_steps [where K = "\<lambda>q. {k (fst q) (snd q)}" and G = "\<lambda>q _. G (fst q) (snd q)"])
    show "{k (fst q) (snd q)} \<inter> {k (fst q') (snd q')} = {}"
      if "q \<in> set qs" "q' \<in> set qs" "q \<noteq> q'" for q q'
      using inj [of "fst q" "snd q" "fst q'" "snd q'"] that unfolding mem by (auto simp: prod_eq_iff)
    show "\<exists>s'. f (fst q) (snd q) s = Some s' \<and> repaints n buf {k (fst q) (snd q)} (\<lambda>_. G (fst q) (snd q)) s s'"
      if "q \<in> set qs" "length (buf s) = 4 * n" for q s
      using step [of "fst q" "snd q" s] that unfolding mem by blast
  qed (fact len)
  then obtain s' where s': "for_each qs (\<lambda>q. f (fst q) (snd q)) s = Some s'" "length (buf s') = 4 * n"
    and hit: "\<forall>j<n. (\<forall>q\<in>set qs. j \<in> {k (fst q) (snd q)} \<longrightarrow> pix j (buf s') = G (fst q) (snd q) (pix j (buf s)))
        \<and> ((\<forall>q\<in>set qs. j \<notin> {k (fst q) (snd q)}) \<longrightarrow> pix j (buf s') = pix j (buf s))"
    by (elim exE conjE)
  have "for_each ys (\<lambda>y. for_each (xs y) (f y)) s = Some s'"
    using s'(1) unfolding for_each_nested qs_def case_prod_unfold .
  moreover have "pix (k y x) (buf s') = G y x (pix (k y x) (buf s))"
    if "y \<in> set ys" "x \<in> set (xs y)" "k y x < n" for y x
  proof -
    have "(y, x) \<in> set qs" using that(1,2) by (simp add: mem)
    with hit [rule_format, THEN conjunct1, rule_format, OF that(3) this] show ?thesis by simp
  qed
  moreover have "pix j (buf s') = pix j (buf s)"
    if j: "j < n" and other: "\<forall>y\<in>set ys. \<forall>x\<in>set (xs y). j \<noteq> k y x" for j
  proof (rule hit [rule_format, THEN conjunct2, rule_format, OF j])
    show "j \<notin> {k (fst q) (snd q)}" if "q \<in> set qs" for q
      using other that unfolding mem by blast
  qed
  ultimately show ?thesis using s'(2) by blast
qed

section \<open>Painting a surface\<close>

abbreviation sw :: "display_surface \<Rightarrow> nat" where "sw s \<equiv> unat (ds_width s)"

abbreviation sh :: "display_surface \<Rightarrow> nat" where "sh s \<equiv> unat (ds_height s)"

definition surf_ok :: "display_surface \<Rightarrow> bool" where
  "surf_ok s \<longleftrightarrow> sw s \<le> 16384 \<and> sh s \<le> 16384 \<and> length (ds_pixels s) = 4 * (sw s * sh s)
     \<and> region_ok (ds_damage s)"

definition px :: "display_surface \<Rightarrow> nat \<Rightarrow> nat \<Rightarrow> bytes" where
  "px s x y = pix (y * sw s + x) (ds_pixels s)"

text \<open>A surface whose pixels in \<open>R\<close>, and only those, have been given new values.\<close>

definition painted ::
  "display_surface \<Rightarrow> (nat \<times> nat) set \<Rightarrow> (nat \<Rightarrow> nat \<Rightarrow> bytes) \<Rightarrow> display_surface \<Rightarrow> bool" where
  "painted s R g s' \<longleftrightarrow> (\<exists>buf. s' = s\<lparr>ds_pixels := buf\<rparr> \<and> length buf = length (ds_pixels s))
     \<and> (\<forall>x< sw s. \<forall>y< sh s. px s' x y = (if (x, y) \<in> R then g x y else px s x y))"

definition nat_box :: "ltrb \<Rightarrow> (nat \<times> nat) set" where
  "nat_box = (\<lambda>(l, t, r, b). {(x, y). unat l \<le> x \<and> x < unat r \<and> unat t \<le> y \<and> y < unat b})"

definition box_fits :: "display_surface \<Rightarrow> ltrb \<Rightarrow> bool" where
  "box_fits s = (\<lambda>(l, t, r, b). r \<le> ds_width s \<and> b \<le> ds_height s)"

lemma stride_eq: "surf_ok s \<Longrightarrow> unat (ds_width s * 4) = 4 * sw s"
  by (simp add: surf_ok_def unat_word_ariths)

lemma index_lt:
  assumes "x < w" and "y < h"
  shows "y * w + x < w * (h :: nat)"
proof -
  have "y * w + x < (y + 1) * w" using assms(1) by simp
  also have "\<dots> \<le> h * w" using assms(2) by (intro mult_le_mono) simp_all
  finally show ?thesis by (simp add: mult.commute)
qed

lemma index_inj:
  assumes "x < w" and "x' < (w :: nat)" and "y * w + x = y' * w + x'"
  shows "y = y' \<and> x = x'"
proof -
  have "(y * w + x) div w = y" "(y' * w + x') div w = y'" using assms(1,2) by simp_all
  with assms(3) show ?thesis by simp
qed

text \<open>A loop that writes one slice per row, at places that do not meet; a row may be left out.\<close>

lemma rows_loop:
  assumes step: "\<And>q buf. q < h \<Longrightarrow> length buf = 4 * n
      \<Longrightarrow> f q buf = Some (if ok q then copy_slice buf (4 * d q) (xs q) else buf)"
    and xs: "\<And>q. q < h \<Longrightarrow> ok q \<Longrightarrow> length (xs q) = 4 * m" and d: "\<And>q. q < h \<Longrightarrow> d q + m \<le> n"
    and apart: "\<And>q q'. q < q' \<Longrightarrow> q' < h \<Longrightarrow> d q + m \<le> d q'" and len: "length buf = 4 * n"
  shows "\<exists>buf'. for_each [0..<h] f buf = Some buf' \<and> length buf' = 4 * n
    \<and> (\<forall>q<h. \<forall>i<m. pix (d q + i) buf' = (if ok q then pix i (xs q) else pix (d q + i) buf))
    \<and> (\<forall>j<n. (\<forall>q<h. j < d q \<or> d q + m \<le> j) \<longrightarrow> pix j buf' = pix j buf)"
proof -
  define K where "K q = {d q..<d q + m}" for q
  define G where "G q j p = (if ok q then pix (j - d q) (xs q) else p)" for q j and p :: bytes
  have "\<exists>s'. for_each [0..<h] f buf = Some s' \<and> length s' = 4 * n
    \<and> (\<forall>j<n. (\<forall>q\<in>set [0..<h]. j \<in> K q \<longrightarrow> pix j s' = G q j (pix j buf))
        \<and> ((\<forall>q\<in>set [0..<h]. j \<notin> K q) \<longrightarrow> pix j s' = pix j buf))"
  proof (rule disjoint_steps)
    show "K q \<inter> K q' = {}" if "q \<in> set [0..<h]" "q' \<in> set [0..<h]" "q \<noteq> q'" for q q'
    proof -
      from that(3) have "q < q' \<or> q' < q" by linarith
      then have "d q + m \<le> d q' \<or> d q' + m \<le> d q" using apart that(1,2) by auto
      then show ?thesis by (auto simp: K_def)
    qed
    show "\<exists>s'. f q s = Some s' \<and> repaints n (\<lambda>b. b) (K q) (G q) s s'"
      if "q \<in> set [0..<h]" "length s = 4 * n" for q s
    proof (cases "ok q")
      case True
      have q: "q < h" using that by simp
      note l = xs [OF q True] d [OF q]
      have "pix j (copy_slice s (4 * d q) (xs q)) = (if j \<in> K q then G q j (pix j s) else pix j s)" if "j < n" for j
        using pix_copy_slice [of "xs q" m "d q" s j] l \<open>length s = 4 * n\<close> that True by (simp add: K_def G_def)
      moreover have "length (copy_slice s (4 * d q) (xs q)) = 4 * n"
        using length_copy_slice [of "4 * d q" "xs q" s] l \<open>length s = 4 * n\<close> by simp
      ultimately show ?thesis using step [OF q \<open>length s = 4 * n\<close>] True by (simp add: repaints_def)
    next
      case False
      then show ?thesis using step [of q s] that by (simp add: repaints_def G_def)
    qed
  qed (simp_all add: len)
  then obtain s' where s': "for_each [0..<h] f buf = Some s'" "length s' = 4 * n"
    and px: "\<forall>j<n. (\<forall>q\<in>set [0..<h]. j \<in> K q \<longrightarrow> pix j s' = G q j (pix j buf))
        \<and> ((\<forall>q\<in>set [0..<h]. j \<notin> K q) \<longrightarrow> pix j s' = pix j buf)" by (elim exE conjE)
  have "pix (d q + i) s' = (if ok q then pix i (xs q) else pix (d q + i) buf)" if "q < h" "i < m" for q i
  proof -
    have j: "d q + i < n" and k: "d q + i \<in> K q" using d [OF that(1)] that(2) by (simp_all add: K_def)
    have "q \<in> set [0..<h]" using that(1) by simp
    from px [rule_format, THEN conjunct1, rule_format, OF j this k] show ?thesis by (simp add: G_def)
  qed
  moreover have "pix j s' = pix j buf" if j: "j < n" and o': "\<forall>q<h. j < d q \<or> d q + m \<le> j" for j
  proof (rule px [rule_format, THEN conjunct2, rule_format, OF j])
    show "j \<notin> K q" if "q \<in> set [0..<h]" for q using o' that by (auto simp: K_def)
  qed
  ultimately show ?thesis using s' by blast
qed

text \<open>A loop over the pixels of a box that rewrites each of them from its old value.\<close>

lemma box_loop:
  assumes ok: "surf_ok s" and fits: "box_fits s (l, t, r, b)"
    and step: "\<And>x y buf. (x, y) \<in> nat_box (l, t, r, b) \<Longrightarrow> length buf = 4 * (sw s * sh s)
      \<Longrightarrow> \<exists>buf'. f (y * unat (ds_width s * 4) + x * 4) buf = Some buf'
            \<and> repaints (sw s * sh s) (\<lambda>b. b) {y * sw s + x} (\<lambda>_. G) buf buf'"
  shows "\<exists>s'. map_option (\<lambda>p. s\<lparr>ds_pixels := p\<rparr>)
      (for_each [unat t..<unat b] (\<lambda>y. for_each [unat l..<unat r]
        (\<lambda>x buf. f (y * unat (ds_width s * 4) + x * 4) buf)) (ds_pixels s)) = Some s'
    \<and> painted s (nat_box (l, t, r, b)) (\<lambda>x y. G (px s x y)) s'"
proof -
  let ?w = "sw s" and ?h = "sh s"
  from fits have r: "unat r \<le> ?w" and b: "unat b \<le> ?h" by (simp_all add: box_fits_def word_le_nat_alt)
  from ok have len: "length (ds_pixels s) = 4 * (?w * ?h)" by (simp add: surf_ok_def)
  have "\<exists>buf. for_each [unat t..<unat b] (\<lambda>y. for_each [unat l..<unat r]
        (\<lambda>x buf. f (y * unat (ds_width s * 4) + x * 4) buf)) (ds_pixels s) = Some buf
    \<and> length buf = 4 * (?w * ?h)
    \<and> (\<forall>y\<in>set [unat t..<unat b]. \<forall>x\<in>set [unat l..<unat r]. y * ?w + x < ?w * ?h \<longrightarrow>
        pix (y * ?w + x) buf = G (pix (y * ?w + x) (ds_pixels s)))
    \<and> (\<forall>j<?w * ?h. (\<forall>y\<in>set [unat t..<unat b]. \<forall>x\<in>set [unat l..<unat r]. j \<noteq> y * ?w + x) \<longrightarrow>
        pix j buf = pix j (ds_pixels s))"
  proof (rule grid_loop [where buf = "\<lambda>b. b" and G = "\<lambda>_ _. G"])
    show "y = y' \<and> x = x'" if "x \<in> set [unat l..<unat r]" "x' \<in> set [unat l..<unat r]" "y * ?w + x = y' * ?w + x'"
      for y x y' x' using index_inj [of x ?w x' y y'] that r by simp
    show "\<exists>buf'. f (y * unat (ds_width s * 4) + x * 4) buf = Some buf'
        \<and> repaints (?w * ?h) (\<lambda>b. b) {y * ?w + x} (\<lambda>_. G) buf buf'"
      if "y \<in> set [unat t..<unat b]" "x \<in> set [unat l..<unat r]" "length buf = 4 * (?w * ?h)" for y x buf
      using step [of x y buf] that by (simp add: nat_box_def)
  qed (simp_all add: len)
  then obtain buf where buf: "for_each [unat t..<unat b] (\<lambda>y. for_each [unat l..<unat r]
        (\<lambda>x buf. f (y * unat (ds_width s * 4) + x * 4) buf)) (ds_pixels s) = Some buf"
      "length buf = 4 * (?w * ?h)"
    and new: "\<And>x y. (x, y) \<in> nat_box (l, t, r, b) \<Longrightarrow> y * ?w + x < ?w * ?h \<Longrightarrow>
        pix (y * ?w + x) buf = G (pix (y * ?w + x) (ds_pixels s))"
    and old: "\<And>j. j < ?w * ?h \<Longrightarrow> (\<And>x y. (x, y) \<in> nat_box (l, t, r, b) \<Longrightarrow> j \<noteq> y * ?w + x) \<Longrightarrow>
        pix j buf = pix j (ds_pixels s)"
    by (auto simp: nat_box_def)
  have "px (s\<lparr>ds_pixels := buf\<rparr>) x y = (if (x, y) \<in> nat_box (l, t, r, b) then G (px s x y) else px s x y)"
    if "x < ?w" "y < ?h" for x y
  proof (cases "(x, y) \<in> nat_box (l, t, r, b)")
    case True
    with new [OF True index_lt [OF that]] show ?thesis by (simp add: px_def)
  next
    case False
    have "y * ?w + x \<noteq> y' * ?w + x'" if xy: "(x', y') \<in> nat_box (l, t, r, b)" for x' y'
    proof
      assume e: "y * ?w + x = y' * ?w + x'"
      have "x' < ?w" using xy r by (auto simp: nat_box_def)
      from index_inj [OF \<open>x < ?w\<close> this e] xy False show False by simp
    qed
    with old [OF index_lt [OF that]] False show ?thesis by (simp add: px_def)
  qed
  then show ?thesis using buf len by (auto simp: painted_def)
qed

lemma surf_ok_painted: "surf_ok s \<Longrightarrow> painted s R g s' \<Longrightarrow> surf_ok s'"
  by (auto simp: painted_def surf_ok_def)

lemma painted_cong:
  "(\<And>x y. (x, y) \<in> R \<Longrightarrow> g x y = g' x y) \<Longrightarrow> painted s R g s' = painted s R g' s'"
  unfolding painted_def by (metis (mono_tags, lifting))

lemma painted_size:
  "painted s R g s' \<Longrightarrow> ds_width s' = ds_width s \<and> ds_height s' = ds_height s \<and> ds_damage s' = ds_damage s
     \<and> ds_dirty s' = ds_dirty s \<and> ds_id s' = ds_id s"
  by (auto simp: painted_def)

definition area :: "nat \<Rightarrow> nat \<Rightarrow> nat \<Rightarrow> nat \<Rightarrow> (nat \<times> nat) set" where
  "area a c m h = {(x, y). a \<le> x \<and> x < a + m \<and> c \<le> y \<and> y < c + h}"

text \<open>Rows of \<open>m\<close> pixels written from column \<open>a\<close> of row \<open>c\<close> on paint a box.\<close>

lemma row_fits:
  assumes "a + m \<le> w" and "y < (h :: nat)"
  shows "y * w + a + m \<le> w * h"
proof -
  have "y * w + a + m \<le> (y + 1) * w" using assms(1) by simp
  also have "\<dots> \<le> h * w" using assms(2) by (intro mult_le_mono) simp_all
  finally show ?thesis by (simp add: mult.commute)
qed

lemma rows_painted:
  assumes ok: "surf_ok s" and cols: "a + m \<le> sw s" and rows: "c + h \<le> sh s"
    and len: "length buf = length (ds_pixels s)"
    and new: "\<And>q i. q < h \<Longrightarrow> i < m \<Longrightarrow> pix ((c + q) * sw s + a + i) buf = g (a + i) (c + q)"
    and old: "\<And>j. j < sw s * sh s \<Longrightarrow> \<forall>q<h. j < (c + q) * sw s + a \<or> (c + q) * sw s + a + m \<le> j
      \<Longrightarrow> pix j buf = pix j (ds_pixels s)"
  shows "painted s (area a c m h) g (s\<lparr>ds_pixels := buf\<rparr>)"
proof -
  let ?w = "sw s" and ?h = "sh s"
  have "pix (y * ?w + x) buf = g x y" if "a \<le> x" "x < a + m" "c \<le> y" "y < c + h" for x y
    using new [of "y - c" "x - a"] that by simp
  moreover have "pix (y * ?w + x) buf = pix (y * ?w + x) (ds_pixels s)"
    if x: "x < ?w" and y: "y < ?h" and out: "\<not> (a \<le> x \<and> x < a + m \<and> c \<le> y \<and> y < c + h)" for x y
  proof (rule old [OF index_lt [OF x y]], intro allI impI, rule ccontr)
    fix q assume q: "q < h" and "\<not> (y * ?w + x < (c + q) * ?w + a \<or> (c + q) * ?w + a + m \<le> y * ?w + x)"
    then obtain i where i: "y * ?w + x = (c + q) * ?w + (a + i)" "i < m"
      using le_Suc_ex [of "(c + q) * ?w + a" "y * ?w + x"] by (auto simp: not_less not_le)
    have "a + i < ?w" using i(2) cols by simp
    from index_inj [OF x this i(1)] out q i(2) show False by simp
  qed
  ultimately show ?thesis using len by (auto simp: painted_def px_def area_def)
qed

text \<open>The two loops of a copy: the source rows into a scratch buffer, and from it to their new place.\<close>

lemma snapshot_rows:
  assumes k: "\<And>q. q < h \<Longrightarrow> k q + w \<le> n" and len: "length p = 4 * n"
  shows "\<exists>scratch. for_each [0..<h] (\<lambda>q buf. case read_slice p (4 * k q) (w * 4) of None \<Rightarrow> None
        | Some xs \<Rightarrow> write_slice buf (q * (w * 4)) xs) (replicate (w * 4 * h) 0) = Some scratch
    \<and> length scratch = 4 * (w * h)
    \<and> (\<forall>q<h. \<forall>i<w. pix (q * w + i) scratch = pix (k q + i) p)"
proof -
  have apart: "q * w + w \<le> q' * w" if "q < q'" for q q' :: nat
    using mult_le_mono1 [of "Suc q" q' w] that by simp
  have "\<exists>buf. for_each [0..<h] (\<lambda>q buf. case read_slice p (4 * k q) (w * 4) of None \<Rightarrow> None
        | Some xs \<Rightarrow> write_slice buf (q * (w * 4)) xs) (replicate (w * 4 * h) 0) = Some buf
    \<and> length buf = 4 * (w * h)
    \<and> (\<forall>q<h. \<forall>i<w. pix (q * w + i) buf
        = (if True then pix i (take (4 * w) (drop (4 * k q) p)) else pix (q * w + i) (replicate (w * 4 * h) 0)))
    \<and> (\<forall>j<w * h. (\<forall>q<h. j < q * w \<or> q * w + w \<le> j) \<longrightarrow> pix j buf = pix j (replicate (w * 4 * h) 0))"
  proof (rule rows_loop)
    show "(case read_slice p (4 * k q) (w * 4) of None \<Rightarrow> None | Some xs \<Rightarrow> write_slice buf (q * (w * 4)) xs)
        = Some (if True then copy_slice buf (4 * (q * w)) (take (4 * w) (drop (4 * k q) p)) else buf)"
      if "q < h" "length buf = 4 * (w * h)" for q buf
      using k [OF that(1)] that apart [OF that(1)] len
      by (simp add: read_slice_def write_slice_def algebra_simps)
    show "q * w + w \<le> w * h" if "q < h" for q using apart [OF that] by (simp add: mult.commute)
    show "length (take (4 * w) (drop (4 * k q) p)) = 4 * w" if "q < h" for q using k [OF that] len by simp
  qed (use apart in auto)
  moreover have "pix i (take (4 * w) (drop (4 * k q) p)) = pix (k q + i) p" if "q < h" "i < w" for q i
    using pix_take_drop [of i "4 * w" "k q" p] k [OF that(1)] that(2) len by simp
  ultimately show ?thesis by (elim ex_forward conjE) simp
qed

lemma write_back_rows:
  assumes sc: "length scratch = 4 * (w * h)" and d: "\<And>q. q < h \<Longrightarrow> d q + w \<le> n"
    and apart: "\<And>q q'. q < q' \<Longrightarrow> q' < h \<Longrightarrow> d q + w \<le> d q'" and len: "length p = 4 * n"
  shows "\<exists>buf. for_each [0..<h] (\<lambda>q buf. case read_slice scratch (q * (w * 4)) (w * 4) of None \<Rightarrow> None
        | Some xs \<Rightarrow> write_slice buf (4 * d q) xs) p = Some buf \<and> length buf = 4 * n
    \<and> (\<forall>q<h. \<forall>i<w. pix (d q + i) buf = pix (q * w + i) scratch)
    \<and> (\<forall>j<n. (\<forall>q<h. j < d q \<or> d q + w \<le> j) \<longrightarrow> pix j buf = pix j p)"
proof -
  have fit: "q * w + w \<le> w * h" if "q < h" for q
    using mult_le_mono1 [of "Suc q" h w] that by (simp add: mult.commute)
  have "\<exists>buf. for_each [0..<h] (\<lambda>q buf. case read_slice scratch (q * (w * 4)) (w * 4) of None \<Rightarrow> None
        | Some xs \<Rightarrow> write_slice buf (4 * d q) xs) p = Some buf \<and> length buf = 4 * n
    \<and> (\<forall>q<h. \<forall>i<w. pix (d q + i) buf
        = (if True then pix i (take (4 * w) (drop (4 * (q * w)) scratch)) else pix (d q + i) p))
    \<and> (\<forall>j<n. (\<forall>q<h. j < d q \<or> d q + w \<le> j) \<longrightarrow> pix j buf = pix j p)"
  proof (rule rows_loop)
    show "(case read_slice scratch (q * (w * 4)) (w * 4) of None \<Rightarrow> None | Some xs \<Rightarrow> write_slice buf (4 * d q) xs)
        = Some (if True then copy_slice buf (4 * d q) (take (4 * w) (drop (4 * (q * w)) scratch)) else buf)"
      if "q < h" "length buf = 4 * n" for q buf
      using d [OF that(1)] that fit [OF that(1)] sc
      by (simp add: read_slice_def write_slice_def algebra_simps)
    show "length (take (4 * w) (drop (4 * (q * w)) scratch)) = 4 * w" if "q < h" for q using fit [OF that] sc by simp
  qed (use d apart len in auto)
  moreover have "pix i (take (4 * w) (drop (4 * (q * w)) scratch)) = pix (q * w + i) scratch" if "q < h" "i < w" for q i
    using pix_take_drop [of i "4 * w" "q * w" scratch] fit [OF that(1)] that(2) sc by simp
  ultimately show ?thesis by (elim ex_forward conjE) simp
qed

lemma copy_subrect_painted:
  assumes ok: "surf_ok s" and fits: "box_fits s (l, t, r, b)" and "l < r" and "t < b"
    and sx: "unat sx + (unat r - unat l) \<le> sw s" and sy: "unat sy + (unat b - unat t) \<le> sh s"
  shows "\<exists>s'. copy_subrect sx sy (l, t, r, b) s = Some s'
    \<and> painted s (nat_box (l, t, r, b)) (\<lambda>x y. px s (x - unat l + unat sx) (y - unat t + unat sy)) s'"
proof -
  let ?W = "sw s" and ?H = "sh s" and ?p = "ds_pixels s"
  define w h where "w = unat r - unat l" and "h = unat b - unat t"
  define k where "k q = (unat sy + q) * ?W + unat sx" for q
  define d where "d q = (unat t + q) * ?W + unat l" for q
  have wh: "unat (r - l) = w" "unat (b - t) = h"
    using \<open>l < r\<close> \<open>t < b\<close> by (simp_all add: w_def h_def unat_sub_if' word_less_nat_alt)
  from fits \<open>l < r\<close> \<open>t < b\<close> have lw: "unat l + w \<le> ?W" and th: "unat t + h \<le> ?H"
    by (simp_all add: w_def h_def box_fits_def word_le_nat_alt word_less_nat_alt)
  have len: "length ?p = 4 * (?W * ?H)" using ok by (simp add: surf_ok_def)
  have kq: "k q + w \<le> ?W * ?H" and dq: "d q + w \<le> ?W * ?H" if "q < h" for q
    using row_fits [of "unat sx" w ?W "unat sy + q" ?H] row_fits [of "unat l" w ?W "unat t + q" ?H]
      sx sy lw th that by (simp_all add: k_def d_def w_def h_def)
  have apart: "d q + w \<le> d q'" if "q < q'" for q q'
    using row_fits [of "unat l" w ?W "unat t + q" "unat t + q'"] lw that by (simp add: d_def mult.commute)
  have st: "(unat sy + q) * unat (ds_width s * 4) + unat sx * 4 = 4 * k q"
    "(unat t + q) * unat (ds_width s * 4) + unat l * 4 = 4 * d q" for q
    by (simp_all add: k_def d_def stride_eq [OF ok] algebra_simps)
  from snapshot_rows [of h k w "?W * ?H" ?p, OF kq len] obtain scratch where
    sc: "for_each [0..<h] (\<lambda>q buf. case read_slice ?p (4 * k q) (w * 4) of None \<Rightarrow> None
        | Some xs \<Rightarrow> write_slice buf (q * (w * 4)) xs) (replicate (w * 4 * h) 0) = Some scratch"
      "length scratch = 4 * (w * h)" "\<forall>q<h. \<forall>i<w. pix (q * w + i) scratch = pix (k q + i) ?p" by blast
  from write_back_rows [of scratch w h d "?W * ?H" ?p, OF sc(2) dq apart len] obtain buf where
    buf: "for_each [0..<h] (\<lambda>q buf. case read_slice scratch (q * (w * 4)) (w * 4) of None \<Rightarrow> None
        | Some xs \<Rightarrow> write_slice buf (4 * d q) xs) ?p = Some buf" "length buf = 4 * (?W * ?H)"
      "\<forall>q<h. \<forall>i<w. pix (d q + i) buf = pix (q * w + i) scratch"
      "\<forall>j<?W * ?H. (\<forall>q<h. j < d q \<or> d q + w \<le> j) \<longrightarrow> pix j buf = pix j ?p" by blast
  have box: "nat_box (l, t, r, b) = area (unat l) (unat t) w h"
    by (auto simp: nat_box_def area_def w_def h_def)
  have "painted s (nat_box (l, t, r, b)) (\<lambda>x y. px s (x - unat l + unat sx) (y - unat t + unat sy)) (s\<lparr>ds_pixels := buf\<rparr>)"
    unfolding box
    by (rule rows_painted [OF ok lw th])
      (use buf len sc(3) in \<open>simp_all add: d_def k_def px_def algebra_simps\<close>)
  moreover have "copy_subrect sx sy (l, t, r, b) s = Some (s\<lparr>ds_pixels := buf\<rparr>)"
    using sc(1) buf(1) unfolding copy_subrect_def prod.case Let_def wh st by simp
  ultimately show ?thesis by blast
qed

lemma set_takeWhile_upt:
  assumes "\<And>x. P (Suc x) \<Longrightarrow> P x"
  shows "set (takeWhile P [0..<n]) = {x. x < n \<and> P x}"
proof (induction n)
  case (Suc n)
  show ?case
  proof (cases "\<forall>x<n. P x")
    case True
    then have "takeWhile P ([0..<n] @ [n]) = [0..<n] @ takeWhile P [n]" by (intro takeWhile_append2) simp
    with True show ?thesis by (auto simp: less_Suc_eq)
  next
    case False
    have down: "P x" if "P m" "x \<le> m" for x m
      using that(2,1) by (induction rule: inc_induct) (auto intro: assms)
    from False obtain z where z: "z < n" "\<not> P z" by blast
    then have "\<not> P n" using down [of n z] by auto
    moreover have "takeWhile P ([0..<n] @ [n]) = takeWhile P [0..<n]" using z by (intro takeWhile_append1 [of z]) simp_all
    ultimately show ?thesis using Suc by (auto simp: less_Suc_eq)
  qed
qed simp

text \<open>A blit that decides pixel by pixel, and stops a row where the source buffer ends.\<close>

lemma grid_painted:
  assumes ok: "surf_ok s" and cols: "a + m \<le> sw s" and rows: "c + h \<le> sh s" and buf: "buf st = ds_pixels s"
    and down: "\<And>y x. P y (Suc x) \<Longrightarrow> P y x"
    and step: "\<And>y x st. y < h \<Longrightarrow> x < m \<Longrightarrow> P y x \<Longrightarrow> length (buf st) = 4 * (sw s * sh s)
      \<Longrightarrow> \<exists>st'. f y x st = Some st' \<and> repaints (sw s * sh s) buf {(c + y) * sw s + (a + x)} (\<lambda>_. G y x) st st'"
  shows "\<exists>st'. for_each [0..<h] (\<lambda>y. for_each (takeWhile (P y) [0..<m]) (f y)) st = Some st'
    \<and> painted s (area a c m h)
        (\<lambda>x y. if P (y - c) (x - a) then G (y - c) (x - a) (px s x y) else px s x y) (s\<lparr>ds_pixels := buf st'\<rparr>)"
proof -
  let ?W = "sw s" and ?H = "sh s"
  let ?xs = "\<lambda>y. takeWhile (P y) [0..<m]" and ?k = "\<lambda>y x. (c + y) * ?W + (a + x)"
  have len: "length (buf st) = 4 * (?W * ?H)" using ok buf by (simp add: surf_ok_def)
  have xs: "set (?xs y) = {x. x < m \<and> P y x}" for y by (rule set_takeWhile_upt) (rule down)
  have "\<exists>st'. for_each [0..<h] (\<lambda>y. for_each (?xs y) (f y)) st = Some st' \<and> length (buf st') = 4 * (?W * ?H)
    \<and> (\<forall>y\<in>set [0..<h]. \<forall>x\<in>set (?xs y). ?k y x < ?W * ?H \<longrightarrow> pix (?k y x) (buf st') = G y x (pix (?k y x) (buf st)))
    \<and> (\<forall>j<?W * ?H. (\<forall>y\<in>set [0..<h]. \<forall>x\<in>set (?xs y). j \<noteq> ?k y x) \<longrightarrow> pix j (buf st') = pix j (buf st))"
  proof (rule grid_loop)
    show "y = y' \<and> x = x'" if "x \<in> set (?xs y)" "x' \<in> set (?xs y')" "?k y x = ?k y' x'" for y x y' x'
      using index_inj [of "a + x" ?W "a + x'" "c + y" "c + y'"] that cols by (simp add: xs)
    show "\<exists>st'. f y x st = Some st' \<and> repaints (?W * ?H) buf {?k y x} (\<lambda>_. G y x) st st'"
      if "y \<in> set [0..<h]" "x \<in> set (?xs y)" "length (buf st) = 4 * (?W * ?H)" for y x st
      using step that by (simp add: xs)
  qed (simp_all add: len)
  then obtain st' where st': "for_each [0..<h] (\<lambda>y. for_each (?xs y) (f y)) st = Some st'" "length (buf st') = 4 * (?W * ?H)"
    and new: "\<And>y x. y < h \<Longrightarrow> x < m \<Longrightarrow> P y x \<Longrightarrow> ?k y x < ?W * ?H \<Longrightarrow> pix (?k y x) (buf st') = G y x (pix (?k y x) (buf st))"
    and old: "\<And>j. j < ?W * ?H \<Longrightarrow> (\<And>y x. y < h \<Longrightarrow> x < m \<Longrightarrow> P y x \<Longrightarrow> j \<noteq> ?k y x) \<Longrightarrow> pix j (buf st') = pix j (buf st)"
    by (auto simp: xs)
  have at: "px (s\<lparr>ds_pixels := buf st'\<rparr>) x y =
      (if (x, y) \<in> area a c m h then if P (y - c) (x - a) then G (y - c) (x - a) (px s x y) else px s x y else px s x y)"
    if x: "x < ?W" and y: "y < ?H" for x y
  proof (cases "(x, y) \<in> area a c m h \<and> P (y - c) (x - a)")
    case True
    then have "?k (y - c) (x - a) = y * ?W + x" "y - c < h" "x - a < m" by (auto simp: area_def)
    with new [of "y - c" "x - a"] index_lt [OF x y] True show ?thesis by (simp add: area_def px_def buf)
  next
    case False
    have "y * ?W + x \<noteq> ?k y' x'" if "y' < h" "x' < m" "P y' x'" for y' x'
    proof
      assume e: "y * ?W + x = ?k y' x'"
      have "a + x' < ?W" using that(2) cols by simp
      from index_inj [OF x this e] False that show False by (auto simp: area_def)
    qed
    then have "pix (y * ?W + x) (buf st') = pix (y * ?W + x) (buf st)" by (rule old [OF index_lt [OF x y]])
    with False show ?thesis by (auto simp: px_def buf)
  qed
  then show ?thesis using st' len buf by (auto simp: painted_def)
qed

lemma area_clip:
  assumes "left < ds_width s" and "tp < ds_height s"
  shows "unat left + unat (min width (ds_width s - left)) \<le> sw s"
    and "unat tp + unat (min height (ds_height s - tp)) \<le> sh s"
    and "nat_box (left, tp, left + min width (ds_width s - left), tp + min height (ds_height s - tp))
      = area (unat left) (unat tp) (unat (min width (ds_width s - left))) (unat (min height (ds_height s - tp)))"
proof -
  have le: "unat l + unat (min c (w - l)) \<le> unat w" if "l < w" for l w c :: u32
  proof -
    have "unat (min c (w - l)) \<le> unat (w - l)" by (simp add: word_le_nat_alt [symmetric])
    with that show ?thesis by (simp add: unat_sub_if' word_less_nat_alt)
  qed
  have sum: "unat (l + c) = unat l + unat c" if "unat l + unat c \<le> unat w" for l c w :: u32
    using that u32_lt [of w] by (simp add: unat_word_ariths)
  note le' = le [OF assms(1), of width] le [OF assms(2), of height]
  from le' show "unat left + unat (min width (ds_width s - left)) \<le> sw s"
    "unat tp + unat (min height (ds_height s - tp)) \<le> sh s" by simp_all
  show "nat_box (left, tp, left + min width (ds_width s - left), tp + min height (ds_height s - tp))
      = area (unat left) (unat tp) (unat (min width (ds_width s - left))) (unat (min height (ds_height s - tp)))"
    unfolding nat_box_def area_def prod.case sum [OF le'(1)] sum [OF le'(2)] ..
qed

section \<open>Logged changes\<close>

text \<open>The pixels the damage region covers, and what it means for a change to be in it.\<close>

definition damaged :: "display_surface \<Rightarrow> (nat \<times> nat) set" where
  "damaged s = map_prod unat unat ` region_pixels (rg_rects (ds_damage s))"

definition logged :: "display_surface \<Rightarrow> display_surface \<Rightarrow> bool" where
  "logged s s' \<longleftrightarrow> surf_ok s' \<and> ds_id s' = ds_id s \<and> ds_width s' = ds_width s \<and> ds_height s' = ds_height s
     \<and> damaged s \<subseteq> damaged s' \<and> (ds_dirty s \<longrightarrow> ds_dirty s')
     \<and> (\<forall>x< sw s. \<forall>y< sh s. px s' x y \<noteq> px s x y \<longrightarrow> (x, y) \<in> damaged s' \<and> ds_dirty s')"

lemma logged_refl: "surf_ok s \<Longrightarrow> logged s s"
  by (simp add: logged_def)

lemma logged_trans: "logged s s' \<Longrightarrow> logged s' s'' \<Longrightarrow> logged s s''"
  unfolding logged_def by (metis (no_types, lifting) subset_iff)

lemma nat_box_image: "nat_box (l, t, r, b) = map_prod unat unat ` rect_pixels (DamageRect_new l t r b)"
proof -
  have "(x, y) \<in> map_prod unat unat ` rect_pixels (DamageRect_new l t r b)"
    if "unat l \<le> x" "x < unat r" "unat t \<le> y" "y < unat b" for x y
  proof -
    have "x < 2 ^ 32" "y < 2 ^ 32" using that u32_lt [of r] u32_lt [of b] by simp_all
    then have "unat (word_of_nat x :: u32) = x" "unat (word_of_nat y :: u32) = y"
      by (simp_all add: unat_of_nat)
    then show ?thesis using that
      by (intro image_eqI [of _ _ "(word_of_nat x, word_of_nat y)"])
        (simp_all add: rect_pixels_def DamageRect_new_def word_le_nat_alt word_less_nat_alt)
  qed
  then show ?thesis
    by (auto simp: nat_box_def rect_pixels_def DamageRect_new_def word_le_nat_alt word_less_nat_alt)
qed

text \<open>Painting a box and adding it to the damage logs the change.\<close>

lemma damage_of_add:
  assumes "region_ok (ds_damage s)"
  shows "region_ok (ds_damage (add_damage l t r b s))
    \<and> nat_box (l, t, r, b) \<union> damaged s \<subseteq> damaged (add_damage l t r b s)"
  using DamageRegion_add_spec [OF assms, of "DamageRect_new l t r b"]
  unfolding nat_box_image damaged_def add_damage_def image_Un [symmetric] by (auto intro!: image_eqI)

lemma add_damage_sel [simp]:
  "ds_width (add_damage l t r b s) = ds_width s" "ds_height (add_damage l t r b s) = ds_height s"
  "ds_id (add_damage l t r b s) = ds_id s" "ds_pixels (add_damage l t r b s) = ds_pixels s"
  "ds_dirty (add_damage l t r b s) = ds_dirty s" "px (add_damage l t r b s) = px s"
  by (simp_all add: add_damage_def px_def fun_eq_iff)

lemma dirty_sel [simp]:
  "px (s\<lparr>ds_dirty := d\<rparr>) = px s" "damaged (s\<lparr>ds_dirty := d\<rparr>) = damaged s" "surf_ok (s\<lparr>ds_dirty := d\<rparr>) = surf_ok s"
  by (simp_all add: px_def damaged_def surf_ok_def fun_eq_iff)

lemma logged_paint:
  assumes "surf_ok s" and "painted s R g s'" and "R \<subseteq> nat_box (l, t, r, b)"
  shows "logged s ((add_damage l t r b s')\<lparr>ds_dirty := True\<rparr>)"
proof -
  note sz = painted_size [OF assms(2)] and ok = surf_ok_painted [OF assms(1,2)]
  have d: "region_ok (ds_damage (add_damage l t r b s'))"
      "nat_box (l, t, r, b) \<union> damaged s' \<subseteq> damaged (add_damage l t r b s')"
    using damage_of_add [of s' l t r b] ok by (simp_all add: surf_ok_def)
  have "surf_ok (add_damage l t r b s')" using d(1) ok by (simp add: surf_ok_def)
  moreover have "damaged s' = damaged s" using sz by (simp add: damaged_def)
  moreover have "(x, y) \<in> nat_box (l, t, r, b)" if "x < sw s" "y < sh s" "px s' x y \<noteq> px s x y" for x y
    using assms(2,3) that by (auto simp: painted_def split: if_splits)
  ultimately show ?thesis using sz d(2) by (auto simp: logged_def)
qed

section \<open>The blits\<close>

definition source_pixel :: "bytes \<Rightarrow> u32 \<Rightarrow> nat \<Rightarrow> nat \<Rightarrow> bytes" where
  "source_pixel pixels width x y = pix (y * unat width + x) pixels"

lemma pixel_at_source:
  "pixel_at pixels (y * (unat width * 4) + x * 4) = (sr, sg, sb, sa)
     \<Longrightarrow> source_pixel pixels width x y = [sr, sg, sb, sa]"
  by (auto simp: pixel_at_def source_pixel_def pix_def algebra_simps)

text \<open>Whether the source buffer reaches the pixel at column \<open>x\<close> of row \<open>y\<close>.\<close>

definition in_source :: "bytes \<Rightarrow> u32 \<Rightarrow> nat \<Rightarrow> nat \<Rightarrow> bool" where
  "in_source pixels width x y \<longleftrightarrow> y * (unat width * 4) + x * 4 + 4 \<le> length pixels"

text \<open>The part of a \<open>width\<close> by \<open>height\<close> image at \<open>(left, tp)\<close> that is on the surface.\<close>

definition visible :: "display_surface \<Rightarrow> u32 \<Rightarrow> u32 \<Rightarrow> u32 \<Rightarrow> u32 \<Rightarrow> (nat \<times> nat) set" where
  "visible s left tp width height =
     {(x, y). x < sw s \<and> y < sh s \<and> unat left \<le> x \<and> x < unat left + unat width \<and> unat tp \<le> y \<and> y < unat tp + unat height}"

lemma area_visible:
  assumes "left < ds_width s" and "tp < ds_height s"
  shows "area (unat left) (unat tp) (unat (min width (ds_width s - left))) (unat (min height (ds_height s - tp)))
    = visible s left tp width height"
proof -
  have "x < unat l + unat (min c (w - l)) \<longleftrightarrow> x < unat w \<and> x < unat l + unat c" if "l < w" for x and l w c :: u32
    using that by (auto simp: min_def unat_sub_if' word_less_nat_alt word_le_nat_alt)
  then show ?thesis using assms by (auto simp: area_def visible_def)
qed

lemma visible_off: "left \<ge> ds_width s \<or> tp \<ge> ds_height s \<Longrightarrow> visible s left tp width height = {}"
  by (auto simp: visible_def word_le_nat_alt)

lemma visible_nothing: "width = 0 \<or> height = 0 \<Longrightarrow> visible s left tp width height = {}"
  by (auto simp: visible_def)

lemma clip_pos:
  assumes "left < ds_width s" and "tp < ds_height s" and "width \<noteq> 0" and "height \<noteq> 0"
  shows "min width (ds_width s - left) \<noteq> 0" and "min height (ds_height s - tp) \<noteq> 0"
  using assms by (auto simp: min_def)

lemma chroma_step:
  assumes "length (fst st) = 4 * n" and "k < n"
  shows "\<exists>st'. (case st of (buf, wrote) \<Rightarrow>
        case pixel_at pixels (y * (unat width * 4) + x * 4) of (sr, sg, sb, sa) \<Rightarrow>
        case chroma of (cr, cg, cb, _) \<Rightarrow>
          if sr = cr \<and> sg = cg \<and> sb = cb then Some (buf, wrote)
          else map_option (\<lambda>buf'. (buf', True)) (write_pixel buf (4 * k) (sr, sg, sb, sa))) = Some st'
    \<and> repaints n fst {k} (\<lambda>_ p. let q = source_pixel pixels width x y in
          if take 3 q = (case chroma of (cr, cg, cb, _) \<Rightarrow> [cr, cg, cb]) then p else q) st st'
    \<and> (snd st' \<or> st' = st)"
proof -
  obtain sr sg sb sa cr cg cb ca buf w where
    e: "pixel_at pixels (y * (unat width * 4) + x * 4) = (sr, sg, sb, sa)" "chroma = (cr, cg, cb, ca)" "st = (buf, w)"
    by (metis prod_cases4 surj_pair)
  show ?thesis
    using write_pixel_repaints [of buf n k sr sg sb sa] assms
    by (auto simp: e pixel_at_source [OF e(1)] repaints_def Let_def)
qed

lemma blit_chroma_spec:
  assumes ok: "surf_ok s"
  shows "\<exists>s'. blit_chroma s left tp width height pixels chroma = Some s' \<and> logged s s'
    \<and> (\<forall>x < sw s. \<forall>y < sh s. px s' x y =
        (let q = source_pixel pixels width (x - unat left) (y - unat tp) in
         if (x, y) \<in> visible s left tp width height \<and> in_source pixels width (x - unat left) (y - unat tp)
            \<and> take 3 q \<noteq> (case chroma of (cr, cg, cb, _) \<Rightarrow> [cr, cg, cb])
         then q else px s x y))"
proof (cases "left \<ge> ds_width s \<or> tp \<ge> ds_height s \<or> width = 0 \<or> height = 0")
  case True
  then have "blit_chroma s left tp width height pixels chroma = Some s" by (auto simp: blit_chroma_def)
  moreover have "visible s left tp width height = {}" using True visible_off visible_nothing by blast
  ultimately show ?thesis using logged_refl [OF ok] by (simp add: Let_def)
next
  case False
  then have l: "left < ds_width s" and t: "tp < ds_height s" and wh: "width \<noteq> 0" "height \<noteq> 0" by auto
  define cw ch where "cw = min width (ds_width s - left)" and "ch = min height (ds_height s - tp)"
  note cl = area_clip(1) [OF l t, of width, folded cw_def] area_clip(2) [OF l t, of height, folded ch_def]
    area_clip(3) [OF l t, of width height, folded cw_def ch_def]
  note vis = area_visible [OF l t, of width height, folded cw_def ch_def]
  note pos = clip_pos [OF l t wh, folded cw_def ch_def]
  define f where "f y x = (\<lambda>(buf, wrote).
        case pixel_at pixels (y * (unat width * 4) + x * 4) of (sr, sg, sb, sa) \<Rightarrow>
        case chroma of (cr, cg, cb, _) \<Rightarrow>
          if sr = cr \<and> sg = cg \<and> sb = cb then Some (buf, wrote)
          else map_option (\<lambda>buf'. (buf', True))
            (write_pixel buf ((unat tp + y) * (sw s * 4) + unat left * 4 + x * 4) (sr, sg, sb, sa)))" for y x
  define G where "G y x p = (let q = source_pixel pixels width x y in
          if take 3 q = (case chroma of (cr, cg, cb, _) \<Rightarrow> [cr, cg, cb]) then p else q)" for y x p
  have k4: "(unat tp + y) * (sw s * 4) + unat left * 4 + x * 4 = 4 * ((unat tp + y) * sw s + (unat left + x))" for x y
    by (simp add: algebra_simps)
  have step: "\<exists>st'. f y x st = Some st' \<and> repaints (sw s * sh s) fst {(unat tp + y) * sw s + (unat left + x)} (\<lambda>_. G y x) st st'
      \<and> (snd st' \<or> st' = st)"
    if "y < unat ch" "x < unat cw" "length (fst st) = 4 * (sw s * sh s)" for y x st
    using chroma_step [OF that(3) index_lt [of "unat left + x" "sw s" "unat tp + y" "sh s"],
        where pixels = pixels and y = y and width = width and x = x and chroma = chroma] that cl(1,2)
    unfolding f_def k4 G_def by simp
  have "\<exists>st'. for_each [0..<unat ch] (\<lambda>y. for_each (takeWhile (\<lambda>x. in_source pixels width x y) [0..<unat cw]) (f y))
      (ds_pixels s, False) = Some st'
    \<and> painted s (area (unat left) (unat tp) (unat cw) (unat ch))
        (\<lambda>x y. if in_source pixels width (x - unat left) (y - unat tp)
          then G (y - unat tp) (x - unat left) (px s x y) else px s x y) (s\<lparr>ds_pixels := fst st'\<rparr>)"
    by (rule grid_painted [OF ok cl(1,2), of fst "(ds_pixels s, False)" "\<lambda>y x. in_source pixels width x y"])
      (use step in \<open>simp_all add: in_source_def, blast\<close>)
  then obtain st' where
    loop: "for_each [0..<unat ch] (\<lambda>y. for_each (takeWhile (\<lambda>x. in_source pixels width x y) [0..<unat cw]) (f y))
      (ds_pixels s, False) = Some st'"
    and p: "painted s (area (unat left) (unat tp) (unat cw) (unat ch))
        (\<lambda>x y. if in_source pixels width (x - unat left) (y - unat tp)
          then G (y - unat tp) (x - unat left) (px s x y) else px s x y) (s\<lparr>ds_pixels := fst st'\<rparr>)" by blast
  have "length (fst st') = 4 * (sw s * sh s) \<and> (snd st' \<or> fst st' = ds_pixels s)"
  proof (rule for_each_inv2 [OF loop])
    show "length (fst t') = 4 * (sw s * sh s) \<and> (snd t' \<or> fst t' = ds_pixels s)"
      if "y \<in> set [0..<unat ch]" "x \<in> set (takeWhile (\<lambda>x. in_source pixels width x y) [0..<unat cw])"
        "length (fst t) = 4 * (sw s * sh s) \<and> (snd t \<or> fst t = ds_pixels s)" "f y x t = Some t'" for y x t t'
      using step [of y x t] that by (auto dest: set_takeWhileD simp: repaints_def)
  qed (use ok in \<open>simp add: surf_ok_def\<close>)
  moreover obtain buf wrote where st': "st' = (buf, wrote)" by fastforce
  ultimately have quiet: "wrote \<or> buf = ds_pixels s" by simp
  define s' where "s' = (if wrote then (add_damage left tp (left + cw) (tp + ch) (s\<lparr>ds_pixels := buf\<rparr>))\<lparr>ds_dirty := True\<rparr>
    else s\<lparr>ds_pixels := buf\<rparr>)"
  have "logged s s'"
    using logged_paint [OF ok p, of left tp "left + cw" "tp + ch"] logged_refl [OF ok] quiet cl(3) by (auto simp: s'_def st')
  moreover have "blit_chroma s left tp width height pixels chroma = Some s'"
    using l t wh pos loop unfolding blit_chroma_def s'_def f_def [abs_def] st'
    by (simp add: Let_def not_le cw_def [symmetric] ch_def [symmetric] in_source_def)
  moreover have "px s' = px (s\<lparr>ds_pixels := fst st'\<rparr>)" by (simp add: s'_def st')
  ultimately show ?thesis using p unfolding painted_def vis G_def by (auto simp: Let_def)
qed

lemma blit_alpha_spec:
  assumes ok: "surf_ok s"
  shows "\<exists>s'. blit_alpha s left tp width height pixels alpha = Some s' \<and> logged s s'
    \<and> (\<forall>x < sw s. \<forall>y < sh s. px s' x y =
        (if (x, y) \<in> visible s left tp width height \<and> alpha \<noteq> 0 \<and> in_source pixels width (x - unat left) (y - unat tp)
         then blended alpha (pixel_at pixels ((y - unat tp) * (unat width * 4) + (x - unat left) * 4)) (px s x y)
         else px s x y))"
proof (cases "left \<ge> ds_width s \<or> tp \<ge> ds_height s \<or> width = 0 \<or> height = 0 \<or> alpha = 0")
  case True
  then have "blit_alpha s left tp width height pixels alpha = Some s" by (auto simp: blit_alpha_def)
  moreover have "visible s left tp width height = {} \<or> alpha = 0" using True visible_off visible_nothing by blast
  ultimately show ?thesis using logged_refl [OF ok] by auto
next
  case False
  then have l: "left < ds_width s" and t: "tp < ds_height s" and wh: "width \<noteq> 0" "height \<noteq> 0" and a: "alpha \<noteq> 0" by auto
  define cw ch where "cw = min width (ds_width s - left)" and "ch = min height (ds_height s - tp)"
  note cl = area_clip(1) [OF l t, of width, folded cw_def] area_clip(2) [OF l t, of height, folded ch_def]
    area_clip(3) [OF l t, of width height, folded cw_def ch_def]
  note vis = area_visible [OF l t, of width height, folded cw_def ch_def]
  note pos = clip_pos [OF l t wh, folded cw_def ch_def]
  define src where "src y x = pixel_at pixels (y * (unat width * 4) + x * 4)" for y x
  define f where "f y x buf = blend_pixel alpha (src y x) buf ((unat tp + y) * (sw s * 4) + unat left * 4 + x * 4)" for y x buf
  have k4: "(unat tp + y) * (sw s * 4) + unat left * 4 + x * 4 = 4 * ((unat tp + y) * sw s + (unat left + x))" for x y
    by (simp add: algebra_simps)
  have "\<exists>buf. for_each [0..<unat ch] (\<lambda>y. for_each (takeWhile (\<lambda>x. in_source pixels width x y) [0..<unat cw]) (f y))
      (ds_pixels s) = Some buf
    \<and> painted s (area (unat left) (unat tp) (unat cw) (unat ch))
        (\<lambda>x y. if in_source pixels width (x - unat left) (y - unat tp)
          then blended alpha (src (y - unat tp) (x - unat left)) (px s x y) else px s x y) (s\<lparr>ds_pixels := buf\<rparr>)"
  proof (rule grid_painted [OF ok cl(1,2), of "\<lambda>b. b" "ds_pixels s" "\<lambda>y x. in_source pixels width x y"])
    show "\<exists>st'. f y x st = Some st' \<and> repaints (sw s * sh s) (\<lambda>b. b) {(unat tp + y) * sw s + (unat left + x)}
        (\<lambda>_. blended alpha (src y x)) st st'"
      if "y < unat ch" "x < unat cw" "length st = 4 * (sw s * sh s)" for y x st
      unfolding f_def k4 by (rule blend_pixel_repaints [OF that(3) index_lt]) (use that cl(1,2) in simp_all)
  qed (simp_all add: in_source_def)
  then obtain buf where
    loop: "for_each [0..<unat ch] (\<lambda>y. for_each (takeWhile (\<lambda>x. in_source pixels width x y) [0..<unat cw]) (f y))
      (ds_pixels s) = Some buf"
    and p: "painted s (area (unat left) (unat tp) (unat cw) (unat ch))
        (\<lambda>x y. if in_source pixels width (x - unat left) (y - unat tp)
          then blended alpha (src (y - unat tp) (x - unat left)) (px s x y) else px s x y) (s\<lparr>ds_pixels := buf\<rparr>)" by blast
  define s' where "s' = (add_damage left tp (left + cw) (tp + ch) (s\<lparr>ds_pixels := buf\<rparr>))\<lparr>ds_dirty := True\<rparr>"
  have "logged s s'" unfolding s'_def by (rule logged_paint [OF ok p]) (simp add: cl(3))
  moreover have "blit_alpha s left tp width height pixels alpha = Some s'"
    using l t wh a pos loop unfolding blit_alpha_def s'_def f_def [abs_def] src_def
    by (simp add: Let_def not_le cw_def [symmetric] ch_def [symmetric] in_source_def)
  moreover have "px s' = px (s\<lparr>ds_pixels := buf\<rparr>)" by (simp add: s'_def)
  ultimately show ?thesis using p a unfolding painted_def vis src_def by auto
qed

lemma takeWhile_rows: "takeWhile (\<lambda>y. c + y < h) [0..<n] = [0..<min n (h - c)]"
proof (cases "n \<le> h - c")
  case True
  then show ?thesis by (auto simp: takeWhile_eq_all_conv min_def)
next
  case False
  then have "[0..<n] = [0..<h - c] @ [h - c..<n]" using upt_add_eq_append [of 0 "h - c" "n - (h - c)"] by simp
  moreover have "takeWhile (\<lambda>y. c + y < h) [h - c..<n] = []" using False by (simp add: upt_conv_Cons)
  ultimately show ?thesis
    using False takeWhile_append2 [of "[0..<h - c]" "\<lambda>y. c + y < h" "[h - c..<n]"] by (simp add: min_def)
qed

lemma blit_spec:
  assumes ok: "surf_ok s"
  shows "\<exists>s'. blit s left tp width height pixels = Some s' \<and> logged s s'
    \<and> (\<forall>x < sw s. \<forall>y < sh s. px s' x y =
        (if (x, y) \<in> visible s left tp width height
            \<and> (y - unat tp) * (unat width * 4) + min (unat width) (sw s - unat left) * 4 \<le> length pixels
         then source_pixel pixels width (x - unat left) (y - unat tp) else px s x y))"
proof (cases "left \<ge> ds_width s \<or> tp \<ge> ds_height s")
  case True
  then have "blit s left tp width height pixels = Some s" by (auto simp: blit_def)
  moreover have "visible s left tp width height = {}" using True visible_off by blast
  ultimately show ?thesis using logged_refl [OF ok] by simp
next
  case False
  then have l: "unat left < sw s" and t: "unat tp < sh s" by (auto simp: word_less_nat_alt not_le)
  define cw ch where "cw = min (unat width) (sw s - unat left)" and "ch = min (unat height) (sh s - unat tp)"
  define d where "d q = (unat tp + q) * sw s + unat left" for q
  define fit where "fit q \<longleftrightarrow> q * (unat width * 4) + cw * 4 \<le> length pixels" for q
  have cwW: "unat left + cw \<le> sw s" and chH: "unat tp + ch \<le> sh s" using l t by (auto simp: cw_def ch_def)
  have len: "length (ds_pixels s) = 4 * (sw s * sh s)" using ok by (simp add: surf_ok_def)
  have dq: "d q + cw \<le> sw s * sh s" if "q < ch" for q
    using row_fits [of "unat left" cw "sw s" "unat tp + q" "sh s"] cwW chH that by (simp add: d_def)
  have c4: "min (unat width * 4) (sw s * 4 - unat left * 4) = cw * 4"
    by (simp add: cw_def min_def diff_mult_distrib [symmetric])
  define f where "f q buf =
     (if q * (unat width * 4) + cw * 4 \<le> length pixels \<and> (unat tp + q) * (sw s * 4) + unat left * 4 + cw * 4 \<le> length buf
      then Some (copy_slice buf ((unat tp + q) * (sw s * 4) + unat left * 4) (take (cw * 4) (drop (q * (unat width * 4)) pixels)))
      else Some buf)" for q buf
  have d4: "(unat tp + q) * (sw s * 4) + unat left * 4 = 4 * d q" for q by (simp add: d_def algebra_simps)
  have "\<exists>buf. for_each [0..<ch] f (ds_pixels s) = Some buf \<and> length buf = 4 * (sw s * sh s)
    \<and> (\<forall>q<ch. \<forall>i<cw. pix (d q + i) buf
        = (if fit q then pix i (take (cw * 4) (drop (q * (unat width * 4)) pixels)) else pix (d q + i) (ds_pixels s)))
    \<and> (\<forall>j < sw s * sh s. (\<forall>q<ch. j < d q \<or> d q + cw \<le> j) \<longrightarrow> pix j buf = pix j (ds_pixels s))"
  proof (rule rows_loop)
    show "f q buf = Some (if fit q then copy_slice buf (4 * d q) (take (cw * 4) (drop (q * (unat width * 4)) pixels)) else buf)"
      if "q < ch" "length buf = 4 * (sw s * sh s)" for q buf
      using dq [OF that(1)] that(2) unfolding f_def d4 fit_def by simp
    show "d q + cw \<le> d q'" if "q < q'" for q q'
      using row_fits [of "unat left" cw "sw s" "unat tp + q" "unat tp + q'"] cwW that by (simp add: d_def mult.commute)
  qed (use dq len in \<open>auto simp: fit_def\<close>)
  then obtain buf where loop: "for_each [0..<ch] f (ds_pixels s) = Some buf" "length buf = 4 * (sw s * sh s)"
    and new: "\<forall>q<ch. \<forall>i<cw. pix (d q + i) buf
        = (if fit q then pix i (take (cw * 4) (drop (q * (unat width * 4)) pixels)) else pix (d q + i) (ds_pixels s))"
    and old: "\<forall>j < sw s * sh s. (\<forall>q<ch. j < d q \<or> d q + cw \<le> j) \<longrightarrow> pix j buf = pix j (ds_pixels s)" by blast
  have src: "pix i (take (cw * 4) (drop (q * (unat width * 4)) pixels)) = source_pixel pixels width i q"
    if "fit q" "i < cw" for q i
    using pix_take_drop [of i "cw * 4" "q * unat width" pixels] that by (simp add: fit_def source_pixel_def ac_simps)
  have p: "painted s (area (unat left) (unat tp) cw ch)
      (\<lambda>x y. if fit (y - unat tp) then source_pixel pixels width (x - unat left) (y - unat tp) else px s x y)
      (s\<lparr>ds_pixels := buf\<rparr>)"
    by (rule rows_painted [OF ok cwW chH]) (use new old src loop(2) len in \<open>simp_all add: d_def px_def add.assoc\<close>)
  have vis: "area (unat left) (unat tp) cw ch = visible s left tp width height"
    using l t by (auto simp: area_def visible_def cw_def ch_def)
  define right bottom where "right = left + word_of_nat cw" and "bottom = min (saturating_add32 tp height) (ds_height s)"
  have "unat right = unat left + cw"
    using cwW u32_lt [of "ds_width s"] by (simp add: right_def unat_word_ariths unat_of_nat)
  moreover have "unat bottom = unat tp + ch"
    using t u32_lt [of "ds_height s"] by (auto simp: bottom_def ch_def saturating_add32_def min_def word_le_nat_alt unat_word_ariths
        unsigned_minus_1_eq_mask mask_eq_exp_minus_1)
  ultimately have box: "nat_box (left, tp, right, bottom) = area (unat left) (unat tp) cw ch"
    by (simp add: nat_box_def area_def)
  define s' where "s' = (add_damage left tp right bottom (s\<lparr>ds_pixels := buf\<rparr>))\<lparr>ds_dirty := True\<rparr>"
  have "logged s s'" unfolding s'_def by (rule logged_paint [OF ok p]) (simp add: box)
  moreover have "blit s left tp width height pixels = Some s'"
    using False loop(1) unfolding blit_def s'_def f_def [abs_def] right_def bottom_def ch_def Let_def c4 takeWhile_rows
    by simp
  moreover have "px s' = px (s\<lparr>ds_pixels := buf\<rparr>)" by (simp add: s'_def)
  ultimately show ?thesis using p [unfolded vis, unfolded painted_def] unfolding fit_def cw_def by auto
qed

lemma logged_until_dirty:
  assumes "logged s (s1\<lparr>ds_dirty := True\<rparr>)" and "logged s1 (s2\<lparr>ds_dirty := True\<rparr>)"
  shows "logged s (s2\<lparr>ds_dirty := True\<rparr>)"
proof -
  have "(x, y) \<in> damaged s2" if "x < sw s" "y < sh s" "px s2 x y \<noteq> px s x y" for x y
  proof (cases "px s2 x y = px s1 x y")
    case True
    with that assms(1) have "(x, y) \<in> damaged s1" by (simp add: logged_def)
    with assms(2) show ?thesis by (auto simp: logged_def)
  next
    case False
    with that assms show ?thesis by (simp add: logged_def)
  qed
  with assms show ?thesis by (simp add: logged_def) blast
qed

lemma nat_box_inter: "nat_box (max l cl, max t ct, min r cr, min b cb) = nat_box (l, t, r, b) \<inter> nat_box (cl, ct, cr, cb)"
  by (auto simp: nat_box_def max_def min_def word_le_nat_alt)

lemma nat_box_empty: "l \<ge> r \<or> t \<ge> b \<Longrightarrow> nat_box (l, t, r, b) = {}"
  by (auto simp: nat_box_def word_le_nat_alt)

section \<open>Painting through a clip\<close>

text \<open>
  What the clipped draws rely on: a routine that, given a box it may paint, paints exactly that box,
  with the values \<open>val\<close> computed from the surface before it.
\<close>

definition steady :: "(display_surface \<Rightarrow> nat \<Rightarrow> nat \<Rightarrow> bytes) \<Rightarrow> display_surface \<Rightarrow> ltrb \<Rightarrow> bool" where
  "steady val s box \<longleftrightarrow> (\<forall>s'. ds_width s' = ds_width s \<and> ds_height s' = ds_height s
      \<and> (\<forall>x < sw s. \<forall>y < sh s. (x, y) \<notin> nat_box box \<longrightarrow> px s' x y = px s x y)
     \<longrightarrow> (\<forall>x < sw s. \<forall>y < sh s. (x, y) \<in> nat_box box \<longrightarrow> val s' x y = val s x y))"

locale painter =
  fixes paint :: "ltrb \<Rightarrow> display_surface \<Rightarrow> display_surface option"
    and fits :: "display_surface \<Rightarrow> ltrb \<Rightarrow> bool"
    and val :: "display_surface \<Rightarrow> nat \<Rightarrow> nat \<Rightarrow> bytes"
  assumes paints: "surf_ok s \<Longrightarrow> fits s box \<Longrightarrow> \<exists>s'. paint box s = Some s' \<and> painted s (nat_box box) (val s) s'"
    and fits_sub: "fits s (l, t, r, b) \<Longrightarrow> l \<le> l' \<Longrightarrow> t \<le> t' \<Longrightarrow> r' \<le> r \<Longrightarrow> b' \<le> b \<Longrightarrow> l' < r' \<Longrightarrow> t' < b'
      \<Longrightarrow> fits s (l', t', r', b')"
    and fits_size: "ds_width s' = ds_width s \<Longrightarrow> ds_height s' = ds_height s \<Longrightarrow> fits s' box = fits s box"
begin

lemma one:
  assumes "surf_ok s" and "fits s box"
  shows "\<exists>s' w'. paint_one paint box c (s, w) = Some (s', w') \<and> fits s' box
    \<and> logged s (s'\<lparr>ds_dirty := True\<rparr>) \<and> ds_dirty s' = ds_dirty s \<and> (w' \<or> \<not> w \<and> s' = s)
    \<and> (\<forall>x < sw s. \<forall>y < sh s. px s' x y = (if (x, y) \<in> nat_box box \<inter> nat_box c then val s x y else px s x y))"
proof -
  obtain l t r b cl ct cr cb where box: "box = (l, t, r, b)" "c = (cl, ct, cr, cb)" by (metis prod_cases4)
  let ?l = "max l cl" and ?t = "max t ct" and ?r = "min r cr" and ?b = "min b cb"
  show ?thesis
  proof (cases "?l \<ge> ?r \<or> ?t \<ge> ?b")
    case True
    then have "nat_box box \<inter> nat_box c = {}" unfolding box nat_box_inter [symmetric] by (rule nat_box_empty)
    moreover have "paint_one paint box c (s, w) = Some (s, w)" using True by (simp add: paint_one_def box)
    moreover have "logged s (s\<lparr>ds_dirty := True\<rparr>)" using assms(1) by (simp add: logged_def)
    ultimately show ?thesis using assms(2) by auto
  next
    case False
    have "fits s (?l, ?t, ?r, ?b)"
      by (rule fits_sub [OF assms(2) [unfolded box]]) (use False in \<open>simp_all only: not_le de_Morgan_disj max.cobounded1 min.cobounded1\<close>)
    from paints [OF assms(1) this] obtain s1 where
      s1: "paint (?l, ?t, ?r, ?b) s = Some s1" "painted s (nat_box (?l, ?t, ?r, ?b)) (val s) s1" by blast
    note sz = painted_size [OF s1(2)]
    have "paint_one paint box c (s, w) = Some (add_damage ?l ?t ?r ?b s1, True)"
      using False s1(1) by (simp add: paint_one_def box Let_def)
    moreover have "fits (add_damage ?l ?t ?r ?b s1) box"
      using assms(2) fits_size [of "add_damage ?l ?t ?r ?b s1" s] sz by simp
    moreover note logged_paint [OF assms(1) s1(2) subset_refl]
    moreover have "\<forall>x < sw s. \<forall>y < sh s. px s1 x y =
        (if (x, y) \<in> nat_box box \<inter> nat_box c then val s x y else px s x y)"
      using s1(2) unfolding painted_def nat_box_inter box by blast
    ultimately show ?thesis using sz by (simp, intro exI [of _ True], simp)
  qed
qed

lemma loop:
  assumes "surf_ok s" and "fits s box"
  shows "\<exists>s' w'. for_each clip (paint_one paint box) (s, w) = Some (s', w')
    \<and> logged s (s'\<lparr>ds_dirty := True\<rparr>) \<and> ds_dirty s' = ds_dirty s \<and> (w' \<or> \<not> w \<and> s' = s)"
  using assms
proof (induction clip arbitrary: s w)
  case (Cons c clip)
  from one [OF Cons.prems] obtain s1 w1 where
    s1: "paint_one paint box c (s, w) = Some (s1, w1)" "fits s1 box" "logged s (s1\<lparr>ds_dirty := True\<rparr>)"
      "ds_dirty s1 = ds_dirty s" "w1 \<or> \<not> w \<and> s1 = s" by blast
  have "surf_ok s1" using s1(3) by (simp add: logged_def)
  from Cons.IH [OF this s1(2)] obtain s2 w2 where
    s2: "for_each clip (paint_one paint box) (s1, w1) = Some (s2, w2)" "logged s1 (s2\<lparr>ds_dirty := True\<rparr>)"
      "ds_dirty s2 = ds_dirty s1" "w2 \<or> \<not> w1 \<and> s2 = s1" by blast
  then show ?case using s1 logged_until_dirty [OF s1(3) s2(2)] by auto
qed (simp add: logged_def)

lemma clipped_logged:
  assumes "surf_ok s" and "fits s box"
  shows "\<exists>s'. paint_clipped paint box clip s = Some s' \<and> logged s s'"
proof (cases "clip = []")
  case True
  obtain l t r b where box: "box = (l, t, r, b)" by (metis prod_cases4)
  from paints [OF assms] obtain s' where "paint box s = Some s'" "painted s (nat_box box) (val s) s'" by blast
  with True logged_paint [OF assms(1), of "nat_box box" "val s" s' l t r b] show ?thesis
    by (simp add: paint_clipped_def box)
next
  case False
  from loop [OF assms, of clip False] obtain s' w' where
    "for_each clip (paint_one paint box) (s, False) = Some (s', w')" "logged s (s'\<lparr>ds_dirty := True\<rparr>)"
    "w' \<or> s' = s" by blast
  with False logged_refl [OF assms(1)] show ?thesis by (cases w') (simp_all add: paint_clipped_def)
qed

text \<open>
  When what is read lies outside the box, the boxes painted before do not matter: every pixel of the
  box that some clip rectangle holds gets the value the first surface gives it.
\<close>

lemma loop_stable:
  assumes "surf_ok s" and "fits s box" and "ds_width s = ds_width s0" and "ds_height s = ds_height s0"
    and reads: "steady val s0 box"
    and "\<forall>x < sw s0. \<forall>y < sh s0. (x, y) \<notin> nat_box box \<longrightarrow> px s x y = px s0 x y"
    and "for_each clip (paint_one paint box) (s, w) = Some (s', w')"
    and "x < sw s0" and "y < sh s0"
  shows "px s' x y = (if (x, y) \<in> nat_box box \<and> (\<exists>c\<in>set clip. (x, y) \<in> nat_box c) then val s0 x y else px s x y)"
  using assms(1-4,6-)
proof (induction clip arbitrary: s w)
  case (Cons c clip)
  from one [OF Cons.prems(1,2), of c w] obtain s1 w1 where
    s1: "paint_one paint box c (s, w) = Some (s1, w1)" "fits s1 box" "logged s (s1\<lparr>ds_dirty := True\<rparr>)"
    and px1: "\<forall>x < sw s. \<forall>y < sh s. px s1 x y = (if (x, y) \<in> nat_box box \<inter> nat_box c then val s x y else px s x y)"
    by blast
  have ok1: "surf_ok s1" "ds_width s1 = ds_width s0" "ds_height s1 = ds_height s0"
    using s1(3) Cons.prems(3,4) by (simp_all add: logged_def)
  have v: "(x, y) \<in> nat_box box \<longrightarrow> val s x y = val s0 x y"
    by (intro impI reads [unfolded steady_def, rule_format, of s]) (use Cons.prems(3-5,7,8) in simp_all)
  have out: "\<forall>x < sw s0. \<forall>y < sh s0. (x, y) \<notin> nat_box box \<longrightarrow> px s1 x y = px s0 x y"
    using Cons.prems(3-5) px1 by simp
  have "for_each clip (paint_one paint box) (s1, w1) = Some (s', w')" using Cons.prems(6) s1(1) by simp
  note * = Cons.IH [OF ok1(1) s1(2) ok1(2,3) out this Cons.prems(7,8)]
  have "px s1 x y = (if (x, y) \<in> nat_box box \<inter> nat_box c then val s x y else px s x y)"
    using px1 Cons.prems(3,4,7,8) by simp
  with * v show ?case
    by (cases "(x, y) \<in> nat_box box"; cases "(x, y) \<in> nat_box c"; cases "\<exists>c\<in>set clip. (x, y) \<in> nat_box c") simp_all
qed simp

lemma clipped_stable:
  assumes "surf_ok s" and "fits s box" and "x < sw s" and "y < sh s" and "length clip \<le> 1 \<or> steady val s box"
  shows "\<exists>s'. paint_clipped paint box clip s = Some s' \<and> px s' x y =
    (if (x, y) \<in> nat_box box \<and> (clip = [] \<or> (\<exists>c\<in>set clip. (x, y) \<in> nat_box c)) then val s x y else px s x y)"
proof (cases "clip = []")
  case True
  obtain l t r b where box: "box = (l, t, r, b)" by (metis prod_cases4)
  from paints [OF assms(1,2)] obtain s' where "paint box s = Some s'" "painted s (nat_box box) (val s) s'" by blast
  with True assms(3,4) show ?thesis by (simp add: paint_clipped_def box painted_def)
next
  case False
  from loop [OF assms(1,2), of clip False] obtain s' w' where
    l: "for_each clip (paint_one paint box) (s, False) = Some (s', w')" by blast
  have "px s' x y = (if (x, y) \<in> nat_box box \<and> (\<exists>c\<in>set clip. (x, y) \<in> nat_box c) then val s x y else px s x y)"
  proof (cases "length clip \<le> 1")
    case True
    with False obtain c where c: "clip = [c]" by (cases clip) auto
    from one [OF assms(1,2), of c False] obtain s1 w1 where
      s1: "paint_one paint box c (s, False) = Some (s1, w1)"
        "\<forall>x < sw s. \<forall>y < sh s. px s1 x y = (if (x, y) \<in> nat_box box \<inter> nat_box c then val s x y else px s x y)" by blast
    then have "s1 = s'" using l by (simp add: c)
    with s1(2) assms(3,4) show ?thesis by (simp add: c)
  next
    case False
    then have "steady val s box" using assms(5) by simp
    from loop_stable [OF assms(1,2) refl refl this _ l assms(3,4)] show ?thesis by simp
  qed
  moreover have "\<exists>s''. paint_clipped paint box clip s = Some s'' \<and> px s'' = px s'"
    using False l by (simp add: paint_clipped_def)
  ultimately show ?thesis using False by (elim exE conjE) (intro exI conjI, assumption, simp)
qed

end

text \<open>
  A painter that computes each pixel from its own old value: through a clip, every clip rectangle
  that holds a pixel of the box applies the rule to it once more.
\<close>

locale pixel_painter = painter paint fits "\<lambda>s x y. rule_of (px s x y)" for paint fits rule_of
begin

lemma loop_exact:
  assumes "surf_ok s" and "fits s box"
    and "for_each clip (paint_one paint box) (s, w) = Some (s', w')"
    and "x < sw s" and "y < sh s"
  shows "px s' x y = (if (x, y) \<in> nat_box box
    then (rule_of ^^ length (filter (\<lambda>c. (x, y) \<in> nat_box c) clip)) (px s x y) else px s x y)"
  using assms
proof (induction clip arbitrary: s w)
  case (Cons c clip)
  from one [OF Cons.prems(1,2), of c w] obtain s1 w1 where
    s1: "paint_one paint box c (s, w) = Some (s1, w1)" "fits s1 box" "logged s (s1\<lparr>ds_dirty := True\<rparr>)"
    and px1: "\<forall>x < sw s. \<forall>y < sh s. px s1 x y = (if (x, y) \<in> nat_box box \<inter> nat_box c then rule_of (px s x y) else px s x y)"
    by blast
  have ok1: "surf_ok s1" "sw s1 = sw s" "sh s1 = sh s" using s1(3) by (simp_all add: logged_def)
  have "for_each clip (paint_one paint box) (s1, w1) = Some (s', w')" using Cons.prems(3) s1(1) by simp
  from Cons.IH [OF ok1(1) s1(2) this] Cons.prems(4,5) ok1 px1 show ?case
    by (auto simp: funpow_swap1)
qed simp

lemma clipped_exact:
  assumes "surf_ok s" and "fits s box" and "x < sw s" and "y < sh s"
  shows "\<exists>s'. paint_clipped paint box clip s = Some s'
    \<and> px s' x y = (if (x, y) \<in> nat_box box
        then if clip = [] then rule_of (px s x y) else (rule_of ^^ length (filter (\<lambda>c. (x, y) \<in> nat_box c) clip)) (px s x y)
        else px s x y)"
proof (cases "clip = []")
  case True
  obtain l t r b where box: "box = (l, t, r, b)" by (metis prod_cases4)
  from paints [OF assms(1,2)] obtain s' where "paint box s = Some s'" "painted s (nat_box box) (\<lambda>x y. rule_of (px s x y)) s'" by blast
  with True assms(3,4) show ?thesis by (simp add: paint_clipped_def box painted_def)
next
  case False
  from loop [OF assms(1,2), of clip False] obtain s' w' where
    l: "for_each clip (paint_one paint box) (s, False) = Some (s', w')" by blast
  from loop_exact [OF assms(1,2) l assms(3,4)] False l show ?thesis by (simp add: paint_clipped_def)
qed

end

lemma fill_subrect_eq:
  "fill_subrect colour (l, t, r, b) s =
     map_option (\<lambda>px. s\<lparr>ds_pixels := px\<rparr>)
       (for_each [unat t..<unat b] (\<lambda>y. for_each [unat l..<unat r]
          (\<lambda>x buf. write_pixel buf (y * unat (ds_width s * 4) + x * 4) colour)) (ds_pixels s))"
  by (simp add: fill_subrect_def Let_def)

lemma byte_index: "surf_ok s \<Longrightarrow> y * unat (ds_width s * 4) + x * 4 = 4 * (y * sw s + x)"
  by (simp add: stride_eq algebra_simps)

lemma box_index:
  "box_fits s (l, t, r, b) \<Longrightarrow> (x, y) \<in> nat_box (l, t, r, b) \<Longrightarrow> y * sw s + x < sw s * sh s"
  by (rule index_lt) (auto simp: box_fits_def nat_box_def word_le_nat_alt)

lemma box_fits_sub:
  "box_fits s (l, t, r, b) \<Longrightarrow> r' \<le> r \<Longrightarrow> b' \<le> b \<Longrightarrow> box_fits s (l', t', r', b')"
  by (auto simp: box_fits_def)

interpretation filling: pixel_painter "fill_subrect (r, g, b, a)" box_fits "\<lambda>_. [r, g, b, a]" for r g b a
proof unfold_locales
  fix s :: display_surface and box
  assume ok: "surf_ok s" and fits: "box_fits s box"
  obtain l t r' b' where box: "box = (l, t, r', b')" by (metis prod_cases4)
  show "\<exists>s'. fill_subrect (r, g, b, a) box s = Some s' \<and> painted s (nat_box box) (\<lambda>x y. [r, g, b, a]) s'"
    unfolding box fill_subrect_eq
    by (rule box_loop [OF ok fits [unfolded box]], unfold byte_index [OF ok])
      (rule write_pixel_repaints [OF _ box_index [OF fits [unfolded box]]])
qed (auto simp: box_fits_def)

interpretation inverting: pixel_painter invert_subrect box_fits inverted
proof unfold_locales
  fix s :: display_surface and box
  assume ok: "surf_ok s" and fits: "box_fits s box"
  obtain l t r b where box: "box = (l, t, r, b)" by (metis prod_cases4)
  show "\<exists>s'. invert_subrect box s = Some s' \<and> painted s (nat_box box) (\<lambda>x y. inverted (px s x y)) s'"
    unfolding box invert_subrect_def prod.case Let_def
    by (rule box_loop [OF ok fits [unfolded box]], unfold byte_index [OF ok])
      (rule invert_pixel_repaints [OF _ box_index [OF fits [unfolded box]]])
qed (auto simp: box_fits_def)

text \<open>
  Copying within the surface: the box may be painted when the source it is shifted to is on the
  surface as well.
\<close>

definition copy_fits :: "u32 \<Rightarrow> u32 \<Rightarrow> u32 \<Rightarrow> u32 \<Rightarrow> display_surface \<Rightarrow> ltrb \<Rightarrow> bool" where
  "copy_fits sx sy dl dt s box =
     (case box of (l, t, r, b) \<Rightarrow> box_fits s (l, t, r, b) \<and> l < r \<and> t < b \<and> dl \<le> l \<and> dt \<le> t
        \<and> unat sx + (unat r - unat dl) \<le> sw s \<and> unat sy + (unat b - unat dt) \<le> sh s)"

lemma unat_shift:
  assumes "dl \<le> l" and "unat sx + (unat l - unat dl) \<le> unat (w :: u32)"
  shows "unat (sx + (l - dl)) = unat sx + (unat l - unat (dl :: u32))"
  using assms u32_lt [of w] by (simp add: unat_word_ariths unat_sub_if' word_le_nat_alt)

interpretation copying: painter "copy_shifted sx sy dl dt" "copy_fits sx sy dl dt"
  "\<lambda>s x y. px s (x - unat dl + unat sx) (y - unat dt + unat sy)" for sx sy dl dt
proof unfold_locales
  fix s :: display_surface and box
  assume ok: "surf_ok s" and fits: "copy_fits sx sy dl dt s box"
  obtain l t r b where box: "box = (l, t, r, b)" by (metis prod_cases4)
  from fits have f: "box_fits s (l, t, r, b)" "l < r" "t < b" "dl \<le> l" "dt \<le> t"
      "unat sx + (unat r - unat dl) \<le> sw s" "unat sy + (unat b - unat dt) \<le> sh s"
    by (simp_all add: copy_fits_def box)
  then have le: "unat dl \<le> unat l" "unat dt \<le> unat t" "unat l < unat r" "unat t < unat b"
    by (simp_all add: word_le_nat_alt word_less_nat_alt)
  have u: "unat (sx + (l - dl)) = unat sx + (unat l - unat dl)" "unat (sy + (t - dt)) = unat sy + (unat t - unat dt)"
    using f le unat_shift [of dl l sx "ds_width s"] unat_shift [of dt t sy "ds_height s"] by simp_all
  have "\<exists>s'. copy_subrect (sx + (l - dl)) (sy + (t - dt)) (l, t, r, b) s = Some s'
      \<and> painted s (nat_box (l, t, r, b)) (\<lambda>x y. px s (x - unat l + (unat sx + (unat l - unat dl)))
          (y - unat t + (unat sy + (unat t - unat dt)))) s'"
    using copy_subrect_painted [OF ok f(1-3), of "sx + (l - dl)" "sy + (t - dt)"] f(6,7) le unfolding u by simp
  then obtain s' where s': "copy_subrect (sx + (l - dl)) (sy + (t - dt)) (l, t, r, b) s = Some s'"
      "painted s (nat_box (l, t, r, b)) (\<lambda>x y. px s (x - unat l + (unat sx + (unat l - unat dl)))
          (y - unat t + (unat sy + (unat t - unat dt)))) s'" by blast
  have eq: "px s (x - unat l + (unat sx + (unat l - unat dl))) (y - unat t + (unat sy + (unat t - unat dt)))
      = px s (x - unat dl + unat sx) (y - unat dt + unat sy)" if "(x, y) \<in> nat_box (l, t, r, b)" for x y
    by (rule arg_cong2 [where f = "px s"]) (use that le in \<open>simp_all add: nat_box_def\<close>)
  have "painted s (nat_box (l, t, r, b)) (\<lambda>x y. px s (x - unat dl + unat sx) (y - unat dt + unat sy)) s'"
    by (rule painted_cong [THEN iffD1, rotated, OF s'(2)]) (rule eq)
  with s'(1) show "\<exists>s'. copy_shifted sx sy dl dt box s = Some s' \<and> painted s (nat_box box)
      (\<lambda>x y. px s (x - unat dl + unat sx) (y - unat dt + unat sy)) s'"
    by (simp add: box copy_shifted_def)
qed (auto simp: copy_fits_def box_fits_def word_le_nat_alt word_less_nat_alt)

section \<open>The operations\<close>

definition bounds :: "display_surface \<Rightarrow> (nat \<times> nat) set" where
  "bounds s = {(x, y). x < sw s \<and> y < sh s}"

lemma clip_to_bounds_None:
  "clip_to_bounds (ds_width s) (ds_height s) l t r b = None \<Longrightarrow> nat_box (l, t, r, b) \<inter> bounds s = {}"
  by (auto simp: clip_to_bounds_def Let_def nat_box_def bounds_def min_def word_le_nat_alt split: if_splits)

lemma clip_to_bounds_Some:
  "clip_to_bounds (ds_width s) (ds_height s) l t r b = Some box
     \<Longrightarrow> box_fits s box \<and> nat_box box = nat_box (l, t, r, b) \<inter> bounds s"
  by (auto simp: clip_to_bounds_def Let_def nat_box_def bounds_def box_fits_def min_def word_le_nat_alt split: if_splits)

text \<open>How often a pixel of the box is painted.\<close>

definition passes :: "ltrb list \<Rightarrow> nat \<times> nat \<Rightarrow> nat" where
  "passes clip p = (if clip = [] then 1 else length (filter (\<lambda>c. p \<in> nat_box c) clip))"

lemma const_funpow: "((\<lambda>_. c) ^^ n) v = (if n = 0 then v else c)"
  by (cases n) simp_all

lemma inverted_inverted: "length p = 4 \<Longrightarrow> inverted (inverted p) = p"
  by (auto simp: inverted_def numeral_eq_Suc length_Suc_conv)

lemma length_px [simp]: "length (px s x y) = 4"
  by (simp add: px_def pix_def)

lemma inverted_funpow: "length p = 4 \<Longrightarrow> (inverted ^^ n) p = (if even n then p else inverted p)"
  by (induction n) (simp_all add: inverted_inverted)

lemma fill_rect_spec:
  assumes ok: "surf_ok s"
  shows "\<exists>s'. fill_rect s l t r b (cr, cg, cb, ca) clip = Some s' \<and> logged s s'
    \<and> (\<forall>x < sw s. \<forall>y < sh s. px s' x y = (if (x, y) \<in> nat_box (l, t, r, b) \<and> passes clip (x, y) > 0
        then [cr, cg, cb, ca] else px s x y))"
proof (cases "clip_to_bounds (ds_width s) (ds_height s) l t r b")
  case None
  then have "fill_rect s l t r b (cr, cg, cb, ca) clip = Some s" by (simp add: fill_rect_def)
  moreover have "(x, y) \<notin> nat_box (l, t, r, b)" if "x < sw s" "y < sh s" for x y
    using clip_to_bounds_None [OF None] that by (auto simp: bounds_def)
  ultimately show ?thesis using logged_refl [OF ok] by simp
next
  case (Some box)
  note box = clip_to_bounds_Some [OF Some]
  from filling.clipped_logged [OF ok box [THEN conjunct1], of cr cg cb ca clip] obtain s' where
    s': "paint_clipped (fill_subrect (cr, cg, cb, ca)) box clip s = Some s'" "logged s s'" by blast
  have "px s' x y = (if (x, y) \<in> nat_box (l, t, r, b) \<and> passes clip (x, y) > 0 then [cr, cg, cb, ca] else px s x y)"
    if "x < sw s" "y < sh s" for x y
    using filling.clipped_exact [OF ok box [THEN conjunct1] that, of cr cg cb ca clip] s'(1) box that
    by (auto simp: passes_def const_funpow bounds_def split: if_splits)
  with s' Some show ?thesis by (simp add: fill_rect_def)
qed

lemma invert_rect_spec:
  assumes ok: "surf_ok s"
  shows "\<exists>s'. invert_rect s l t r b clip = Some s' \<and> logged s s'
    \<and> (\<forall>x < sw s. \<forall>y < sh s. px s' x y = (if (x, y) \<in> nat_box (l, t, r, b) \<and> odd (passes clip (x, y))
        then inverted (px s x y) else px s x y))"
proof (cases "clip_to_bounds (ds_width s) (ds_height s) l t r b")
  case None
  then have "invert_rect s l t r b clip = Some s" by (simp add: invert_rect_def)
  moreover have "(x, y) \<notin> nat_box (l, t, r, b)" if "x < sw s" "y < sh s" for x y
    using clip_to_bounds_None [OF None] that by (auto simp: bounds_def)
  ultimately show ?thesis using logged_refl [OF ok] by simp
next
  case (Some box)
  note box = clip_to_bounds_Some [OF Some]
  from inverting.clipped_logged [OF ok box [THEN conjunct1], of clip] obtain s' where
    s': "paint_clipped invert_subrect box clip s = Some s'" "logged s s'" by blast
  have "px s' x y = (if (x, y) \<in> nat_box (l, t, r, b) \<and> odd (passes clip (x, y)) then inverted (px s x y) else px s x y)"
    if "x < sw s" "y < sh s" for x y
    using inverting.clipped_exact [OF ok box [THEN conjunct1] that, of clip] s'(1) box that
    by (auto simp: passes_def inverted_funpow bounds_def split: if_splits)
  with s' Some show ?thesis by (simp add: invert_rect_def)
qed

text \<open>The destination pixels of a copy that are on the surface and whose source is too.\<close>

definition copyable :: "display_surface \<Rightarrow> u32 \<Rightarrow> u32 \<Rightarrow> ltrb \<Rightarrow> (nat \<times> nat) set" where
  "copyable s sx sy dest = (case dest of (dl, dt, dr, db) \<Rightarrow>
     {(x, y). (x, y) \<in> nat_box (dl, dt, dr, db) \<and> x < sw s \<and> y < sh s
        \<and> x - unat dl + unat sx < sw s \<and> y - unat dt + unat sy < sh s})"

text \<open>One axis of the clipping: the destination from \<open>d\<close> to \<open>e\<close>, the source from \<open>o'\<close>, on a side of \<open>w\<close>.\<close>

lemma copy_axis:
  fixes d e o' w :: u32
  assumes "unat w \<le> 16384" and "d < e" and "e \<le> w" and "o' < w"
  shows "\<not> (saturating_add32 o' (e - d) > w \<and> saturating_add32 o' (e - d) - w \<ge> e - d)"
    and "unat (if saturating_add32 o' (e - d) > w then e - (saturating_add32 o' (e - d) - w) else e)
      = min (unat e) (unat d + unat w - unat o')"
proof -
  have n: "unat d < unat e" "unat e \<le> unat w" "unat o' < unat w"
    using assms(2-4) by (simp_all add: word_less_nat_alt word_le_nat_alt)
  have ed: "unat (e - d) = unat e - unat d" using n by (simp add: unat_sub_if')
  have src: "unat (saturating_add32 o' (e - d)) = unat o' + (unat e - unat d)"
  proof -
    have "unat o' + (unat e - unat d) < 4294967296" using n assms(1) by linarith
    then show ?thesis by (simp add: saturating_add32_def ed unat_word_ariths)
  qed
  have gt: "saturating_add32 o' (e - d) > w \<longleftrightarrow> unat w < unat o' + (unat e - unat d)"
    by (simp add: word_less_nat_alt src)
  have ov: "unat (saturating_add32 o' (e - d) - w) = unat o' + (unat e - unat d) - unat w"
    if "unat w < unat o' + (unat e - unat d)" using that by (simp add: unat_sub_if' src)
  show "\<not> (saturating_add32 o' (e - d) > w \<and> saturating_add32 o' (e - d) - w \<ge> e - d)"
    using n by (auto simp: gt word_le_nat_alt ov ed)
  show "unat (if saturating_add32 o' (e - d) > w then e - (saturating_add32 o' (e - d) - w) else e)
      = min (unat e) (unat d + unat w - unat o')"
    using n by (auto simp: gt unat_sub_if' src)
qed

lemma copy_bits_box_spec:
  assumes ok: "surf_ok s"
  shows "case copy_bits_box (ds_width s) (ds_height s) sx sy (dl, dt, dr, db) of
      None \<Rightarrow> copyable s sx sy (dl, dt, dr, db) = {}
    | Some (dl', dt', dr', db') \<Rightarrow> dl' = dl \<and> dt' = dt \<and> copy_fits sx sy dl dt s (dl, dt, dr', db')
        \<and> nat_box (dl, dt, dr', db') = copyable s sx sy (dl, dt, dr, db)"
proof (cases "dl \<ge> min dr (ds_width s) \<or> dt \<ge> min db (ds_height s) \<or> sx \<ge> ds_width s \<or> sy \<ge> ds_height s")
  case True
  then have "copyable s sx sy (dl, dt, dr, db) = {}"
    by (auto simp: copyable_def nat_box_def min_def word_le_nat_alt split: if_splits)
  moreover have "copy_bits_box (ds_width s) (ds_height s) sx sy (dl, dt, dr, db) = None"
    using True unfolding copy_bits_box_def prod.case Let_def min_def by (auto split: if_splits)
  ultimately show ?thesis by simp
next
  case False
  define r b where "r = min dr (ds_width s)" and "b = min db (ds_height s)"
  have r: "(if dr > ds_width s then ds_width s else dr) = r" and b: "(if db > ds_height s then ds_height s else db) = b"
    by (auto simp: r_def b_def min_def)
  from False have lt: "dl < r" "dt < b" "sx < ds_width s" "sy < ds_height s"
    unfolding r_def b_def not_le de_Morgan_disj by blast+
  have le: "r \<le> ds_width s" "b \<le> ds_height s" "r \<le> dr" "b \<le> db" by (simp_all add: r_def b_def)
  have sz: "sw s \<le> 16384" "sh s \<le> 16384" using ok by (simp_all add: surf_ok_def)
  define r' where "r' = (if saturating_add32 sx (r - dl) > ds_width s
    then r - (saturating_add32 sx (r - dl) - ds_width s) else r)"
  define b' where "b' = (if saturating_add32 sy (b - dt) > ds_height s
    then b - (saturating_add32 sy (b - dt) - ds_height s) else b)"
  note ax = copy_axis [OF sz(1) lt(1) le(1) lt(3), folded r'_def] copy_axis [OF sz(2) lt(2) le(2) lt(4), folded b'_def]
  have n: "unat dl < unat r" "unat dt < unat b" "unat sx < sw s" "unat sy < sh s" "unat r = min (unat dr) (sw s)"
      "unat b = min (unat db) (sh s)"
    using lt by (auto simp: word_less_nat_alt word_le_nat_alt r_def b_def min_def)
  have pos: "dl < r'" "dt < b'" unfolding word_less_nat_alt ax using n by auto
  have nd: "\<not> dl \<ge> dr" "\<not> dt \<ge> db" using lt le by auto
  have "copy_bits_box (ds_width s) (ds_height s) sx sy (dl, dt, dr, db) = Some (dl, dt, r', b')"
    unfolding copy_bits_box_def prod.case Let_def r b r'_def [symmetric] b'_def [symmetric]
    using nd lt pos ax by (simp add: not_le)
  moreover have "copy_fits sx sy dl dt s (dl, dt, r', b')"
    unfolding copy_fits_def box_fits_def prod.case word_le_nat_alt ax using pos n by auto
  moreover have "nat_box (dl, dt, r', b') = copyable s sx sy (dl, dt, dr, db)"
    unfolding nat_box_def copyable_def prod.case ax using n by auto
  ultimately show ?thesis by simp
qed

lemma copy_bits_logged:
  assumes ok: "surf_ok s"
  shows "\<exists>s'. copy_bits s sx sy dl dt dr db clip = Some s' \<and> logged s s'"
proof (cases "copy_bits_box (ds_width s) (ds_height s) sx sy (dl, dt, dr, db)")
  case None
  then show ?thesis using logged_refl [OF ok] by (simp add: copy_bits_def)
next
  case (Some box)
  obtain l t r b where box: "box = (l, t, r, b)" by (metis prod_cases4)
  have "l = dl" "t = dt" "copy_fits sx sy dl dt s (dl, dt, r, b)"
    using copy_bits_box_spec [OF ok, of sx sy dl dt dr db] Some box by simp_all
  with copying.clipped_logged [OF ok, of sx sy dl dt "(dl, dt, r, b)" clip] Some box show ?thesis
    by (simp add: copy_bits_def)
qed

lemma copy_steady:
  assumes nb: "nat_box box = copyable s sx sy (dl, dt, dr, db)"
    and apart: "\<forall>(x, y) \<in> copyable s sx sy (dl, dt, dr, db).
      (x - unat dl + unat sx, y - unat dt + unat sy) \<notin> copyable s sx sy (dl, dt, dr, db)"
  shows "steady (\<lambda>s x y. px s (x - unat dl + unat sx) (y - unat dt + unat sy)) s box"
  unfolding steady_def nb
proof (intro allI impI, elim conjE)
  fix s' x y
  assume same: "\<forall>x < sw s. \<forall>y < sh s. (x, y) \<notin> copyable s sx sy (dl, dt, dr, db) \<longrightarrow> px s' x y = px s x y"
    and xy: "(x, y) \<in> copyable s sx sy (dl, dt, dr, db)"
  have "(x - unat dl + unat sx, y - unat dt + unat sy) \<notin> copyable s sx sy (dl, dt, dr, db)"
    using bspec [OF apart xy] by simp
  moreover have "x - unat dl + unat sx < sw s" "y - unat dt + unat sy < sh s"
    using xy by (simp_all add: copyable_def)
  ultimately show "px s' (x - unat dl + unat sx) (y - unat dt + unat sy) = px s (x - unat dl + unat sx) (y - unat dt + unat sy)"
    using same by blast
qed

text \<open>C25: A copy within a surface writes, to every destination pixel that is on the surface and in the
  clip and whose source is on the surface, the value its source pixel had before the copy, and leaves
  every other pixel alone, whenever the clip is at most one rectangle, or the source and the
  destination do not overlap. It never reads or writes past the pixel buffer.
\<close>

theorem copy_bits_exact:
  assumes ok: "surf_ok s" and x: "x < sw s" and y: "y < sh s"
    and apart: "length clip \<le> 1 \<or> (\<forall>(x, y) \<in> copyable s sx sy (dl, dt, dr, db).
      (x - unat dl + unat sx, y - unat dt + unat sy) \<notin> copyable s sx sy (dl, dt, dr, db))"
  shows "\<exists>s'. copy_bits s sx sy dl dt dr db clip = Some s'
    \<and> px s' x y = (if (x, y) \<in> copyable s sx sy (dl, dt, dr, db) \<and> (clip = [] \<or> (\<exists>c\<in>set clip. (x, y) \<in> nat_box c))
        then px s (x - unat dl + unat sx) (y - unat dt + unat sy) else px s x y)"
proof (cases "copy_bits_box (ds_width s) (ds_height s) sx sy (dl, dt, dr, db)")
  case None
  with copy_bits_box_spec [OF ok, of sx sy dl dt dr db] show ?thesis by (simp add: copy_bits_def)
next
  case (Some box)
  obtain l t r b where box: "box = (l, t, r, b)" by (metis prod_cases4)
  have lt: "l = dl" "t = dt" and fits: "copy_fits sx sy dl dt s (dl, dt, r, b)"
    and nb: "nat_box (dl, dt, r, b) = copyable s sx sy (dl, dt, dr, db)"
    using copy_bits_box_spec [OF ok, of sx sy dl dt dr db] Some box by simp_all
  have "length clip \<le> 1 \<or> steady (\<lambda>s x y. px s (x - unat dl + unat sx) (y - unat dt + unat sy)) s (dl, dt, r, b)"
    using apart copy_steady [OF nb] by blast
  from copying.clipped_stable [OF ok fits x y this] Some box lt nb show ?thesis
    by (simp add: copy_bits_def)
qed

definition three_rows :: display_surface where
  "three_rows = \<lparr>ds_id = 0, ds_width = 2, ds_height = 3,
     ds_pixels = [1, 1, 1, 255, 2, 2, 2, 255, 3, 3, 3, 255, 4, 4, 4, 255, 5, 5, 5, 255, 6, 6, 6, 255],
     ds_dirty = False, ds_damage = DamageRegion_new\<rparr>"

lemma three_rows_size [simp]: "ds_width three_rows = 2" "ds_height three_rows = 3"
  by (simp_all add: three_rows_def)

theorem copy_bits_exact_witness:
  "\<exists>s'. copy_bits three_rows 0 0 0 1 2 3 [(0, 0, 1, 9)] = Some s' \<and> px s' 0 2 = [3, 3, 3, 255]"
proof -
  have "surf_ok three_rows" by (simp add: surf_ok_def three_rows_def)
  from copy_bits_exact [OF this, of 0 2 "[(0, 0, 1, 9)]" 0 0 0 1 2 3]
  show ?thesis by (simp add: three_rows_def copyable_def nat_box_def px_def pix_def)
qed

text \<open>C26: A copy that scrolls a region onto itself is wrong when its clip is several rectangles: each is
  copied in turn, and a later one reads pixels an earlier one has already overwritten. Here the rows of
  a surface are moved down by one through an L-shaped clip, which \<open>clip_area\<close> turns into two boxes; the
  third row then gets the first row's pixel, not the second row's.
\<close>

theorem copy_bits_smears:
  "clip_area (Clip_of_rects [\<lparr>rc_top = 1, rc_left = 0, rc_bottom = 2, rc_right = 2\<rparr>,
       \<lparr>rc_top = 2, rc_left = 0, rc_bottom = 3, rc_right = 1\<rparr>]) (0, 1, 2, 3)
     = Rects [(0, 1, 2, 2), (0, 2, 1, 3)]
   \<and> (\<exists>s'. copy_bits three_rows 0 0 0 1 2 3 [(0, 1, 2, 2), (0, 2, 1, 3)] = Some s'
        \<and> px s' 0 2 = px three_rows 0 0) \<and> px three_rows 0 1 \<noteq> px three_rows 0 0"
proof (intro conjI)
  show "clip_area (Clip_of_rects [\<lparr>rc_top = 1, rc_left = 0, rc_bottom = 2, rc_right = 2\<rparr>,
       \<lparr>rc_top = 2, rc_left = 0, rc_bottom = 3, rc_right = 1\<rparr>]) (0, 1, 2, 3)
     = Rects [(0, 1, 2, 2), (0, 2, 1, 3)]"
    by code_simp
  let ?p = "copy_shifted 0 0 0 1" and ?b = "(0, 1, 2, 3) :: ltrb"
  have ok: "surf_ok three_rows" and fits: "copy_fits 0 0 0 1 three_rows ?b"
    by (simp_all add: surf_ok_def copy_fits_def box_fits_def three_rows_def)
  from copying.one [OF ok fits, of "(0, 1, 2, 2)" False] obtain s1 w1 where
    s1: "paint_one ?p ?b (0, 1, 2, 2) (three_rows, False) = Some (s1, w1)" "copy_fits 0 0 0 1 s1 ?b"
      "logged three_rows (s1\<lparr>ds_dirty := True\<rparr>)"
      "\<forall>x < sw three_rows. \<forall>y < sh three_rows. px s1 x y = (if (x, y) \<in> nat_box ?b \<inter> nat_box (0, 1, 2, 2)
         then px three_rows (x - unat (0 :: u32) + unat (0 :: u32)) (y - unat (1 :: u32) + unat (0 :: u32)) else px three_rows x y)"
    by (elim exE conjE)
  then have sz: "surf_ok s1" "ds_width s1 = 2" "ds_height s1 = 3" by (simp_all add: logged_def)
  have row1: "px s1 0 1 = px three_rows 0 0" using s1(4) [rule_format, of 0 1] by (simp add: nat_box_def)
  from copying.one [OF sz(1) s1(2), of "(0, 2, 1, 3)" w1] obtain s2 w2 where
    s2: "paint_one ?p ?b (0, 2, 1, 3) (s1, w1) = Some (s2, w2)"
      "\<forall>x < sw s1. \<forall>y < sh s1. px s2 x y = (if (x, y) \<in> nat_box ?b \<inter> nat_box (0, 2, 1, 3)
         then px s1 (x - unat (0 :: u32) + unat (0 :: u32)) (y - unat (1 :: u32) + unat (0 :: u32)) else px s1 x y)"
    by (elim exE conjE)
  have row2: "px s2 0 2 = px s1 0 1" using s2(2) [rule_format, of 0 2] by (simp add: nat_box_def sz)
  have cb: "copy_bits_box 2 3 0 0 (0, 1, 2, 3) = Some (0, 1, 2, 3)"
    by (simp add: copy_bits_box_def saturating_add32_def word_le_nat_alt word_less_nat_alt)
  have "copy_bits three_rows 0 0 0 1 2 3 [(0, 1, 2, 2), (0, 2, 1, 3)]
      = Some (if w2 then s2\<lparr>ds_dirty := True\<rparr> else s2)"
    unfolding copy_bits_def three_rows_size cb paint_clipped_def by (simp add: s1(1) s2(1))
  with row1 row2 show "\<exists>s'. copy_bits three_rows 0 0 0 1 2 3 [(0, 1, 2, 2), (0, 2, 1, 3)] = Some s' \<and> px s' 0 2 = px three_rows 0 0"
    by simp
  show "px three_rows 0 1 \<noteq> px three_rows 0 0" by (simp add: three_rows_def px_def pix_def)
qed

text \<open>
  Blending in 16 bits does not overflow: the effective alpha is the rounded product of the two alphas,
  and a channel is the rounded average weighted by it.
\<close>

definition exact_alpha :: "u8 \<Rightarrow> u8 \<Rightarrow> nat" where
  "exact_alpha sa alpha = (unat sa * unat alpha + 127) div 255"

lemma u8_lt: "unat (x :: u8) < 256"
  using unsigned_less [of x] by simp

lemma wide_u8: "unat (ucast (x :: u8) :: u16) = unat x"
proof -
  have "unat x < 2 ^ 16" using u8_lt [of x] by simp
  then show ?thesis by (simp add: unsigned_ucast_eq take_bit_nat_eq_self)
qed

lemma u8_product: "unat (x :: u8) * m \<le> 255 * 255" if "m \<le> 255"
  using u8_lt [of x] that by (intro mult_le_mono) simp_all

lemma effective_alpha_nat: "unat (effective_alpha sa alpha) = exact_alpha sa alpha" "exact_alpha sa alpha \<le> 255"
  using u8_product [of "unat alpha" sa] u8_lt [of alpha]
  by (simp_all add: effective_alpha_def exact_alpha_def unat_div_distrib unat_word_ariths wide_u8)

lemma blend_sum_bounds:
  fixes a b e :: nat
  assumes "e \<le> 255"
  shows "min a b \<le> (a * e + b * (255 - e) + 127) div 255" "(a * e + b * (255 - e) + 127) div 255 \<le> max a b"
    "a * e + b * (255 - e) \<le> max a b * 255"
proof -
  have "m * e + m * (255 - e) = m * 255" for m :: nat using assms by (simp add: add_mult_distrib2 [symmetric])
  moreover have "min a b * e + min a b * (255 - e) \<le> a * e + b * (255 - e)"
    "a * e + b * (255 - e) \<le> max a b * e + max a b * (255 - e)"
    by (intro add_mono mult_le_mono; simp)+
  ultimately have m: "min a b * 255 \<le> a * e + b * (255 - e)" "a * e + b * (255 - e) \<le> max a b * 255" by simp_all
  then have "min a b * 255 \<le> a * e + b * (255 - e) + 127" "a * e + b * (255 - e) + 127 < (max a b + 1) * 255" by simp_all
  then show "min a b \<le> (a * e + b * (255 - e) + 127) div 255" "(a * e + b * (255 - e) + 127) div 255 \<le> max a b"
    using less_mult_imp_div_less [of _ "max a b + 1" 255] div_le_mono [of "min a b * 255" _ 255] by (simp_all add: less_Suc_eq_le)
  show "a * e + b * (255 - e) \<le> max a b * 255" by (fact m(2))
qed

lemma blend_channel_nat:
  "unat (blend_channel (effective_alpha sa alpha) sc dc)
     = (unat sc * exact_alpha sa alpha + unat dc * (255 - exact_alpha sa alpha) + 127) div 255"
proof -
  define e where "e = exact_alpha sa alpha"
  have e: "e \<le> 255" "unat (effective_alpha sa alpha) = e" by (simp_all add: e_def effective_alpha_nat)
  define q where "q = unat sc * e + unat dc * (255 - e)"
  have ie: "unat (255 - effective_alpha sa alpha) = 255 - e" using e by (simp add: unat_sub_if')
  have mx: "max (unat sc) (unat dc) \<le> 255" using u8_lt [of sc] u8_lt [of dc] by simp
  have q: "q \<le> 65025" "(q + 127) div 255 \<le> 255"
    using blend_sum_bounds(2,3) [OF e(1), of "unat sc" "unat dc"] mx unfolding q_def by linarith+
  have "unat (ucast sc * effective_alpha sa alpha :: u16) = unat sc * e"
    "unat (ucast dc * (255 - effective_alpha sa alpha) :: u16) = unat dc * (255 - e)"
    using u8_product [of e sc] u8_product [of "255 - e" dc] e by (simp_all add: unat_word_ariths wide_u8 ie)
  then have "unat (ucast sc * effective_alpha sa alpha + ucast dc * (255 - effective_alpha sa alpha) + 127 :: u16) = q + 127"
    using q(1) by (simp add: unat_word_ariths q_def)
  then have v: "unat ((ucast sc * effective_alpha sa alpha + ucast dc * (255 - effective_alpha sa alpha) + 127) div 255 :: u16)
      = (q + 127) div 255" by (simp add: unat_div_distrib)
  have "(q + 127) div 255 < 2 ^ 8" using q(2) by simp
  then have "unat (blend_channel (effective_alpha sa alpha) sc dc) = (q + 127) div 255"
    unfolding blend_channel_def unsigned_ucast_eq v by (simp add: take_bit_nat_eq_self)
  then show ?thesis by (simp add: q_def e_def)
qed

lemma blended_channels:
  assumes "pixel_at pixels (y * (unat width * 4) + x * 4) = src"
  shows "let q = source_pixel pixels width x y; ea = exact_alpha (q ! 3) alpha in
    blended alpha src p ! 3 = 255
    \<and> (\<forall>i<3. unat (blended alpha src p ! i) = (unat (q ! i) * ea + unat (p ! i) * (255 - ea) + 127) div 255)"
proof -
  obtain r g b a where src: "src = (r, g, b, a)" by (metis prod_cases4)
  have "(i :: nat) < 3 \<longleftrightarrow> i = 0 \<or> i = 1 \<or> i = 2" for i by arith
  with pixel_at_source [OF assms [unfolded src]] show ?thesis
    by (auto simp: blended_def src Let_def blend_channel_nat)
qed

text \<open>C27: An alpha blit blends every pixel of the image that is on the surface and in its buffer exactly:
  each colour channel becomes the average of the image's and the surface's, weighted by the effective
  alpha (the product of the pixel's alpha and the draw's) and rounded to nearest, although it is
  computed in 16 bits, and the pixel becomes opaque. No other pixel changes, nothing is accessed out of
  bounds, and a channel stays between the two it is blended from.
\<close>

theorem blit_alpha_exact:
  assumes ok: "surf_ok s" and x: "x < sw s" and y: "y < sh s"
  shows "\<exists>s'. blit_alpha s left tp width height pixels alpha = Some s' \<and>
    (if (x, y) \<in> visible s left tp width height \<and> alpha \<noteq> 0 \<and> in_source pixels width (x - unat left) (y - unat tp)
     then let q = source_pixel pixels width (x - unat left) (y - unat tp); ea = exact_alpha (q ! 3) alpha in
       px s' x y ! 3 = 255
       \<and> (\<forall>i<3. unat (px s' x y ! i) = (unat (q ! i) * ea + unat (px s x y ! i) * (255 - ea) + 127) div 255
           \<and> min (unat (q ! i)) (unat (px s x y ! i)) \<le> unat (px s' x y ! i)
           \<and> unat (px s' x y ! i) \<le> max (unat (q ! i)) (unat (px s x y ! i)))
     else px s' x y = px s x y)"
proof -
  from blit_alpha_spec [OF ok, of left tp width height pixels alpha] obtain s' where
    s': "blit_alpha s left tp width height pixels alpha = Some s'"
      "px s' x y = (if (x, y) \<in> visible s left tp width height \<and> alpha \<noteq> 0 \<and> in_source pixels width (x - unat left) (y - unat tp)
         then blended alpha (pixel_at pixels ((y - unat tp) * (unat width * 4) + (x - unat left) * 4)) (px s x y)
         else px s x y)" using x y by blast
  have "exact_alpha c alpha \<le> 255" for c by (rule effective_alpha_nat)
  note bb = blend_sum_bounds [OF this]
  from s' blended_channels [OF refl, where pixels = pixels and y = "y - unat tp" and width = width and
      x = "x - unat left" and alpha = alpha and p = "px s x y"]
  show ?thesis by (simp add: Let_def bb)
qed

theorem blit_alpha_exact_witness:
  "\<exists>s'. blit_alpha three_rows 1 0 5 1 [200, 0, 0, 255, 9, 9, 9, 9] 128 = Some s' \<and> unat (px s' 1 0 ! 0) = 101"
proof -
  have "surf_ok three_rows" by (simp add: surf_ok_def three_rows_def)
  note * = blit_alpha_exact [OF this, where x = 1 and y = 0 and left = 1 and tp = 0 and width = 5 and height = 1
      and pixels = "[200, 0, 0, 255, 9, 9, 9, 9]" and alpha = 128]
  have "(1, 0) \<in> visible three_rows 1 0 5 1" "in_source [200, 0, 0, 255, 9, 9, 9, 9] 5 0 0"
    by (simp_all add: visible_def in_source_def)
  moreover have "source_pixel [200, 0, 0, 255, 9, 9, 9, 9] 5 0 0 = [200, 0, 0, 255]" "px three_rows 1 0 = [2, 2, 2, 255]"
    by (simp_all add: source_pixel_def pix_def px_def three_rows_def)
  ultimately obtain s' where "blit_alpha three_rows 1 0 5 1 [200, 0, 0, 255, 9, 9, 9, 9] 128 = Some s'"
    "\<forall>i<3. unat (px s' 1 0 ! i) = (unat ([200, 0, 0, 255 :: u8] ! i) * exact_alpha 255 128
        + unat ([2, 2, 2, 255 :: u8] ! i) * (255 - exact_alpha 255 128) + 127) div 255"
    using * by (auto simp: Let_def)
  then show ?thesis by (simp add: exact_alpha_def)
qed

end
