(* ===== verification/Surface_Mirror.thy ===== *)
theory Surface_Mirror
  imports Surface
begin

text \<open>
  The surface mirror (\<open>shakenfist-spice-renderer/src/surface_mirror.rs\<close>): the dispatch that applies
  the display channel's events to a map of surfaces, the same in every frontend. Events carry the time
  they were produced at, which only diagnostics read; it is left out. The events that are not draws
  (\<open>channels/mod.rs\<close>, \<open>ChannelEvent\<close>) are one constructor. A panic is \<open>None\<close>.
\<close>

section \<open>Events and the mirror\<close>

type_synonym surface_key = "u8 \<times> u32"

datatype channel_event =
    SurfaceCreated surface_key u32 u32
  | SurfaceDestroyed surface_key
  | ImageReady surface_key u32 u32 u32 u32 bytes u64
  | ImageReadyChroma surface_key u32 u32 u32 u32 bytes rgba u64
  | ImageReadyAlpha surface_key u32 u32 u32 u32 bytes u8 u64
  | FillRect surface_key ltrb rgba "ltrb list"
  | CopyBits surface_key u32 u32 ltrb "ltrb list"
  | Invert surface_key ltrb "ltrb list"
  | OtherEvent

datatype draw_outcome =
    NotDisplay
  | Created surface_key u32 u32
  | AutoCreated surface_key u32 u32
  | Destroyed surface_key
  | Drawn surface_key
  | UnknownSurface surface_key

type_synonym surface_mirror = "surface_key \<rightharpoonup> display_surface"

definition SurfaceMirror_new :: surface_mirror where
  "SurfaceMirror_new = Map.empty"

text \<open>A draw on a surface the mirror must already hold.\<close>

definition draw_on ::
  "surface_mirror \<Rightarrow> surface_key \<Rightarrow> (display_surface \<Rightarrow> display_surface option) \<Rightarrow> (draw_outcome \<times> surface_mirror) option"
  where
  "draw_on m key draw =
     (case m key of
        Some s \<Rightarrow> map_option (\<lambda>s'. (Drawn key, m(key \<mapsto> s'))) (draw s)
      | None \<Rightarrow> Some (UnknownSurface key, m))"

fun apply_event :: "surface_mirror \<Rightarrow> channel_event \<Rightarrow> (draw_outcome \<times> surface_mirror) option" where
  "apply_event m (SurfaceCreated key width height) =
     Some (Created key width height, m(key \<mapsto> DisplaySurface_new (snd key) width height))"
| "apply_event m (SurfaceDestroyed key) =
     (case m key of
        Some _ \<Rightarrow> Some (Destroyed key, m(key := None))
      | None \<Rightarrow> Some (UnknownSurface key, m))"
| "apply_event m (ImageReady key left tp width height pixels image_id) =
     (let surf_w = saturating_add32 left width; surf_h = saturating_add32 tp height;
          (outcome, entry) = (case m key of
             Some s \<Rightarrow> (Drawn key, s)
           | None \<Rightarrow> (AutoCreated key surf_w surf_h, DisplaySurface_new (snd key) surf_w surf_h)) in
      map_option (\<lambda>s'. (outcome, m(key \<mapsto> s'))) (blit entry left tp width height pixels))"
| "apply_event m (ImageReadyChroma key left tp width height pixels chroma image_id) =
     draw_on m key (\<lambda>s. blit_chroma s left tp width height pixels chroma)"
| "apply_event m (ImageReadyAlpha key left tp width height pixels alpha image_id) =
     draw_on m key (\<lambda>s. blit_alpha s left tp width height pixels alpha)"
| "apply_event m (FillRect key (left, tp, right, bottom) colour clip) =
     draw_on m key (\<lambda>s. fill_rect s left tp right bottom colour clip)"
| "apply_event m (CopyBits key src_x src_y (left, tp, right, bottom) clip) =
     draw_on m key (\<lambda>s. copy_bits s src_x src_y left tp right bottom clip)"
| "apply_event m (Invert key (left, tp, right, bottom) clip) =
     draw_on m key (\<lambda>s. invert_rect s left tp right bottom clip)"
| "apply_event m OtherEvent = Some (NotDisplay, m)"

fun apply_events :: "surface_mirror \<Rightarrow> channel_event list \<Rightarrow> surface_mirror option" where
  "apply_events m [] = Some m"
| "apply_events m (e # es) =
     (case apply_event m e of None \<Rightarrow> None | Some (_, m') \<Rightarrow> apply_events m' es)"

definition mirror_mark_all_damaged :: "surface_mirror \<Rightarrow> surface_mirror" where
  "mirror_mark_all_damaged m = (\<lambda>key. map_option mark_all_damaged (m key))"

text \<open>The key of the primary surface, given the order the map lists its keys in.\<close>

definition primary_key :: "surface_key list \<Rightarrow> surface_key option" where
  "primary_key ks = (if (0, 0) \<in> set ks then Some (0, 0) else case ks of [] \<Rightarrow> None | k # _ \<Rightarrow> Some k)"

definition with_test_surface :: "u8 \<Rightarrow> u32 \<Rightarrow> u32 \<Rightarrow> u32 \<Rightarrow> bytes \<Rightarrow> surface_mirror option" where
  "with_test_surface ch sid width height pixels =
     (if width > 0 \<and> height > 0
      then map_option (\<lambda>s. SurfaceMirror_new((ch, sid) \<mapsto> s))
             (blit (DisplaySurface_new sid width height) 0 0 width height pixels)
      else None)"

section \<open>What the damage tells a consumer\<close>

definition mirror_ok :: "surface_mirror \<Rightarrow> bool" where
  "mirror_ok m \<longleftrightarrow> (\<forall>key s. m key = Some s \<longrightarrow> surf_ok s)"

text \<open>
  \<open>carried m m'\<close>: outside its damage, a surface of \<open>m'\<close> is a surface of \<open>m\<close> of the same size and
  with the same pixels, and a surface that is not dirty is one of \<open>m\<close> with all its pixels.
\<close>

definition same_at :: "display_surface \<Rightarrow> display_surface \<Rightarrow> nat \<Rightarrow> nat \<Rightarrow> bool" where
  "same_at s s' x y \<longleftrightarrow> ds_width s = ds_width s' \<and> ds_height s = ds_height s' \<and> px s x y = px s' x y"

definition carried :: "surface_mirror \<Rightarrow> surface_mirror \<Rightarrow> bool" where
  "carried m m' \<longleftrightarrow> (\<forall>key s'. m' key = Some s' \<longrightarrow> (\<forall>x < sw s'. \<forall>y < sh s'.
     ((x, y) \<notin> damaged s' \<longrightarrow> (\<exists>s. m key = Some s \<and> same_at s s' x y \<and> (x, y) \<notin> damaged s))
     \<and> (\<not> ds_dirty s' \<longrightarrow> (\<exists>s. m key = Some s \<and> same_at s s' x y \<and> \<not> ds_dirty s))))"

lemma carried_refl: "carried m m"
  by (auto simp: carried_def same_at_def)

lemma carriedI:
  assumes "\<And>key s' x y. m' key = Some s' \<Longrightarrow> x < sw s' \<Longrightarrow> y < sh s' \<Longrightarrow> (x, y) \<notin> damaged s'
      \<Longrightarrow> \<exists>s. m key = Some s \<and> same_at s s' x y \<and> (x, y) \<notin> damaged s"
    and "\<And>key s' x y. m' key = Some s' \<Longrightarrow> x < sw s' \<Longrightarrow> y < sh s' \<Longrightarrow> \<not> ds_dirty s'
      \<Longrightarrow> \<exists>s. m key = Some s \<and> same_at s s' x y \<and> \<not> ds_dirty s"
  shows "carried m m'"
  using assms unfolding carried_def by blast

lemma carriedD:
  assumes "carried m m'" and "m' key = Some s'" and "x < sw s'" and "y < sh s'"
  shows "(x, y) \<notin> damaged s' \<Longrightarrow> \<exists>s. m key = Some s \<and> same_at s s' x y \<and> (x, y) \<notin> damaged s"
    and "\<not> ds_dirty s' \<Longrightarrow> \<exists>s. m key = Some s \<and> same_at s s' x y \<and> \<not> ds_dirty s"
  using assms unfolding carried_def by blast+

lemma same_at_trans: "same_at s s1 x y \<Longrightarrow> same_at s1 s2 x y \<Longrightarrow> same_at s s2 x y"
  by (simp add: same_at_def)

lemma carried_trans:
  assumes "carried m m1" and "carried m1 m2"
  shows "carried m m2"
proof (rule carriedI)
  fix key s2 x y
  assume k: "m2 key = Some s2" and x: "x < sw s2" "y < sh s2" and "(x, y) \<notin> damaged s2"
  with carriedD(1) [OF assms(2) k x] obtain s1 where
    s1: "m1 key = Some s1" "same_at s1 s2 x y" "(x, y) \<notin> damaged s1" by blast
  then have "x < sw s1" "y < sh s1" using x by (simp_all add: same_at_def)
  from carriedD(1) [OF assms(1) s1(1) this s1(3)] obtain s where
    "m key = Some s" "same_at s s1 x y" "(x, y) \<notin> damaged s" by blast
  then show "\<exists>s. m key = Some s \<and> same_at s s2 x y \<and> (x, y) \<notin> damaged s" using same_at_trans s1(2) by blast
next
  fix key s2 x y
  assume k: "m2 key = Some s2" and x: "x < sw s2" "y < sh s2" and "\<not> ds_dirty s2"
  with carriedD(2) [OF assms(2) k x] obtain s1 where
    s1: "m1 key = Some s1" "same_at s1 s2 x y" "\<not> ds_dirty s1" by blast
  then have "x < sw s1" "y < sh s1" using x by (simp_all add: same_at_def)
  from carriedD(2) [OF assms(1) s1(1) this s1(3)] obtain s where
    "m key = Some s" "same_at s s1 x y" "\<not> ds_dirty s" by blast
  then show "\<exists>s. m key = Some s \<and> same_at s s2 x y \<and> \<not> ds_dirty s" using same_at_trans s1(2) by blast
qed

lemma logged_same:
  assumes "logged s s'" and "x < sw s'" and "y < sh s'" and "(x, y) \<notin> damaged s' \<or> \<not> ds_dirty s'"
  shows "same_at s s' x y"
proof -
  from assms(1) have sz: "ds_width s = ds_width s'" "ds_height s = ds_height s'"
    and ch: "\<forall>x < sw s. \<forall>y < sh s. px s' x y \<noteq> px s x y \<longrightarrow> (x, y) \<in> damaged s' \<and> ds_dirty s'"
    by (simp_all add: logged_def)
  have "px s' x y = px s x y"
  proof (rule ccontr)
    assume "px s' x y \<noteq> px s x y"
    with ch [rule_format, of x y] assms(2-4) sz show False by simp
  qed
  with sz show ?thesis by (simp add: same_at_def)
qed

lemma carried_logged:
  assumes "m key = Some s" and "logged s s'"
  shows "carried m (m(key \<mapsto> s'))"
proof (rule carriedI)
  show "\<exists>s. m k = Some s \<and> same_at s s1 x y \<and> (x, y) \<notin> damaged s"
    if "(m(key \<mapsto> s')) k = Some s1" "x < sw s1" "y < sh s1" "(x, y) \<notin> damaged s1" for k s1 x y
    using assms that logged_same [OF assms(2), of x y]
    by (cases "k = key") (auto simp: logged_def same_at_def)
  show "\<exists>s. m k = Some s \<and> same_at s s1 x y \<and> \<not> ds_dirty s"
    if "(m(key \<mapsto> s')) k = Some s1" "x < sw s1" "y < sh s1" "\<not> ds_dirty s1" for k s1 x y
    using assms that logged_same [OF assms(2), of x y]
    by (cases "k = key") (auto simp: logged_def same_at_def)
qed

text \<open>A new surface is damaged as a whole.\<close>

lemma damaged_full:
  assumes "ds_damage s = DamageRegion_full (ds_width s) (ds_height s)" and "x < sw s" and "y < sh s"
  shows "(x, y) \<in> damaged s"
proof -
  have "nat_box (0, 0, ds_width s, ds_height s) \<subseteq> damaged s"
    using damage_of_add [of "s\<lparr>ds_damage := DamageRegion_new\<rparr>" 0 0 "ds_width s" "ds_height s"] assms(1)
    by (simp add: add_damage_def DamageRegion_full_def damaged_def)
  then show ?thesis using assms(2,3) by (auto simp: nat_box_def)
qed

lemma region_ok_full: "region_ok (DamageRegion_full w h)"
  unfolding DamageRegion_full_def using DamageRegion_add_spec [OF region_ok_new] by blast

lemma DisplaySurface_new_ok: "surf_ok (DisplaySurface_new i w h)"
  by (auto simp: DisplaySurface_new_def surf_ok_def Let_def region_ok_full MAX_SURFACE_DIMENSION_def
      MAX_IMAGE_DIMENSION_def length_concat sum_list_replicate not_le min_def word_le_nat_alt word_less_nat_alt)

text \<open>What every event does: surfaces are replaced by logged ones, or by new ones.\<close>

lemma carried_new:
  assumes "bounds s' \<subseteq> damaged s'" and "ds_dirty s'"
  shows "carried m (m(key \<mapsto> s'))"
proof (rule carriedI)
  show "\<exists>s. m k = Some s \<and> same_at s s1 x y \<and> (x, y) \<notin> damaged s"
    if "(m(key \<mapsto> s')) k = Some s1" "x < sw s1" "y < sh s1" "(x, y) \<notin> damaged s1" for k s1 x y
    using assms that by (cases "k = key") (auto simp: bounds_def same_at_def)
  show "\<exists>s. m k = Some s \<and> same_at s s1 x y \<and> \<not> ds_dirty s"
    if "(m(key \<mapsto> s')) k = Some s1" "x < sw s1" "y < sh s1" "\<not> ds_dirty s1" for k s1 x y
    using assms that by (cases "k = key") (auto simp: same_at_def)
qed

lemma new_all_damaged:
  "bounds (DisplaySurface_new i w h) \<subseteq> damaged (DisplaySurface_new i w h)" "ds_dirty (DisplaySurface_new i w h)"
proof -
  have "ds_damage (DisplaySurface_new i w h)
      = DamageRegion_full (ds_width (DisplaySurface_new i w h)) (ds_height (DisplaySurface_new i w h))"
    by (simp add: DisplaySurface_new_def Let_def)
  then show "bounds (DisplaySurface_new i w h) \<subseteq> damaged (DisplaySurface_new i w h)"
    using damaged_full by (auto simp: bounds_def)
qed (simp add: DisplaySurface_new_def Let_def)

lemma bounds_logged: "logged s s' \<Longrightarrow> bounds s \<subseteq> damaged s \<Longrightarrow> bounds s' \<subseteq> damaged s'"
  by (auto simp: logged_def bounds_def)

lemma mirror_ok_upd: "mirror_ok m \<Longrightarrow> surf_ok s \<Longrightarrow> mirror_ok (m(key \<mapsto> s))"
  by (auto simp: mirror_ok_def)

definition step_ok :: "surface_mirror \<Rightarrow> (draw_outcome \<times> surface_mirror) option \<Rightarrow> bool" where
  "step_ok m r \<longleftrightarrow> (\<exists>out m'. r = Some (out, m') \<and> mirror_ok m' \<and> carried m m')"

lemma draw_on_step:
  assumes "mirror_ok m" and "\<And>s. surf_ok s \<Longrightarrow> \<exists>s'. draw s = Some s' \<and> logged s s'"
  shows "step_ok m (draw_on m key draw)"
proof (cases "m key")
  case None
  then show ?thesis using assms(1) carried_refl by (auto simp: step_ok_def draw_on_def)
next
  case (Some s)
  with assms obtain s' where "draw s = Some s'" "logged s s'" unfolding mirror_ok_def by blast
  with Some assms(1) carried_logged [of m key s s'] mirror_ok_upd [of m s' key] show ?thesis
    by (auto simp: step_ok_def draw_on_def logged_def)
qed

lemma apply_event_step:
  assumes "mirror_ok m"
  shows "step_ok m (apply_event m e)"
proof (cases e)
  case (SurfaceCreated key w h)
  then show ?thesis
    using assms carried_new [OF new_all_damaged] mirror_ok_upd [OF assms DisplaySurface_new_ok] by (auto simp: step_ok_def)
next
  case (SurfaceDestroyed key)
  have "carried m (m(key := None))" using carried_refl [of m] by (auto simp: carried_def)
  then show ?thesis
    using SurfaceDestroyed assms carried_refl [of m] by (auto simp: step_ok_def mirror_ok_def split: option.splits)
next
  case (ImageReady key l t w h p i)
  show ?thesis
  proof (cases "m key")
    case None
    let ?n = "DisplaySurface_new (snd key) (saturating_add32 l w) (saturating_add32 t h)"
    obtain s' where s': "blit ?n l t w h p = Some s'" "logged ?n s'"
      using blit_spec [OF DisplaySurface_new_ok] by blast
    then have "surf_ok s'" "bounds s' \<subseteq> damaged s'" "ds_dirty s'"
      using bounds_logged [OF s'(2) new_all_damaged(1)] new_all_damaged(2) by (auto simp: logged_def)
    with s'(1) None ImageReady mirror_ok_upd [OF assms] carried_new show ?thesis by (auto simp: step_ok_def)
  next
    case (Some s)
    then have "surf_ok s" using assms unfolding mirror_ok_def by blast
    from blit_spec [OF this] obtain s' where s': "blit s l t w h p = Some s'" "logged s s'" by blast
    with Some ImageReady assms carried_logged [of m key s s'] mirror_ok_upd [of m s' key] show ?thesis
      by (auto simp: step_ok_def logged_def)
  qed
next
  case (ImageReadyChroma key l t w h p c i)
  have "step_ok m (draw_on m key (\<lambda>s. blit_chroma s l t w h p c))"
    by (rule draw_on_step [OF assms]) (use blit_chroma_spec in blast)
  then show ?thesis by (simp add: ImageReadyChroma)
next
  case (ImageReadyAlpha key l t w h p a i)
  have "step_ok m (draw_on m key (\<lambda>s. blit_alpha s l t w h p a))"
    by (rule draw_on_step [OF assms]) (use blit_alpha_spec in blast)
  then show ?thesis by (simp add: ImageReadyAlpha)
next
  case (FillRect key box c clip)
  obtain l t r b cr cg cb ca where e: "box = (l, t, r, b)" "c = (cr, cg, cb, ca)" by (metis prod_cases4)
  have "step_ok m (draw_on m key (\<lambda>s. fill_rect s l t r b (cr, cg, cb, ca) clip))"
    by (rule draw_on_step [OF assms]) (use fill_rect_spec in blast)
  then show ?thesis by (simp add: FillRect e)
next
  case (CopyBits key x y box clip)
  obtain l t r b where e: "box = (l, t, r, b)" by (metis prod_cases4)
  have "step_ok m (draw_on m key (\<lambda>s. copy_bits s x y l t r b clip))"
    by (rule draw_on_step [OF assms]) (use copy_bits_logged in blast)
  then show ?thesis by (simp add: CopyBits e)
next
  case (Invert key box clip)
  obtain l t r b where e: "box = (l, t, r, b)" by (metis prod_cases4)
  have "step_ok m (draw_on m key (\<lambda>s. invert_rect s l t r b clip))"
    by (rule draw_on_step [OF assms]) (use invert_rect_spec in blast)
  then show ?thesis by (simp add: Invert e)
next
  case OtherEvent
  then show ?thesis using assms carried_refl by (auto simp: step_ok_def)
qed

lemma apply_events_carried:
  "mirror_ok m \<Longrightarrow> \<exists>m'. apply_events m es = Some m' \<and> mirror_ok m' \<and> carried m m'"
proof (induction es arbitrary: m)
  case (Cons e es)
  from apply_event_step [OF Cons.prems, of e] obtain out m1 where
    m1: "apply_event m e = Some (out, m1)" "mirror_ok m1" "carried m m1" by (auto simp: step_ok_def)
  from Cons.IH [OF m1(2)] m1 carried_trans [OF m1(3)] show ?case by auto
qed (simp add: carried_refl)

text \<open>C24: No sequence of display events makes the mirror panic, whatever the coordinates, sizes, pixel
  buffers and clips, and every surface stays well-formed. After it, a surface's pixel outside its
  damage region is the pixel the same surface had before, and was not damaged then either; a surface
  that is not marked dirty is one whose pixels are all as before. So a frontend that redraws only the
  damage, or only dirty surfaces, never shows a stale pixel.\<close>

theorem mirror_damage_complete:
  assumes "mirror_ok m"
  shows "\<exists>m'. apply_events m es = Some m' \<and> mirror_ok m'
    \<and> (\<forall>key s' x y. m' key = Some s' \<and> x < sw s' \<and> y < sh s' \<longrightarrow>
        ((x, y) \<notin> damaged s' \<longrightarrow> (\<exists>s. m key = Some s \<and> same_at s s' x y \<and> (x, y) \<notin> damaged s))
        \<and> (\<not> ds_dirty s' \<longrightarrow> (\<exists>s. m key = Some s \<and> same_at s s' x y \<and> \<not> ds_dirty s)))"
  using apply_events_carried [OF assms, of es] unfolding carried_def by blast

theorem mirror_damage_complete_witness:
  "\<exists>m'. apply_events SurfaceMirror_new
      [SurfaceCreated (0, 0) 4 4, FillRect (0, 0) (-1, 0, 2, 9) (1, 2, 3, 255) [], CopyBits (0, 0) 3 3 (0, 0, 9, 9) []] = Some m'
    \<and> mirror_ok m'"
proof -
  have "mirror_ok SurfaceMirror_new" by (simp add: mirror_ok_def SurfaceMirror_new_def)
  from mirror_damage_complete [OF this, of "[SurfaceCreated (0, 0) 4 4,
      FillRect (0, 0) (-1, 0, 2, 9) (1, 2, 3, 255) [], CopyBits (0, 0) 3 3 (0, 0, 9, 9) []]"]
  show ?thesis by blast
qed

end
