(* ===== verification/Draw_Handlers.thy ===== *)
theory Draw_Handlers
  imports Surface_Mirror Draw_Copy
begin

text \<open>
  The draws of the display channel (\<open>shakenfist-spice-renderer/src/channels/display.rs\<close>): the decoding
  of a draw message into what it paints, the reduction of its clip, the crop of a decoded image to its
  source rectangle, and the events a handler emits for the surface mirror. A handler is a function from
  the message's payload to the events; an error ends the channel. Warnings and the verbose log have no
  effect on it and are left out.
\<close>

section \<open>Draws that paint no image\<close>

definition ltrb :: "rect \<Rightarrow> ltrb" where
  "ltrb r = (rc_left r, rc_top r, rc_right r, rc_bottom r)"

definition event_clip :: "draw_base \<Rightarrow> ltrb \<Rightarrow> ltrb list option" where
  "event_clip base dest =
     (case clip_area (db_clip base) dest of
        Whole \<Rightarrow> Some []
      | Rects rects \<Rightarrow> Some rects
      | Nothing \<Rightarrow> None
      | TooComplex sent \<Rightarrow> None)"

definition read_draw_base :: "bytes \<Rightarrow> io_error_kind + (draw_base \<times> bytes)" where
  "read_draw_base payload =
     io_result (decode (bindP DrawBase_read (\<lambda>base. bindP get_remaining (\<lambda>n. bindP (read_bytes n) (\<lambda>body.
       retP (base, body))))) payload)"

datatype fill_outcome =
    FillPaint draw_base rgba bool
  | FillSkipNonOpPut u16
  | FillSkipNoneBrush
  | FillSkipPatternBrush

definition colour_bytes :: "u32 \<Rightarrow> rgba" where
  "colour_bytes c = (ucast (drop_bit 16 c), ucast (drop_bit 8 c), ucast c, 255)"

definition decode_draw_fill :: "bytes \<Rightarrow> io_error_kind + fill_outcome" where
  "decode_draw_fill payload =
     bindE (read_draw_base payload) (\<lambda>(base, body).
     bindE (SpiceFill_read body) (\<lambda>(fill, _).
       Inr (if fill_rop_descriptor fill \<noteq> OP_PUT then FillSkipNonOpPut (fill_rop_descriptor fill)
            else case fill_brush fill of
              Solid color \<Rightarrow>
                FillPaint base (colour_bytes color)
                  (qm_flags (fill_mask fill) \<noteq> 0 \<or> qm_bitmap_offset (fill_mask fill) \<noteq> 0)
            | BrushNone \<Rightarrow> FillSkipNoneBrush
            | Pattern _ _ \<Rightarrow> FillSkipPatternBrush)))"

definition decode_draw_solid_fill :: "bytes \<Rightarrow> io_error_kind + (draw_base \<times> bool)" where
  "decode_draw_solid_fill payload =
     bindE (read_draw_base payload) (\<lambda>(base, body).
     bindE (SpiceBlackness_read body) (\<lambda>b.
       Inr (base, qm_flags (black_mask b) \<noteq> 0 \<or> qm_bitmap_offset (black_mask b) \<noteq> 0)))"

definition max0 :: "i32 \<Rightarrow> u32" where
  "max0 v = (if sint v < 0 then 0 else v)"

definition decode_copy_bits :: "bytes \<Rightarrow> io_error_kind + (draw_base \<times> u32 \<times> u32)" where
  "decode_copy_bits payload =
     bindE (read_draw_base payload) (\<lambda>(base, body).
     bindE (io_result (decode SpicePoint_read body)) (\<lambda>src_pos.
       Inr (base, max0 (pt_x src_pos), max0 (pt_y src_pos))))"

text \<open>The event of a draw whose destination is its bounding box.\<close>

definition emit_clipped :: "draw_base \<Rightarrow> (ltrb \<Rightarrow> ltrb list \<Rightarrow> channel_event) \<Rightarrow> channel_event list" where
  "emit_clipped base event =
     (let rect = ltrb (db_bbox base) in
      case event_clip base rect of None \<Rightarrow> [] | Some clip \<Rightarrow> [event rect clip])"

definition handle_draw_fill :: "u8 \<Rightarrow> bytes \<Rightarrow> io_error_kind + channel_event list" where
  "handle_draw_fill channel_id payload =
     bindE (decode_draw_fill payload) (\<lambda>outcome. Inr (case outcome of
        FillPaint base colour _ \<Rightarrow>
          emit_clipped base (\<lambda>rect clip. FillRect (channel_id, db_surface_id base) rect colour clip)
      | _ \<Rightarrow> []))"

definition handle_draw_solid_fill :: "u8 \<Rightarrow> bytes \<Rightarrow> rgba \<Rightarrow> io_error_kind + channel_event list" where
  "handle_draw_solid_fill channel_id payload colour =
     bindE (decode_draw_solid_fill payload) (\<lambda>(base, _). Inr
       (emit_clipped base (\<lambda>rect clip. FillRect (channel_id, db_surface_id base) rect colour clip)))"

definition handle_draw_blackness :: "u8 \<Rightarrow> bytes \<Rightarrow> io_error_kind + channel_event list" where
  "handle_draw_blackness channel_id payload = handle_draw_solid_fill channel_id payload (0, 0, 0, 255)"

definition handle_draw_whiteness :: "u8 \<Rightarrow> bytes \<Rightarrow> io_error_kind + channel_event list" where
  "handle_draw_whiteness channel_id payload = handle_draw_solid_fill channel_id payload (255, 255, 255, 255)"

definition handle_draw_invers :: "u8 \<Rightarrow> bytes \<Rightarrow> io_error_kind + channel_event list" where
  "handle_draw_invers channel_id payload =
     bindE (decode_draw_solid_fill payload) (\<lambda>(base, _). Inr
       (emit_clipped base (\<lambda>rect clip. Invert (channel_id, db_surface_id base) rect clip)))"

definition handle_copy_bits :: "u8 \<Rightarrow> bytes \<Rightarrow> io_error_kind + channel_event list" where
  "handle_copy_bits channel_id payload =
     bindE (decode_copy_bits payload) (\<lambda>(base, src_x, src_y). Inr
       (emit_clipped base (\<lambda>rect clip. CopyBits (channel_id, db_surface_id base) src_x src_y rect clip)))"

section \<open>Placing a decoded image\<close>

datatype composite_mode = Overwrite | ChromaKey rgba | AlphaBlend u8

definition build_image_event ::
  "composite_mode \<Rightarrow> surface_key \<Rightarrow> u32 \<Rightarrow> u32 \<Rightarrow> u32 \<Rightarrow> u32 \<Rightarrow> bytes \<Rightarrow> u64 \<Rightarrow> channel_event" where
  "build_image_event composite key left tp width height pixels image_id =
     (case composite of
        Overwrite \<Rightarrow> ImageReady key left tp width height pixels image_id
      | ChromaKey chroma \<Rightarrow> ImageReadyChroma key left tp width height pixels chroma image_id
      | AlphaBlend alpha \<Rightarrow> ImageReadyAlpha key left tp width height pixels alpha image_id)"

text \<open>The copy of a \<open>w\<close> by \<open>h\<close> part of an image that is \<open>src_w\<close> wide; \<open>None\<close> is a slice out of range.\<close>

definition sub_image :: "bytes \<Rightarrow> nat \<Rightarrow> nat \<Rightarrow> nat \<Rightarrow> nat \<Rightarrow> nat \<Rightarrow> bytes option" where
  "sub_image pixels src_w x_off y_off w h =
     for_each [0..<h]
       (\<lambda>y buf. case read_slice pixels (((y_off + y) * src_w + x_off) * 4) (w * 4) of
          None \<Rightarrow> None | Some xs \<Rightarrow> write_slice buf (y * w * 4) xs)
       (replicate (w * h * 4) 0)"

definition crop_image :: "ltrb \<Rightarrow> u32 \<times> u32 \<times> bytes \<Rightarrow> (u32 \<times> u32 \<times> bytes) option" where
  "crop_image src_area img =
     (case (src_area, img) of ((src_left, src_top, src_right, src_bottom), (out_width, out_height, out_pixels)) \<Rightarrow>
       let crop_w = (if src_right \<ge> src_left then src_right - src_left else 0);
           crop_h = (if src_bottom \<ge> src_top then src_bottom - src_top else 0) in
       if crop_w > 0 \<and> crop_h > 0
          \<and> (src_left \<noteq> 0 \<or> src_top \<noteq> 0 \<or> crop_w \<noteq> out_width \<or> crop_h \<noteq> out_height)
       then
         let left_px = min (unat src_left) (unat out_width); top_px = min (unat src_top) (unat out_height);
             right_px = min (unat src_right) (unat out_width); bottom_px = min (unat src_bottom) (unat out_height) in
         if right_px > left_px \<and> bottom_px > top_px
         then map_option (\<lambda>cropped. (word_of_nat (right_px - left_px), word_of_nat (bottom_px - top_px), cropped))
                (sub_image out_pixels (unat out_width) left_px top_px (right_px - left_px) (bottom_px - top_px))
         else Some img
       else Some img)"

definition image_event_at ::
  "composite_mode \<Rightarrow> surface_key \<Rightarrow> u32 \<Rightarrow> u32 \<Rightarrow> u32 \<Rightarrow> bytes \<Rightarrow> u64 \<Rightarrow> ltrb \<Rightarrow> channel_event option" where
  "image_event_at composite key dest_left dest_top out_width out_pixels image_id c =
     (case c of (il, it, ir, ib) \<Rightarrow>
       let sub_w = unat (ir - il); sub_h = unat (ib - it) in
       map_option (\<lambda>sub_pixels. build_image_event composite key il it (word_of_nat sub_w) (word_of_nat sub_h) sub_pixels image_id)
         (sub_image out_pixels (unat out_width) (unat (il - dest_left)) (unat (it - dest_top)) sub_w sub_h))"

text \<open>
  The end of \<open>decode_image_and_emit\<close>: crop the image to the draw's source rectangle, place it at the
  draw's box, and emit it whole or in the parts its clip leaves. The image is not scaled to the box.
\<close>

fun emit_parts :: "(ltrb \<Rightarrow> channel_event option) \<Rightarrow> ltrb list \<Rightarrow> channel_event list option" where
  "emit_parts ev [] = Some []"
| "emit_parts ev (c # cs) =
     (case ev c of None \<Rightarrow> None | Some e \<Rightarrow> map_option (\<lambda>es. e # es) (emit_parts ev cs))"

definition emit_image ::
  "composite_mode \<Rightarrow> u8 \<Rightarrow> draw_base \<Rightarrow> rect \<Rightarrow> decompressed_image \<Rightarrow> u64 \<Rightarrow> channel_event list option" where
  "emit_image composite channel_id base src_area img image_id =
     (case crop_image (ltrb src_area) (di_width img, di_height img, di_pixels img) of
        None \<Rightarrow> None
      | Some (out_width, out_height, out_pixels) \<Rightarrow>
          let (dest_left, dest_top, _, _) = ltrb (db_bbox base);
              dest_right = saturating_add32 dest_left out_width;
              dest_bottom = saturating_add32 dest_top out_height;
              key = (channel_id, db_surface_id base) in
          case event_clip base (dest_left, dest_top, dest_right, dest_bottom) of
            None \<Rightarrow> Some []
          | Some clip \<Rightarrow>
              if clip \<noteq> []
              then emit_parts (image_event_at composite key dest_left dest_top out_width out_pixels image_id) clip
              else Some [build_image_event composite key dest_left dest_top out_width out_height out_pixels image_id])"

section \<open>What a clip lets through\<close>

definition clip_allows :: "clip \<Rightarrow> nat \<Rightarrow> nat \<Rightarrow> bool" where
  "clip_allows c x y \<longleftrightarrow> clip_kind c \<noteq> CLIP_RECTS
     \<or> (\<exists>r\<in>set (clip_rects c). sint (rc_left r) \<le> int x \<and> int x < sint (rc_right r)
          \<and> sint (rc_top r) \<le> int y \<and> int y < sint (rc_bottom r))"

lemma nat_box_pixels:
  assumes "x < 2 ^ 32" and "y < 2 ^ 32"
  shows "(x, y) \<in> nat_box b \<longleftrightarrow> (word_of_nat x, word_of_nat y) \<in> box_pixels b"
proof -
  obtain l t r b' where b: "b = (l, t, r, b')" by (metis prod_cases4)
  have "unat (word_of_nat x :: u32) = x" "unat (word_of_nat y :: u32) = y"
    using assms by (simp_all add: unat_of_nat)
  then show ?thesis by (simp add: b nat_box_def box_pixels_def word_le_nat_alt word_less_nat_alt)
qed

lemma wire_pixels_nat:
  assumes "x < 2 ^ 32" and "y < 2 ^ 32"
  shows "(word_of_nat x, word_of_nat y) \<in> wire_pixels r \<longleftrightarrow> sint (rc_left r) \<le> int x \<and> int x < sint (rc_right r)
    \<and> sint (rc_top r) \<le> int y \<and> int y < sint (rc_bottom r)"
proof -
  have "uint (word_of_nat x :: u32) = int x" "uint (word_of_nat y :: u32) = int y"
    using assms by (simp_all add: uint_nat unat_of_nat)
  then show ?thesis by (simp add: wire_pixels_def)
qed

text \<open>At most one of the boxes a clip is reduced to holds a given pixel.\<close>

lemma one_box:
  "sorted_wrt box_before bs \<Longrightarrow> length (filter (\<lambda>b. p \<in> box_pixels b) bs) \<le> 1"
proof (induction bs)
  case (Cons b bs)
  show ?case
  proof (cases "p \<in> box_pixels b")
    case True
    then have "filter (\<lambda>b. p \<in> box_pixels b) bs = []"
      using Cons.prems box_before_disjoint by (fastforce simp: filter_empty_conv)
    then show ?thesis by simp
  next
    case False
    with Cons show ?thesis by simp
  qed
qed simp

lemma event_clip_Some:
  assumes "event_clip base dest = Some clip" and "x < 2 ^ 32" and "y < 2 ^ 32" and d: "(x, y) \<in> nat_box dest"
  shows "passes clip (x, y) = (if clip_allows (db_clip base) x y then 1 else 0)"
proof (cases "clip_area (db_clip base) dest")
  case Whole
  then have "clip_kind (db_clip base) \<noteq> CLIP_RECTS" by (auto simp: clip_area_def split: if_splits option.splits)
  with Whole assms(1) show ?thesis by (simp add: event_clip_def passes_def clip_allows_def)
next
  case (Rects bs)
  then have clip: "clip = bs" using assms(1) by (simp add: event_clip_def)
  note r = clip_area_Rects [OF Rects]
  have k: "clip_kind (db_clip base) = CLIP_RECTS" using Rects by (auto simp: clip_area_def split: if_splits option.splits)
  let ?p = "(word_of_nat x, word_of_nat y) :: u32 \<times> u32"
  have "(\<exists>b\<in>set bs. ?p \<in> box_pixels b) \<longleftrightarrow> (\<exists>w\<in>set (clip_rects (db_clip base)). ?p \<in> wire_pixels w)"
    using r d nat_box_pixels [OF assms(2,3), of dest] by (auto simp: boxes_pixels_def set_eq_iff)
  then have "(\<exists>b\<in>set bs. ?p \<in> box_pixels b) \<longleftrightarrow> clip_allows (db_clip base) x y"
    by (simp add: clip_allows_def k wire_pixels_nat [OF assms(2,3)])
  moreover define k where "k = length (filter (\<lambda>b. ?p \<in> box_pixels b) bs)"
  ultimately have "k \<noteq> 0 \<longleftrightarrow> clip_allows (db_clip base) x y" by (simp add: filter_empty_conv)
  moreover have "k \<le> 1" unfolding k_def using r by (intro one_box) simp
  moreover have "passes clip (x, y) = k"
    using r by (simp add: k_def passes_def clip nat_box_pixels [OF assms(2,3)])
  ultimately show ?thesis by auto
qed (use assms(1) in \<open>simp_all add: event_clip_def\<close>)

lemma event_clip_None:
  assumes "event_clip base dest = None" and "\<And>n. clip_area (db_clip base) dest \<noteq> TooComplex n"
    and "x < 2 ^ 32" and "y < 2 ^ 32" and "(x, y) \<in> nat_box dest"
  shows "\<not> clip_allows (db_clip base) x y"
proof -
  have n: "clip_area (db_clip base) dest = Nothing"
    using assms(1,2) by (auto simp: event_clip_def split: clip_area_result.splits)
  then have k: "clip_kind (db_clip base) = CLIP_RECTS" by (auto simp: clip_area_def split: if_splits)
  from clip_area_Nothing [OF n] assms(5)
  show ?thesis by (auto simp: clip_allows_def k wire_pixels_nat [OF assms(3,4), symmetric] nat_box_pixels [OF assms(3,4)])
qed

section \<open>From a draw message to the pixels\<close>

lemma bounds_u32:
  assumes "x < sw s" and "y < sh s"
  shows "x < 2 ^ 32" and "y < 2 ^ 32"
  using assms u32_lt [of "ds_width s"] u32_lt [of "ds_height s"] by simp_all

lemma draw_one:
  assumes "m key = Some s" and "draw s = Some s'" and "\<And>m. apply_event m e = draw_on m key draw"
  shows "apply_events m [e] = Some (m(key \<mapsto> s'))"
  using assms by (simp add: draw_on_def)

text \<open>
  What an unscaled, unmasked draw over its box does to a surface: pixels of the box the clip lets
  through get a new value, and nothing else changes.
\<close>

definition drawn_box :: "draw_base \<Rightarrow> ltrb \<Rightarrow> (nat \<Rightarrow> nat \<Rightarrow> bytes) \<Rightarrow> display_surface \<Rightarrow> display_surface \<Rightarrow> bool" where
  "drawn_box base dest val s s' \<longleftrightarrow> (\<forall>x < sw s. \<forall>y < sh s. px s' x y =
     (if (x, y) \<in> nat_box dest \<and> clip_allows (db_clip base) x y then val x y else px s x y))"

lemma emit_clipped_drawn:
  assumes m: "m key = Some s"
    and fit: "\<And>n. clip_area (db_clip base) (ltrb (db_bbox base)) \<noteq> TooComplex n"
    and draw: "\<And>clip. \<exists>s'. draw clip s = Some s' \<and> (\<forall>x < sw s. \<forall>y < sh s. px s' x y =
        (if (x, y) \<in> nat_box (ltrb (db_bbox base)) \<and> paints_at (passes clip (x, y)) then val x y else px s x y))"
    and once: "paints_at 1" "\<not> paints_at 0"
    and ev: "\<And>m clip. apply_event m (event (ltrb (db_bbox base)) clip) = draw_on m key (draw clip)"
  shows "\<exists>s'. apply_events m (emit_clipped base event) = Some (m(key \<mapsto> s')) \<and> drawn_box base (ltrb (db_bbox base)) val s s'"
proof (cases "event_clip base (ltrb (db_bbox base))")
  case None
  have "drawn_box base (ltrb (db_bbox base)) val s s"
    using event_clip_None [OF None fit] bounds_u32 unfolding drawn_box_def by auto
  moreover have "apply_events m (emit_clipped base event) = Some (m(key \<mapsto> s))"
    using m by (simp add: emit_clipped_def None fun_upd_idem)
  ultimately show ?thesis by blast
next
  case (Some clip)
  from draw [of clip] obtain s' where s': "draw clip s = Some s'" "\<forall>x < sw s. \<forall>y < sh s. px s' x y =
      (if (x, y) \<in> nat_box (ltrb (db_bbox base)) \<and> paints_at (passes clip (x, y)) then val x y else px s x y)" by blast
  have "px s' x y = (if (x, y) \<in> nat_box (ltrb (db_bbox base)) \<and> clip_allows (db_clip base) x y then val x y else px s x y)"
    if "x < sw s" "y < sh s" for x y
    using s'(2) that event_clip_Some [OF Some bounds_u32 [OF that]] once by auto
  then have "drawn_box base (ltrb (db_bbox base)) val s s'" by (simp add: drawn_box_def)
  moreover have "apply_events m (emit_clipped base event) = Some (m(key \<mapsto> s'))"
    using draw_one [of m key s "draw clip" s' "event (ltrb (db_bbox base)) clip"] m s'(1) ev
    by (simp add: emit_clipped_def Some)
  ultimately show ?thesis by blast
qed

lemma fill_event:
  assumes "m key = Some s" and "surf_ok s"
    and "\<And>n. clip_area (db_clip base) (ltrb (db_bbox base)) \<noteq> TooComplex n"
  shows "\<exists>s'. apply_events m (emit_clipped base (\<lambda>rect clip. FillRect key rect (cr, cg, cb, ca) clip)) = Some (m(key \<mapsto> s'))
    \<and> drawn_box base (ltrb (db_bbox base)) (\<lambda>_ _. [cr, cg, cb, ca]) s s'"
proof -
  obtain l t r b where box: "ltrb (db_bbox base) = (l, t, r, b)" by (metis prod_cases4)
  show ?thesis
  proof (rule emit_clipped_drawn [where m = m and key = key and s = s and draw = "\<lambda>clip s. fill_rect s l t r b (cr, cg, cb, ca) clip" and
        paints_at = "\<lambda>n. n > 0", OF assms(1,3)])
    show "\<exists>s'. fill_rect s l t r b (cr, cg, cb, ca) clip = Some s' \<and> (\<forall>x < sw s. \<forall>y < sh s. px s' x y =
        (if (x, y) \<in> nat_box (ltrb (db_bbox base)) \<and> 0 < passes clip (x, y) then [cr, cg, cb, ca] else px s x y))" for clip
      unfolding box using fill_rect_spec [OF assms(2)] by blast
  qed (simp_all add: box)
qed

lemma invert_event:
  assumes "m key = Some s" and "surf_ok s"
    and "\<And>n. clip_area (db_clip base) (ltrb (db_bbox base)) \<noteq> TooComplex n"
  shows "\<exists>s'. apply_events m (emit_clipped base (\<lambda>rect clip. Invert key rect clip)) = Some (m(key \<mapsto> s'))
    \<and> drawn_box base (ltrb (db_bbox base)) (\<lambda>x y. inverted (px s x y)) s s'"
proof -
  obtain l t r b where box: "ltrb (db_bbox base) = (l, t, r, b)" by (metis prod_cases4)
  show ?thesis
  proof (rule emit_clipped_drawn [where m = m and key = key and s = s and draw = "\<lambda>clip s. invert_rect s l t r b clip" and paints_at = odd, OF assms(1,3)])
    show "\<exists>s'. invert_rect s l t r b clip = Some s' \<and> (\<forall>x < sw s. \<forall>y < sh s. px s' x y =
        (if (x, y) \<in> nat_box (ltrb (db_bbox base)) \<and> odd (passes clip (x, y)) then inverted (px s x y) else px s x y))" for clip
      unfolding box using invert_rect_spec [OF assms(2)] by blast
  qed (simp_all add: box)
qed

text \<open>Parts of an image.\<close>

lemma sub_image_spec:
  assumes "length pixels = 4 * (src_w * src_h)" and "x_off + w \<le> src_w" and "y_off + h \<le> src_h"
  shows "\<exists>sub. sub_image pixels src_w x_off y_off w h = Some sub \<and> length sub = 4 * (w * h)
    \<and> (\<forall>x<w. \<forall>y<h. pix (y * w + x) sub = pix ((y_off + y) * src_w + (x_off + x)) pixels)"
proof -
  define k where "k q = (y_off + q) * src_w + x_off" for q
  have fit: "k q + w \<le> src_w * src_h" if "q < h" for q
    using row_fits [of x_off w src_w "y_off + q" src_h] assms that by (simp add: k_def)
  have e: "((y_off + y) * src_w + x_off) * 4 = 4 * k y" "y * w * 4 = y * (w * 4)" "w * h * 4 = w * 4 * h" for y
    by (simp_all add: k_def)
  from snapshot_rows [of h k w "src_w * src_h" pixels, OF fit assms(1)] show ?thesis
    unfolding sub_image_def e by (auto simp: k_def add.assoc)
qed

text \<open>The part of the source image a draw's source rectangle selects: its corner and its size.\<close>

definition crop_area :: "ltrb \<Rightarrow> u32 \<Rightarrow> u32 \<Rightarrow> nat \<times> nat \<times> nat \<times> nat" where
  "crop_area src_area w h = (case src_area of (l, t, r, b) \<Rightarrow>
     let l' = min (unat l) (unat w); t' = min (unat t) (unat h);
         r' = min (unat r) (unat w); b' = min (unat b) (unat h) in
     if l' < r' \<and> t' < b' then (l', t', r' - l', b' - t') else (0, 0, unat w, unat h))"

lemma crop_image_spec:
  assumes len: "length p = 4 * (unat w * unat h)"
  shows "\<exists>w' h' p' a c. crop_image src (w, h, p) = Some (w', h', p') \<and> crop_area src w h = (a, c, unat w', unat h')
    \<and> length p' = 4 * (unat w' * unat h')
    \<and> (\<forall>x<unat w'. \<forall>y<unat h'. pix (y * unat w' + x) p' = pix ((c + y) * unat w + (a + x)) p)"
proof -
  obtain l t r b where src: "src = (l, t, r, b)" by (metis prod_cases4)
  define l' t' r' b' where "l' = min (unat l) (unat w)" and "t' = min (unat t) (unat h)"
    and "r' = min (unat r) (unat w)" and "b' = min (unat b) (unat h)"
  note d = l'_def t'_def r'_def b'_def
  show ?thesis
  proof (cases "l' < r' \<and> t' < b'")
    case False
    then have "crop_image src (w, h, p) = Some (w, h, p)" "crop_area src w h = (0, 0, unat w, unat h)"
      unfolding crop_image_def crop_area_def src prod.case Let_def d [symmetric] by auto
    with len show ?thesis by auto
  next
    case True
    then have lt: "unat l < unat r" "unat t < unat b" by (auto simp: d min_def split: if_splits)
    then have cw: "unat (r - l) = unat r - unat l" "unat (b - t) = unat b - unat t" "l \<le> r" "t \<le> b"
      by (simp_all add: unat_sub_if' word_le_nat_alt)
    then have pos: "r - l > 0" "b - t > 0" using lt by (simp_all add: word_less_nat_alt)
    have area: "crop_area src w h = (l', t', r' - l', b' - t')" using True by (simp add: crop_area_def src Let_def d)
    show ?thesis
    proof (cases "l \<noteq> 0 \<or> t \<noteq> 0 \<or> r - l \<noteq> w \<or> b - t \<noteq> h")
      case False
      then have z: "l = 0" "t = 0" "r = w" "b = h" by auto
      then have "crop_image src (w, h, p) = Some (w, h, p)" by (simp add: crop_image_def src Let_def)
      moreover have "l' = 0" "t' = 0" "r' = unat w" "b' = unat h" using z by (simp_all add: d)
      ultimately show ?thesis using len area by auto
    next
      case ne: True
      have "l' + (r' - l') \<le> unat w" "t' + (b' - t') \<le> unat h" using True by (simp_all add: d)
      from sub_image_spec [OF len this] obtain p' where p': "sub_image p (unat w) l' t' (r' - l') (b' - t') = Some p'" "length p' = 4 * ((r' - l') * (b' - t'))"
          "\<forall>x<r' - l'. \<forall>y<b' - t'. pix (y * (r' - l') + x) p' = pix ((t' + y) * unat w + (l' + x)) p" by blast
      have "r' - l' < 4294967296" "b' - t' < 4294967296"
        using u32_lt [of w] u32_lt [of h] by (simp_all add: d)
      then have sz: "unat (word_of_nat (r' - l') :: u32) = r' - l'" "unat (word_of_nat (b' - t') :: u32) = b' - t'"
        by (simp_all add: unat_of_nat)
      have "crop_image src (w, h, p) = Some (word_of_nat (r' - l'), word_of_nat (b' - t'), p')"
        using ne True p'(1) pos cw(3,4) unfolding crop_image_def src prod.case Let_def d [symmetric] by auto
      then show ?thesis using p' area
        by (intro exI [of _ "word_of_nat (r' - l')"] exI [of _ "word_of_nat (b' - t')"] exI [of _ p'] exI [of _ l'] exI [of _ t'])
          (simp only: sz simp_thms)
    qed
  qed
qed

text \<open>Painting an image part by part paints, in every part, the image's own pixels.\<close>

definition image_at :: "nat \<Rightarrow> nat \<Rightarrow> u32 \<Rightarrow> bytes \<Rightarrow> nat \<Rightarrow> nat \<Rightarrow> bytes" where
  "image_at dl dt w p x y = pix ((y - dt) * unat w + (x - dl)) p"

lemma visible_box:
  assumes "l \<le> r" and "t \<le> b"
  shows "(x, y) \<in> visible s l t (r - l) (b - t) \<longleftrightarrow> (x, y) \<in> nat_box (l, t, r, b) \<and> x < sw s \<and> y < sh s"
  using assms by (auto simp: visible_def nat_box_def unat_sub_if' word_le_nat_alt)

lemma part_event:
  assumes ok: "surf_ok s" and m: "m key = Some s" and len: "length p = 4 * (unat w * unat h)"
    and c: "dl \<le> il" "il < ir" "dt \<le> it" "it < ib"
      "unat ir - unat dl \<le> unat w" "unat ib - unat dt \<le> unat h"
  shows "\<exists>e s'. image_event_at Overwrite key dl dt w p i (il, it, ir, ib) = Some e \<and> apply_event m e = Some (Drawn key, m(key \<mapsto> s'))
    \<and> surf_ok s' \<and> ds_width s' = ds_width s \<and> ds_height s' = ds_height s
    \<and> (\<forall>x < sw s. \<forall>y < sh s. px s' x y = (if (x, y) \<in> nat_box (il, it, ir, ib) then image_at (unat dl) (unat dt) w p x y else px s x y))"
proof -
  have le: "unat dl \<le> unat il" "unat il < unat ir" "unat dt \<le> unat it" "unat it < unat ib"
    using c by (simp_all add: word_le_nat_alt word_less_nat_alt)
  then have u: "unat (il - dl) = unat il - unat dl" "unat (it - dt) = unat it - unat dt"
      "unat (ir - il) = unat ir - unat il" "unat (ib - it) = unat ib - unat it" by (simp_all add: unat_sub_if')
  have "unat (il - dl) + unat (ir - il) \<le> unat w" "unat (it - dt) + unat (ib - it) \<le> unat h"
    using le c(5,6) unfolding u by linarith+
  from sub_image_spec [OF len this] obtain sub where
    sub: "sub_image p (unat w) (unat (il - dl)) (unat (it - dt)) (unat (ir - il)) (unat (ib - it)) = Some sub"
      "length sub = 4 * (unat (ir - il) * unat (ib - it))"
      "\<forall>x<unat (ir - il). \<forall>y<unat (ib - it). pix (y * unat (ir - il) + x) sub
        = pix ((unat (it - dt) + y) * unat w + (unat (il - dl) + x)) p" by blast
  from blit_spec [OF ok, of il it "ir - il" "ib - it" sub] obtain s' where
    s': "blit s il it (ir - il) (ib - it) sub = Some s'" "logged s s'"
    and px: "\<forall>x < sw s. \<forall>y < sh s. px s' x y = (if (x, y) \<in> visible s il it (ir - il) (ib - it)
            \<and> (y - unat it) * (unat (ir - il) * 4) + min (unat (ir - il)) (sw s - unat il) * 4 \<le> length sub
         then source_pixel sub (ir - il) (x - unat il) (y - unat it) else px s x y)" by blast
  have "px s' x y = (if (x, y) \<in> nat_box (il, it, ir, ib) then image_at (unat dl) (unat dt) w p x y else px s x y)"
    if xy: "x < sw s" "y < sh s" for x y
  proof (cases "(x, y) \<in> nat_box (il, it, ir, ib)")
    case True
    then have b: "x - unat il < unat (ir - il)" "y - unat it < unat (ib - it)" and ge: "unat il \<le> x" "unat it \<le> y"
      by (auto simp: nat_box_def u)
    have "(y - unat it) * unat (ir - il) + unat (ir - il) \<le> unat (ir - il) * unat (ib - it)"
      using row_fits [of 0 "unat (ir - il)" "unat (ir - il)" "y - unat it" "unat (ib - it)"] b by simp
    then have fit: "(y - unat it) * (unat (ir - il) * 4) + min (unat (ir - il)) (sw s - unat il) * 4 \<le> length sub"
      using sub(2) by simp
    have e: "unat (it - dt) + (y - unat it) = y - unat dt" "unat (il - dl) + (x - unat il) = x - unat dl"
      using ge le by (simp_all add: u)
    have "source_pixel sub (ir - il) (x - unat il) (y - unat it) = image_at (unat dl) (unat dt) w p x y"
      using sub(3) [rule_format, OF b] unfolding source_pixel_def image_at_def e .
    moreover have "(x, y) \<in> visible s il it (ir - il) (ib - it)"
      using True xy visible_box [of il ir it ib x y s] c by simp
    ultimately show ?thesis using px [rule_format, OF xy] True fit by simp
  next
    case False
    then have "(x, y) \<notin> visible s il it (ir - il) (ib - it)" using visible_box [of il ir it ib x y s] c by simp
    then show ?thesis using px [rule_format, OF xy] False by simp
  qed
  moreover have "image_event_at Overwrite key dl dt w p i (il, it, ir, ib) = Some (ImageReady key il it (ir - il) (ib - it) sub i)"
    using sub(1) by (simp add: image_event_at_def build_image_event_def)
  moreover have "apply_event m (ImageReady key il it (ir - il) (ib - it) sub i) = Some (Drawn key, m(key \<mapsto> s'))"
    using m s'(1) by simp
  ultimately show ?thesis using s'(2) unfolding logged_def by blast
qed

definition part_of :: "u32 \<Rightarrow> u32 \<Rightarrow> u32 \<Rightarrow> u32 \<Rightarrow> ltrb \<Rightarrow> bool" where
  "part_of dl dt w h c = (case c of (il, it, ir, ib) \<Rightarrow> dl \<le> il \<and> il < ir \<and> dt \<le> it \<and> it < ib
     \<and> unat ir - unat dl \<le> unat w \<and> unat ib - unat dt \<le> unat h)"

lemma parts_events:
  assumes "surf_ok s" and "m key = Some s" and len: "length p = 4 * (unat w * unat h)" and "\<forall>c\<in>set clip. part_of dl dt w h c"
  shows "\<exists>es s'. emit_parts (image_event_at Overwrite key dl dt w p i) clip = Some es \<and> apply_events m es = Some (m(key \<mapsto> s'))
    \<and> (\<forall>x < sw s. \<forall>y < sh s. px s' x y =
        (if \<exists>c\<in>set clip. (x, y) \<in> nat_box c then image_at (unat dl) (unat dt) w p x y else px s x y))"
  using assms(1,2,4)
proof (induction clip arbitrary: m s)
  case Nil
  then have "apply_events m [] = Some (m(key \<mapsto> s))" by (simp add: map_upd_triv)
  then show ?case by (intro exI [of _ "[]"] exI [of _ s]) simp
next
  case (Cons c clip)
  obtain il it ir ib where c: "c = (il, it, ir, ib)" by (metis prod_cases4)
  have "part_of dl dt w h c" using Cons.prems(3) by simp
  then have pc: "dl \<le> il" "il < ir" "dt \<le> it" "it < ib" "unat ir - unat dl \<le> unat w" "unat ib - unat dt \<le> unat h"
    by (simp_all add: part_of_def c)
  from part_event [of s m key, OF Cons.prems(1,2) len pc, of i] obtain e s1 where
    e: "image_event_at Overwrite key dl dt w p i c = Some e" "apply_event m e = Some (Drawn key, m(key \<mapsto> s1))"
      "surf_ok s1" "ds_width s1 = ds_width s" "ds_height s1 = ds_height s"
    and px1: "\<forall>x < sw s. \<forall>y < sh s. px s1 x y = (if (x, y) \<in> nat_box c then image_at (unat dl) (unat dt) w p x y else px s x y)"
    unfolding c by blast
  have "(m(key \<mapsto> s1)) key = Some s1" "\<forall>c\<in>set clip. part_of dl dt w h c" using Cons.prems(3) by simp_all
  from Cons.IH [of s1 "m(key \<mapsto> s1)", OF e(3) this] obtain es s2 where
    es: "emit_parts (image_event_at Overwrite key dl dt w p i) clip = Some es" "apply_events (m(key \<mapsto> s1)) es = Some (m(key \<mapsto> s2))"
    and px2: "\<forall>x < sw s1. \<forall>y < sh s1. px s2 x y =
        (if \<exists>c\<in>set clip. (x, y) \<in> nat_box c then image_at (unat dl) (unat dt) w p x y else px s1 x y)"
    unfolding fun_upd_upd by blast
  have "emit_parts (image_event_at Overwrite key dl dt w p i) (c # clip) = Some (e # es)"
    "apply_events m (e # es) = Some (m(key \<mapsto> s2))" using e(1,2) es by simp_all
  moreover have "\<forall>x < sw s. \<forall>y < sh s. px s2 x y =
      (if \<exists>c\<in>set (c # clip). (x, y) \<in> nat_box c then image_at (unat dl) (unat dt) w p x y else px s x y)"
    using px1 px2 e(4,5) by simp
  ultimately show ?case by blast
qed

lemma event_clip_boxes:
  assumes "event_clip base (l, t, r, b) = Some clip" and "c \<in> set clip"
  shows "case c of (il, it, ir, ib) \<Rightarrow> l \<le> il \<and> il < ir \<and> ir \<le> r \<and> t \<le> it \<and> it < ib \<and> ib \<le> b"
proof -
  have "clip_area (db_clip base) (l, t, r, b) = Rects clip"
    using assms by (auto simp: event_clip_def split: clip_area_result.splits)
  from clip_area_Rects [OF this] assms(2) show ?thesis by (auto simp: box_ok_def box_in_def)
qed

text \<open>The destination of an image that is not scaled.\<close>

definition image_dest :: "draw_base \<Rightarrow> u32 \<Rightarrow> u32 \<Rightarrow> ltrb" where
  "image_dest base w h = (rc_left (db_bbox base), rc_top (db_bbox base),
     saturating_add32 (rc_left (db_bbox base)) w, saturating_add32 (rc_top (db_bbox base)) h)"

lemma saturating_add32_le: "unat (saturating_add32 a b) \<le> unat a + unat b"
  by (auto simp: saturating_add32_def unat_word_ariths unsigned_minus_1_eq_mask mask_eq_exp_minus_1)

lemma saturating_add32_gt: "x < 16384 \<Longrightarrow> x < unat (saturating_add32 a b) \<longleftrightarrow> x < unat a + unat b"
  by (auto simp: saturating_add32_def unat_word_ariths unsigned_minus_1_eq_mask mask_eq_exp_minus_1)

lemma visible_dest:
  assumes "surf_ok s" and "x < sw s" and "y < sh s"
  shows "(x, y) \<in> visible s l t w h \<longleftrightarrow> (x, y) \<in> nat_box (l, t, saturating_add32 l w, saturating_add32 t h)"
  using assms saturating_add32_gt [of x l w] saturating_add32_gt [of y t h]
  by (auto simp: visible_def nat_box_def surf_ok_def)

lemma whole_event:
  assumes ok: "surf_ok s" and m: "m key = Some s" and len: "length p = 4 * (unat w * unat h)"
  shows "\<exists>s'. apply_events m [ImageReady key l t w h p i] = Some (m(key \<mapsto> s'))
    \<and> (\<forall>x < sw s. \<forall>y < sh s. px s' x y = (if (x, y) \<in> nat_box (l, t, saturating_add32 l w, saturating_add32 t h)
        then image_at (unat l) (unat t) w p x y else px s x y))"
proof -
  from blit_spec [OF ok, of l t w h p] obtain s' where s': "blit s l t w h p = Some s'"
    and px: "\<forall>x < sw s. \<forall>y < sh s. px s' x y = (if (x, y) \<in> visible s l t w h
            \<and> (y - unat t) * (unat w * 4) + min (unat w) (sw s - unat l) * 4 \<le> length p
         then source_pixel p w (x - unat l) (y - unat t) else px s x y)" by blast
  have "(y - unat t) * (unat w * 4) + min (unat w) (sw s - unat l) * 4 \<le> length p"
    if "(x, y) \<in> visible s l t w h" for x y
  proof -
    have "y - unat t < unat h" using that by (auto simp: visible_def)
    from row_fits [of 0 "unat w" "unat w", OF _ this] len show ?thesis by simp
  qed
  then have "px s' x y = (if (x, y) \<in> nat_box (l, t, saturating_add32 l w, saturating_add32 t h)
        then image_at (unat l) (unat t) w p x y else px s x y)" if "x < sw s" "y < sh s" for x y
    using px [rule_format, OF that] visible_dest [OF ok that, of l t w h]
    by (cases "(x, y) \<in> visible s l t w h") (simp_all add: source_pixel_def image_at_def)
  then show ?thesis using m s' by auto
qed

lemma event_clip_parts:
  assumes "event_clip base (image_dest base w h) = Some clip" and "c \<in> set clip"
  shows "part_of (rc_left (db_bbox base)) (rc_top (db_bbox base)) w h c"
    and "nat_box c \<subseteq> nat_box (image_dest base w h)"
  using event_clip_boxes [OF assms [unfolded image_dest_def]]
    saturating_add32_le [of "rc_left (db_bbox base)" w] saturating_add32_le [of "rc_top (db_bbox base)" h]
  by (auto simp: part_of_def image_dest_def nat_box_def word_le_nat_alt)

definition image_events :: "surface_key \<Rightarrow> u32 \<Rightarrow> u32 \<Rightarrow> u32 \<Rightarrow> u32 \<Rightarrow> u8 list \<Rightarrow> u64 \<Rightarrow> ltrb list \<Rightarrow> channel_event list option" where
  "image_events key l t w h p i clip = (if clip \<noteq> [] then emit_parts (image_event_at Overwrite key l t w p i) clip
     else Some [ImageReady key l t w h p i])"

lemma image_events_drawn:
  assumes ok: "surf_ok s" and m: "m key = Some s" and len: "length p = 4 * (unat w * unat h)"
    and clip: "event_clip base (image_dest base w h) = Some clip"
    and l: "l = rc_left (db_bbox base)" and t: "t = rc_top (db_bbox base)"
  shows "\<exists>es s'. image_events key l t w h p i clip = Some es \<and> apply_events m es = Some (m(key \<mapsto> s'))
    \<and> (\<forall>x < sw s. \<forall>y < sh s. px s' x y = (if (x, y) \<in> nat_box (image_dest base w h) \<and> passes clip (x, y) > 0
        then image_at (unat l) (unat t) w p x y else px s x y))"
proof (cases "clip = []")
  case True
  from whole_event [of s m key, OF ok m len, of l t i] obtain s' where
    s': "apply_events m [ImageReady key l t w h p i] = Some (m(key \<mapsto> s'))"
      "\<forall>x < sw s. \<forall>y < sh s. px s' x y = (if (x, y) \<in> nat_box (image_dest base w h) then image_at (unat l) (unat t) w p x y else px s x y)"
    unfolding image_dest_def l t by blast
  have pos: "passes clip q > 0 \<longleftrightarrow> True" for q using True by (simp add: passes_def)
  have "image_events key l t w h p i clip = Some [ImageReady key l t w h p i]"
    using True by (simp add: image_events_def)
  then show ?thesis using s' unfolding pos HOL.simp_thms by blast
next
  case False
  have "\<forall>c\<in>set clip. part_of l t w h c" using event_clip_parts(1) [OF clip] unfolding l t by blast
  from parts_events [of s m key, OF ok m len this, of i] obtain es s' where
    es: "emit_parts (image_event_at Overwrite key l t w p i) clip = Some es" "apply_events m es = Some (m(key \<mapsto> s'))"
    and px: "\<forall>x < sw s. \<forall>y < sh s. px s' x y = (if \<exists>c\<in>set clip. (x, y) \<in> nat_box c then image_at (unat l) (unat t) w p x y else px s x y)"
    by blast
  have in_clip: "(\<exists>c\<in>set clip. q \<in> nat_box c) \<longleftrightarrow> q \<in> nat_box (image_dest base w h) \<and> passes clip q > 0" for q
  proof -
    have "passes clip q > 0 \<longleftrightarrow> (\<exists>c\<in>set clip. q \<in> nat_box c)" using False by (simp add: passes_def filter_empty_conv)
    then show ?thesis using event_clip_parts(2) [OF clip] by blast
  qed
  have "image_events key l t w h p i clip = Some es" using False es(1) by (simp add: image_events_def)
  then show ?thesis using es(2) px unfolding in_clip by blast
qed

lemma emit_image_drawn:
  assumes ok: "surf_ok s" and m: "m (ch, db_surface_id base) = Some s"
    and len: "length (di_pixels img) = 4 * (unat (di_width img) * unat (di_height img))"
    and crop: "crop_area (ltrb src_area) (di_width img) (di_height img) = (a, c, unat w, unat h)"
    and fit: "\<And>n. clip_area (db_clip base) (image_dest base w h) \<noteq> TooComplex n"
  shows "\<exists>es s'. emit_image Overwrite ch base src_area img i = Some es
    \<and> apply_events m es = Some (m((ch, db_surface_id base) \<mapsto> s'))
    \<and> drawn_box base (image_dest base w h)
        (\<lambda>x y. pix ((c + (y - unat (rc_top (db_bbox base)))) * unat (di_width img)
                 + (a + (x - unat (rc_left (db_bbox base))))) (di_pixels img)) s s'"
proof -
  let ?l = "rc_left (db_bbox base)" and ?t = "rc_top (db_bbox base)" and ?key = "(ch, db_surface_id base)"
  let ?dest = "image_dest base w h"
  define val where "val x y = pix ((c + (y - unat ?t)) * unat (di_width img) + (a + (x - unat ?l))) (di_pixels img)" for x y
  from crop_image_spec [OF len, of "ltrb src_area"] crop obtain w' h' p where
    p: "crop_image (ltrb src_area) (di_width img, di_height img, di_pixels img) = Some (w', h', p)"
      "unat w' = unat w" "unat h' = unat h" "length p = 4 * (unat w' * unat h')"
      "\<forall>x<unat w'. \<forall>y<unat h'. pix (y * unat w' + x) p = pix ((c + y) * unat (di_width img) + (a + x)) (di_pixels img)"
    by auto
  have wh: "w' = w" "h' = h" using p(2,3) by (simp_all add: word_unat_eq_iff)
  have val: "image_at (unat ?l) (unat ?t) w p x y = val x y" if "(x, y) \<in> nat_box ?dest" for x y
  proof -
    have "x - unat ?l < unat w'" "y - unat ?t < unat h'"
      using that saturating_add32_le [of ?l w] saturating_add32_le [of ?t h] wh by (auto simp: nat_box_def image_dest_def)
    from p(5) [rule_format, OF this] show ?thesis by (simp add: image_at_def val_def wh)
  qed
  have emit: "emit_image Overwrite ch base src_area img i = (case event_clip base ?dest of
      None \<Rightarrow> Some [] | Some clip \<Rightarrow> image_events ?key ?l ?t w h p i clip)"
    unfolding emit_image_def p(1) wh by (simp add: image_dest_def image_events_def ltrb_def build_image_event_def Let_def split: option.split)
  have "\<exists>es s'. emit_image Overwrite ch base src_area img i = Some es \<and> apply_events m es = Some (m(?key \<mapsto> s'))
      \<and> drawn_box base ?dest val s s'"
  proof (cases "event_clip base ?dest")
    case None
    have "px s x y = (if (x, y) \<in> nat_box ?dest \<and> clip_allows (db_clip base) x y then val x y else px s x y)"
      if "x < sw s" "y < sh s" for x y
      using event_clip_None [OF None fit bounds_u32 [OF that]] by auto
    then have "drawn_box base ?dest val s s" unfolding drawn_box_def by blast
    moreover have "apply_events m [] = Some (m(?key \<mapsto> s))" using m by (simp add: map_upd_triv)
    ultimately show ?thesis unfolding emit None option.case by blast
  next
    case (Some clip)
    from image_events_drawn [of s m ?key, OF ok m p(4) [unfolded wh] Some refl refl, of i] obtain es s' where
      es: "image_events ?key ?l ?t w h p i clip = Some es" "apply_events m es = Some (m(?key \<mapsto> s'))"
      and px: "\<forall>x < sw s. \<forall>y < sh s. px s' x y = (if (x, y) \<in> nat_box ?dest \<and> passes clip (x, y) > 0
        then image_at (unat ?l) (unat ?t) w p x y else px s x y)" by blast
    have "px s' x y = (if (x, y) \<in> nat_box ?dest \<and> clip_allows (db_clip base) x y then val x y else px s x y)"
      if xy: "x < sw s" "y < sh s" for x y
      using px [rule_format, OF xy] val [of x y] event_clip_Some [OF Some bounds_u32 [OF xy]]
      by (cases "(x, y) \<in> nat_box ?dest") simp_all
    then have "drawn_box base ?dest val s s'" unfolding drawn_box_def by blast
    then show ?thesis using es unfolding emit Some option.case by blast
  qed
  then show ?thesis by (simp add: val_def [abs_def])
qed

section \<open>From the message to the pixels\<close>

lemma read_draw_base_write: "Clip_ok (db_clip base) \<Longrightarrow> read_draw_base (DrawBase_write base @ body) = Inr (base, body)"
  using draw_base.roundtrip [of base "[]" body] by (simp add: read_draw_base_def io_result_def get_remaining_def)

text \<open>C19: A \<open>draw_fill\<close> message that decodes to a solid fill (its brush is solid and its raster operation
  is OP_PUT; others are skipped), applied through the whole pipeline (decode the payload,
  reduce the clip, emit the event, apply it to the mirror), sets exactly the pixels that are in the
  bounding box and that some clip rectangle of the message allows, reading its coordinates as signed; each
  becomes the brush's colour, every other pixel of the surface is as before, and no other surface
  changes. Only a clip beyond the rectangle limit, which the handler skips with a warning, is excepted.\<close>

theorem draw_fill_exact:
  assumes "decode_draw_fill payload = Inr (FillPaint base (cr, cg, cb, ca) masked)"
    and "m (ch, db_surface_id base) = Some s" and "surf_ok s"
    and "\<And>n. clip_area (db_clip base) (ltrb (db_bbox base)) \<noteq> TooComplex n"
  shows "\<exists>es s'. handle_draw_fill ch payload = Inr es \<and> apply_events m es = Some (m((ch, db_surface_id base) \<mapsto> s'))
    \<and> drawn_box base (ltrb (db_bbox base)) (\<lambda>_ _. [cr, cg, cb, ca]) s s'"
proof -
  have "handle_draw_fill ch payload
      = Inr (emit_clipped base (\<lambda>rect clip. FillRect (ch, db_surface_id base) rect (cr, cg, cb, ca) clip))"
    using assms(1) by (simp add: handle_draw_fill_def)
  then show ?thesis using fill_event [of m "(ch, db_surface_id base)" s base cr cg cb ca, OF assms(2-4)] by blast
qed

definition fill_base :: draw_base where
  "fill_base = \<lparr>db_surface_id = 0, db_bbox = \<lparr>rc_top = 0, rc_left = 1, rc_bottom = 1, rc_right = 2\<rparr>,
     db_clip = Clip_of_rects [\<lparr>rc_top = 0, rc_left = -1, rc_bottom = 9, rc_right = 9\<rparr>]\<rparr>"

definition fill_payload :: bytes where
  "fill_payload = DrawBase_write fill_base @ [1, 3, 2, 1, 0, 8, 0] @ replicate 13 0"

lemma fill_base_clip: "clip_area (db_clip fill_base) (ltrb (db_bbox fill_base)) = Rects [(1, 0, 2, 1)]"
  by code_simp

lemma nat_le_0: "nat_le n 0 = replicate n 0"
  by (induction n) simp_all

lemma no_mask_decodes:
  "decode SpiceQMask_read (replicate 13 0) = Inr \<lparr>qm_flags = 0, qm_pos = \<lparr>pt_x = 0, pt_y = 0\<rparr>, qm_bitmap_offset = 0\<rparr>"
  using spice_qmask.decode_trailing [of "\<lparr>qm_flags = 0, qm_pos = \<lparr>pt_x = 0, pt_y = 0\<rparr>, qm_bitmap_offset = 0\<rparr>" "[]"]
  by (simp add: codec_defs le_bytes_def nat_le_0 numeral_eq_Suc)

lemma fill_payload_decodes: "decode_draw_fill fill_payload = Inr (FillPaint fill_base (1, 2, 3, 255) False)"
proof -
  have "read_draw_base fill_payload = Inr (fill_base, [1, 3, 2, 1, 0, 8, 0] @ replicate 13 0)"
    unfolding fill_payload_def by (rule read_draw_base_write) (simp add: fill_base_def Clip_ok_def Clip_of_rects_def)
  moreover have "SpiceFill_read ([1, 3, 2, 1, 0, 8, 0] @ replicate 13 0)
      = Inr (\<lparr>fill_brush = Solid 66051, fill_rop_descriptor = 8, fill_mask =
          \<lparr>qm_flags = 0, qm_pos = \<lparr>pt_x = 0, pt_y = 0\<rparr>, qm_bitmap_offset = 0\<rparr>\<rparr>, 20)"
    by (simp add: SpiceFill_read_def SpiceBrush_read_def bindE_def BRUSH_SOLID_def BRUSH_NONE_def io_result_def
        no_mask_decodes Let_def le_word_def)
  ultimately show ?thesis by (simp add: decode_draw_fill_def bindE_def OP_PUT_def colour_bytes_def)
qed

theorem draw_fill_exact_witness:
  "\<exists>es s'. handle_draw_fill 7 fill_payload = Inr es \<and> apply_events [(7, 0) \<mapsto> three_rows] es = Some [(7, 0) \<mapsto> s']
    \<and> px s' 1 0 = [1, 2, 3, 255] \<and> px s' 0 0 = px three_rows 0 0"
proof -
  have ok: "surf_ok three_rows" by (simp add: surf_ok_def three_rows_def)
  have "[(7, 0) \<mapsto> three_rows] (7, db_surface_id fill_base) = Some three_rows" by (simp add: fill_base_def)
  from draw_fill_exact [of fill_payload fill_base 1 2 3 255 False "[(7, 0) \<mapsto> three_rows]" 7 three_rows, OF fill_payload_decodes this ok]
  obtain es s' where es: "handle_draw_fill 7 fill_payload = Inr es"
      "apply_events [(7, 0) \<mapsto> three_rows] es = Some ([(7, 0) \<mapsto> three_rows, (7, db_surface_id fill_base) \<mapsto> s'])"
    and px: "drawn_box fill_base (ltrb (db_bbox fill_base)) (\<lambda>_ _. [1, 2, 3, 255]) three_rows s'"
    unfolding fill_base_clip by blast
  have "px s' 1 0 = [1, 2, 3, 255]" "px s' 0 0 = px three_rows 0 0"
    using px [unfolded drawn_box_def, rule_format, of 1 0] px [unfolded drawn_box_def, rule_format, of 0 0]
    by (simp_all add: fill_base_def ltrb_def nat_box_def clip_allows_def Clip_of_rects_def three_rows_def)
  moreover have "[(7, 0) \<mapsto> three_rows, (7, db_surface_id fill_base) \<mapsto> s'] = [(7, 0) \<mapsto> s']"
    by (simp add: fill_base_def)
  ultimately show ?thesis using es by (intro exI [of _ es] exI [of _ s']) simp
qed

text \<open>C20: A \<open>draw_invers\<close> message inverts every pixel of its bounding box that its clip allows exactly
  once, also where its clip rectangles overlap, and leaves the rest of the surface as it was. Only a clip
  beyond the rectangle limit, which the handler skips with a warning, is excepted.\<close>

theorem draw_invers_exact:
  assumes "decode_draw_solid_fill payload = Inr (base, masked)"
    and "m (ch, db_surface_id base) = Some s" and "surf_ok s"
    and "\<And>n. clip_area (db_clip base) (ltrb (db_bbox base)) \<noteq> TooComplex n"
  shows "\<exists>es s'. handle_draw_invers ch payload = Inr es \<and> apply_events m es = Some (m((ch, db_surface_id base) \<mapsto> s'))
    \<and> drawn_box base (ltrb (db_bbox base)) (\<lambda>x y. inverted (px s x y)) s s'"
proof -
  have "handle_draw_invers ch payload = Inr (emit_clipped base (\<lambda>rect clip. Invert (ch, db_surface_id base) rect clip))"
    using assms(1) by (simp add: handle_draw_invers_def)
  then show ?thesis using invert_event [of m "(ch, db_surface_id base)" s base, OF assms(2-4)] by blast
qed

definition invers_base :: draw_base where
  "invers_base = \<lparr>db_surface_id = 0, db_bbox = \<lparr>rc_top = 0, rc_left = 1, rc_bottom = 1, rc_right = 2\<rparr>,
     db_clip = Clip_of_rects [\<lparr>rc_top = 0, rc_left = 0, rc_bottom = 9, rc_right = 9\<rparr>,
       \<lparr>rc_top = 0, rc_left = 1, rc_bottom = 9, rc_right = 9\<rparr>]\<rparr>"

definition invers_payload :: bytes where
  "invers_payload = DrawBase_write invers_base @ replicate 13 0"

lemma invers_base_clip: "clip_area (db_clip invers_base) (ltrb (db_bbox invers_base)) = Rects [(1, 0, 2, 1)]"
  by code_simp

lemma invers_payload_decodes: "decode_draw_solid_fill invers_payload = Inr (invers_base, False)"
proof -
  have "read_draw_base invers_payload = Inr (invers_base, replicate 13 0)"
    unfolding invers_payload_def by (rule read_draw_base_write) (simp add: invers_base_def Clip_ok_def Clip_of_rects_def)
  moreover have "SpiceBlackness_read (replicate 13 0) = Inr \<lparr>black_mask =
      \<lparr>qm_flags = 0, qm_pos = \<lparr>pt_x = 0, pt_y = 0\<rparr>, qm_bitmap_offset = 0\<rparr>\<rparr>"
    by (simp add: SpiceBlackness_read_def bindE_def io_result_def no_mask_decodes Let_def)
  ultimately show ?thesis by (simp add: decode_draw_solid_fill_def bindE_def)
qed

theorem draw_invers_exact_witness:
  "\<exists>es s'. handle_draw_invers 7 invers_payload = Inr es \<and> apply_events [(7, 0) \<mapsto> three_rows] es = Some [(7, 0) \<mapsto> s']
    \<and> px s' 1 0 = inverted (px three_rows 1 0)"
proof -
  have ok: "surf_ok three_rows" by (simp add: surf_ok_def three_rows_def)
  have "[(7, 0) \<mapsto> three_rows] (7, db_surface_id invers_base) = Some three_rows" by (simp add: invers_base_def)
  from draw_invers_exact [of invers_payload invers_base False "[(7, 0) \<mapsto> three_rows]" 7 three_rows, OF invers_payload_decodes this ok]
  obtain es s' where es: "handle_draw_invers 7 invers_payload = Inr es"
      "apply_events [(7, 0) \<mapsto> three_rows] es = Some ([(7, 0) \<mapsto> three_rows, (7, db_surface_id invers_base) \<mapsto> s'])"
    and px: "drawn_box invers_base (ltrb (db_bbox invers_base)) (\<lambda>x y. inverted (px three_rows x y)) three_rows s'"
    unfolding invers_base_clip by blast
  have "px s' 1 0 = inverted (px three_rows 1 0)"
    using px [unfolded drawn_box_def, rule_format, of 1 0]
    by (simp add: invers_base_def ltrb_def nat_box_def clip_allows_def Clip_of_rects_def three_rows_def)
  moreover have "[(7, 0) \<mapsto> three_rows, (7, db_surface_id invers_base) \<mapsto> s'] = [(7, 0) \<mapsto> s']"
    by (simp add: invers_base_def)
  ultimately show ?thesis using es by (intro exI [of _ es] exI [of _ s']) simp
qed

text \<open>An image that \<open>emit_image\<close> draws over its destination lands exactly: the crop to the source
  rectangle, the split into one event per clip box and the writes of the mirror never panic, and after
  them each pixel of the destination that the clip allows is the pixel of the decoded image at the
  same offset from the crop's origin, and every other pixel of the surface is as before. The
  destination is the bounding box's corner with the crop's size.\<close>

theorem emit_image_exact:
  assumes "surf_ok s" and "m (ch, db_surface_id base) = Some s"
    and "length (di_pixels img) = 4 * (unat (di_width img) * unat (di_height img))"
    and "crop_area (ltrb src_area) (di_width img) (di_height img) = (a, c, unat w, unat h)"
    and "\<And>n. clip_area (db_clip base) (image_dest base w h) \<noteq> TooComplex n"
  shows "\<exists>es s'. emit_image Overwrite ch base src_area img i = Some es
    \<and> apply_events m es = Some (m((ch, db_surface_id base) \<mapsto> s'))
    \<and> drawn_box base (image_dest base w h)
        (\<lambda>x y. pix ((c + (y - unat (rc_top (db_bbox base)))) * unat (di_width img)
                 + (a + (x - unat (rc_left (db_bbox base))))) (di_pixels img)) s s'"
  using assms by (rule emit_image_drawn)

theorem emit_image_exact_witness:
  "\<exists>es s'. emit_image Overwrite 7 fill_base \<lparr>rc_top = 0, rc_left = 1, rc_bottom = 1, rc_right = 2\<rparr>
        \<lparr>di_width = 2, di_height = 1, di_pixels = [9, 9, 9, 9, 5, 6, 7, 8],
          di_image_id = 0, di_win_head_dist = 0\<rparr> 0 = Some es
    \<and> apply_events [(7, 0) \<mapsto> three_rows] es = Some [(7, 0) \<mapsto> s'] \<and> px s' 1 0 = [5, 6, 7, 8] \<and> px s' 0 0 = px three_rows 0 0"
proof -
  let ?img = "\<lparr>di_width = 2, di_height = 1, di_pixels = [9, 9, 9, 9, 5, 6, 7, 8],
          di_image_id = 0, di_win_head_dist = 0\<rparr>"
  let ?src = "\<lparr>rc_top = 0, rc_left = 1, rc_bottom = 1, rc_right = 2\<rparr> :: rect"
  have ok: "surf_ok three_rows" by (simp add: surf_ok_def three_rows_def)
  have m: "[(7, 0) \<mapsto> three_rows] (7, db_surface_id fill_base) = Some three_rows" by (simp add: fill_base_def)
  have crop: "crop_area (ltrb ?src) (di_width ?img) (di_height ?img) = (1, 0, unat (1 :: u32), unat (1 :: u32))"
    by (simp add: crop_area_def ltrb_def Let_def)
  have "image_dest fill_base 1 1 = ltrb (db_bbox fill_base)"
    by (simp add: image_dest_def ltrb_def fill_base_def saturating_add32_def)
  then have clip: "clip_area (db_clip fill_base) (image_dest fill_base 1 1) = Rects [(1, 0, 2, 1)]" by (simp only: fill_base_clip)
  have "length (di_pixels ?img) = 4 * (unat (di_width ?img) * unat (di_height ?img))" by simp
  from emit_image_exact [of three_rows "[(7, 0) \<mapsto> three_rows]" 7 fill_base ?img ?src 1 0 1 1 0, OF ok m this crop]
  obtain es s' where es: "emit_image Overwrite 7 fill_base ?src ?img 0 = Some es"
      "apply_events [(7, 0) \<mapsto> three_rows] es = Some ([(7, 0) \<mapsto> three_rows, (7, db_surface_id fill_base) \<mapsto> s'])"
    and px: "drawn_box fill_base (image_dest fill_base 1 1)
      (\<lambda>x y. pix ((0 + (y - unat (rc_top (db_bbox fill_base)))) * unat (di_width ?img)
         + (1 + (x - unat (rc_left (db_bbox fill_base))))) (di_pixels ?img)) three_rows s'"
    unfolding clip by blast
  have "px s' 1 0 = [5, 6, 7, 8]" "px s' 0 0 = px three_rows 0 0"
    using px [unfolded drawn_box_def, rule_format, of 1 0] px [unfolded drawn_box_def, rule_format, of 0 0]
    by (simp_all add: fill_base_def image_dest_def saturating_add32_def nat_box_def clip_allows_def
        Clip_of_rects_def three_rows_def pix_def)
  moreover have "[(7, 0) \<mapsto> three_rows, (7, db_surface_id fill_base) \<mapsto> s'] = [(7, 0) \<mapsto> s']"
    by (simp add: fill_base_def)
  ultimately show ?thesis using es by (intro exI [of _ es] exI [of _ s']) simp
qed

end
