(* ===== verification/Lz4.thy ===== *)
theory Lz4
  imports Lz
begin

text \<open>
  The SPICE LZ4 image decoder (\<open>shakenfist-spice-compression/src/lz4.rs\<close>): the block loop over one
  output buffer, and the conversion of the decoded rows to RGBA, in place for the 32-bit formats.

  The block decompressor \<open>lz4_flex::block::decompress_into_with_dict\<close> is the argument \<open>lz4\<close>: from the
  block, the output slice and the dictionary it gives the number of bytes decoded and the slice as it
  leaves it, or \<open>None\<close> for its error. A failure is named after the warning the code logs for it; the
  code returns \<open>None\<close> for each. \<open>Lz4Panic\<close> is a split of the buffer behind its end.
\<close>

section \<open>Chunks of a slice\<close>

text \<open>\<open>chunks_exact(n)\<close>, and \<open>as_chunks::<n>().0\<close>: the whole chunks, without the remainder.\<close>

function chunks_exact :: "nat \<Rightarrow> 'a list \<Rightarrow> 'a list list" where
  "chunks_exact n xs = (if n = 0 \<or> length xs < n then [] else take n xs # chunks_exact n (drop n xs))"
  by pat_completeness auto

termination
  by (relation "measure (length \<circ> snd)") auto

declare chunks_exact.simps [simp del]

lemma chunks_exact_Nil [simp]: "0 < n \<Longrightarrow> chunks_exact n [] = []"
  by (simp add: chunks_exact.simps)

lemma chunks_exact_append:
  "0 < n \<Longrightarrow> length xs = n \<Longrightarrow> chunks_exact n (xs @ ys) = xs # chunks_exact n ys"
  by (subst chunks_exact.simps) simp

lemma chunks_exact_concat:
  assumes "0 < n" and "list_all (\<lambda>c. length c = n) cs"
  shows "chunks_exact n (concat cs) = cs"
  using assms(2) by (induction cs) (simp_all add: assms(1) chunks_exact_append)

lemma chunks_exact_spec:
  assumes "0 < n" and "length xs = k * n"
  shows "length (chunks_exact n xs) = k \<and> list_all (\<lambda>c. length c = n) (chunks_exact n xs) \<and> concat (chunks_exact n xs) = xs
    \<and> (\<forall>i<k. chunks_exact n xs ! i = take n (drop (i * n) xs))"
  using assms(2)
proof (induction k arbitrary: xs)
  case 0
  then show ?case using assms(1) by simp
next
  case (Suc k)
  have c: "chunks_exact n xs = take n xs # chunks_exact n (drop n xs)"
    using Suc.prems assms(1) by (subst chunks_exact.simps) simp
  have "length (drop n xs) = k * n" using Suc.prems by simp
  note IH = Suc.IH [OF this]
  have "chunks_exact n xs ! i = take n (drop (i * n) xs)" if "i < Suc k" for i
    using that IH by (cases i) (simp_all add: c add.commute)
  then show ?case using IH Suc.prems by (simp add: c)
qed

lemmas length_chunks_exact = chunks_exact_spec [THEN conjunct1]
lemmas all_chunks_exact = chunks_exact_spec [THEN conjunct2, THEN conjunct1]
lemmas concat_chunks_exact = chunks_exact_spec [THEN conjunct2, THEN conjunct2, THEN conjunct1]
lemmas nth_chunks_exact = chunks_exact_spec [THEN conjunct2, THEN conjunct2, THEN conjunct2, rule_format]

section \<open>Formats\<close>

definition LZ4_BIT16 :: u8 where "LZ4_BIT16 = 6"
definition LZ4_BIT24 :: u8 where "LZ4_BIT24 = 7"
definition LZ4_BIT32 :: u8 where "LZ4_BIT32 = 8"
definition LZ4_RGBA :: u8 where "LZ4_RGBA = 9"

lemmas lz4_formats = LZ4_BIT16_def LZ4_BIT24_def LZ4_BIT32_def LZ4_RGBA_def

lemma lz4_formats_distinct [simp]:
  "LZ4_RGBA \<noteq> LZ4_BIT16" "LZ4_RGBA \<noteq> LZ4_BIT24" "LZ4_BIT32 \<noteq> LZ4_BIT16" "LZ4_BIT32 \<noteq> LZ4_BIT24"
  "LZ4_BIT32 \<noteq> LZ4_RGBA" "LZ4_BIT24 \<noteq> LZ4_BIT16"
  by (simp_all add: lz4_formats)

definition LZ4_MAX_DISTANCE :: nat where "LZ4_MAX_DISTANCE = 64 * 1024"

definition lz4_bpp :: "u8 \<Rightarrow> nat option" where
  "lz4_bpp format =
     (if format = LZ4_BIT16 then Some 2
      else if format = LZ4_BIT24 then Some 3
      else if format = LZ4_BIT32 \<or> format = LZ4_RGBA then Some 4
      else None)"

section \<open>Rows to RGBA\<close>

definition expand5 :: "u16 \<Rightarrow> u8" where
  "expand5 v = (let v = (ucast (v AND 0x1f) :: u8) in push_bit 3 v OR drop_bit 2 v)"

definition convert_pixel :: "u8 \<Rightarrow> bytes \<Rightarrow> bytes" where
  "convert_pixel format s =
     (if format = LZ4_BIT16 then
        let v = (le_word s :: u16) in [expand5 (drop_bit 10 v), expand5 (drop_bit 5 v), expand5 v, 255]
      else if format = LZ4_BIT24 then [s ! 2, s ! 1, s ! 0, 255]
      else if format = LZ4_RGBA then [s ! 2, s ! 1, s ! 0, s ! 3]
      else [s ! 2, s ! 1, s ! 0, 255])"

definition chunk_bytes :: "u8 \<Rightarrow> nat" where
  "chunk_bytes format = (if format = LZ4_BIT16 then 2 else if format = LZ4_BIT24 then 3 else 4)"

text \<open>The destination keeps what the shorter of the two sides leaves unwritten.\<close>

definition convert_row :: "u8 \<Rightarrow> bytes \<Rightarrow> bytes \<Rightarrow> bytes" where
  "convert_row format src dst =
     (let ps = zip (chunks_exact (chunk_bytes format) src) (chunks_exact 4 dst) in
      concat (map (\<lambda>(s, _). convert_pixel format s) ps) @ drop (4 * length ps) dst)"

definition swap_bgra :: "bool \<Rightarrow> bytes \<Rightarrow> bytes" where
  "swap_bgra has_alpha px =
     (let px = px[0 := px ! 2, 2 := px ! 0] in if has_alpha then px else px[3 := 255])"

definition bgra_to_rgba_in_place :: "bytes \<Rightarrow> nat \<Rightarrow> bool \<Rightarrow> bool \<Rightarrow> bytes" where
  "bgra_to_rgba_in_place pixels width has_alpha top_down =
     (let cs = chunks_exact 4 pixels;
          pixels = concat (map (swap_bgra has_alpha) cs) @ drop (4 * length cs) pixels in
      if top_down then pixels
      else
        let row_bytes = width * 4; rows = length pixels div row_bytes;
            top = take (rows div 2 * row_bytes) pixels; bottom = drop (rows div 2 * row_bytes) pixels;
            mid = take (rows mod 2 * row_bytes) bottom; bottom = drop (rows mod 2 * row_bytes) bottom;
            swapped = map (\<lambda>(t, b). (b, t)) (zip (chunks_exact row_bytes top) (rev (chunks_exact row_bytes bottom))) in
        concat (map fst swapped) @ drop (length swapped * row_bytes) top
          @ mid @ concat (rev (map snd swapped)) @ drop (length swapped * row_bytes) bottom)"

text \<open>The row-wise conversion the 16 and 24-bit formats take.\<close>

definition convert_rows :: "u8 \<Rightarrow> bool \<Rightarrow> nat \<Rightarrow> nat \<Rightarrow> nat \<Rightarrow> bytes \<Rightarrow> bytes" where
  "convert_rows format top_down width row_bytes rgba_size decoded =
     (let src_rows = chunks_exact row_bytes decoded;
          dst_rows = chunks_exact (width * 4) (replicate rgba_size 0) in
      if top_down then concat (map (\<lambda>(src, dst). convert_row format src dst) (zip src_rows dst_rows))
      else concat (rev (map (\<lambda>(src, dst). convert_row format src dst) (zip src_rows (rev dst_rows)))))"

section \<open>The decoder\<close>

datatype lz4_error =
    Lz4ShortData | Lz4FormatUnsupported | Lz4DimensionsRefused | Lz4Overflow | Lz4NoBlocks
  | Lz4BlockLengthTruncated | Lz4BlockOverrunsData | Lz4BlockAfterImage | Lz4BlockFailed
  | Lz4SizeMismatch | Lz4ImageRefused | Lz4Panic

definition checked_mul :: "nat \<Rightarrow> nat \<Rightarrow> nat option" where
  "checked_mul a b = (if a * b \<le> USIZE_MAX then Some (a * b) else None)"

type_synonym lz4_block = "bytes \<Rightarrow> bytes \<Rightarrow> bytes \<Rightarrow> (nat \<times> bytes) option"

text \<open>One turn of the loop, on the blocks left, the buffer and the bytes decoded so far.\<close>

definition lz4_step :: "lz4_block \<Rightarrow> bytes \<Rightarrow> bytes \<Rightarrow> nat \<Rightarrow> lz4_error + (bytes \<times> bytes \<times> nat)" where
  "lz4_step lz4 blocks decoded pos =
     (if length blocks < 4 then Inl Lz4BlockLengthTruncated
      else
        let len = unat (be_word (take 4 blocks) :: u32); rest = drop 4 blocks in
        if len > length rest then Inl Lz4BlockOverrunsData
        else
          let block = take len rest; blocks = drop len rest in
          if pos = length decoded then Inl Lz4BlockAfterImage
          else if pos > length decoded then Inl Lz4Panic
          else
            let done = take pos decoded; tail = drop pos decoded; dict = drop (pos - LZ4_MAX_DISTANCE) done in
            case lz4 block tail dict of
              None \<Rightarrow> Inl Lz4BlockFailed
            | Some (n, tail) \<Rightarrow> Inr (blocks, done @ tail, pos + n))"

lemma lz4_step_shorter: "lz4_step lz4 blocks decoded pos = Inr (blocks', r) \<Longrightarrow> length blocks' < length blocks"
  by (auto simp: lz4_step_def Let_def split: if_splits option.splits)

function lz4_loop :: "lz4_block \<Rightarrow> bytes \<Rightarrow> bytes \<Rightarrow> nat \<Rightarrow> lz4_error + (bytes \<times> nat)" where
  "lz4_loop lz4 blocks decoded pos =
     (if blocks = [] then Inr (decoded, pos)
      else case lz4_step lz4 blocks decoded pos of
        Inl e \<Rightarrow> Inl e
      | Inr (blocks, decoded, pos) \<Rightarrow> lz4_loop lz4 blocks decoded pos)"
  by pat_completeness auto

termination
  by (relation "measure (\<lambda>(_, blocks, _). length blocks)") (auto dest: lz4_step_shorter)

declare lz4_loop.simps [simp del]

definition decompress_spice_lz4 :: "lz4_block \<Rightarrow> bytes \<Rightarrow> nat \<Rightarrow> nat \<Rightarrow> lz4_error + decompressed_image" where
  "decompress_spice_lz4 lz4 data width height =
     (if length data < 2 then Inl Lz4ShortData
      else
        let top_down = (data ! 0 \<noteq> 0); format = data ! 1; blocks = drop 2 data in
        case lz4_bpp format of
          None \<Rightarrow> Inl Lz4FormatUnsupported
        | Some bpp \<Rightarrow>
        (case rgba_len width height of
          None \<Rightarrow> Inl Lz4DimensionsRefused
        | Some rgba_size \<Rightarrow>
        (case checked_mul width bpp of
          None \<Rightarrow> Inl Lz4Overflow
        | Some row_bytes \<Rightarrow>
        if blocks = [] then Inl Lz4NoBlocks
        else
        (case checked_mul row_bytes height of
          None \<Rightarrow> Inl Lz4Overflow
        | Some sz \<Rightarrow>
          bindE (lz4_loop lz4 blocks (replicate sz 0) 0) (\<lambda>(decoded, pos).
            if pos \<noteq> length decoded then Inl Lz4SizeMismatch
            else
              let rgba = (if bpp = 4 then bgra_to_rgba_in_place decoded width (format = LZ4_RGBA) top_down
                          else convert_rows format top_down width row_bytes rgba_size decoded) in
              case DecompressedImage_new (word_of_nat width) (word_of_nat height) rgba 0 of
                None \<Rightarrow> Inl Lz4ImageRefused
              | Some img \<Rightarrow> Inr img)))))"

section \<open>The in-place conversion is the row-wise one\<close>

definition converted :: "u8 \<Rightarrow> nat \<Rightarrow> bytes \<Rightarrow> bytes" where
  "converted format n row = concat (map (convert_pixel format) (chunks_exact n row))"

lemma length_convert_pixel [simp]: "length (convert_pixel format s) = 4"
  by (simp add: convert_pixel_def Let_def)

lemma length_concat_convert: "length (concat (map (convert_pixel format) cs)) = 4 * length cs"
  by (induction cs) simp_all

lemma swap_bgra_convert:
  assumes "length s = 4"
  shows "swap_bgra (format = LZ4_RGBA) s = convert_pixel (if format = LZ4_RGBA then LZ4_RGBA else LZ4_BIT32) s"
proof -
  obtain a b c d where "s = [a, b, c, d]" using assms by (rule length_4E)
  then show ?thesis by (simp add: swap_bgra_def convert_pixel_def Let_def numeral_2_eq_2 numeral_3_eq_3)
qed

lemma map_fst_zip_eq: "length xs = length ys \<Longrightarrow> map (\<lambda>(s, _). f s) (zip xs ys) = map f xs"
  by (induction xs ys rule: list_induct2) simp_all

lemma convert_row_converted:
  assumes "length src = w * chunk_bytes format" and "length dst = w * 4"
  shows "convert_row format src dst = converted format (chunk_bytes format) src"
proof -
  have pos: "0 < chunk_bytes format" by (simp add: chunk_bytes_def)
  note l = length_chunks_exact [OF pos assms(1)] length_chunks_exact [OF _ assms(2)]
  have "map (\<lambda>(s, _). convert_pixel format s) (zip (chunks_exact (chunk_bytes format) src) (chunks_exact 4 dst))
      = map (convert_pixel format) (chunks_exact (chunk_bytes format) src)"
    using l by (intro map_fst_zip_eq) simp
  then show ?thesis using l assms(2) by (simp add: convert_row_def converted_def)
qed

lemma length_converted:
  assumes "0 < n" and "length row = w * n"
  shows "length (converted format n row) = 4 * w"
  using length_chunks_exact [OF assms] by (simp add: converted_def length_concat_convert)

lemma concat_concat: "concat (concat xss) = concat (map concat xss)"
  by (induction xss) simp_all

lemma chunks_exact_rows:
  assumes "0 < n" and "0 < w" and "length xs = k * (w * n)"
  shows "chunks_exact n xs = concat (map (chunks_exact n) (chunks_exact (w * n) xs))"
proof -
  have pos: "0 < w * n" using assms by simp
  note spec = chunks_exact_spec [OF pos assms(3)]
  let ?cs = "concat (map (chunks_exact n) (chunks_exact (w * n) xs))"
  have row: "list_all (\<lambda>c. length c = n) (chunks_exact n r)" "concat (chunks_exact n r) = r"
    if "r \<in> set (chunks_exact (w * n) xs)" for r
  proof -
    have "length r = w * n" using spec that by (auto simp: list_all_iff)
    then show "list_all (\<lambda>c. length c = n) (chunks_exact n r)" "concat (chunks_exact n r) = r"
      using chunks_exact_spec [OF assms(1)] by blast+
  qed
  then have "list_all (\<lambda>c. length c = n) ?cs" by (auto simp: list_all_iff)
  moreover have "concat ?cs = xs"
  proof -
    have "concat ?cs = concat (map (\<lambda>r. concat (chunks_exact n r)) (chunks_exact (w * n) xs))"
      by (simp add: concat_concat comp_def)
    also have "\<dots> = concat (chunks_exact (w * n) xs)" using row(2) by (simp cong: map_cong)
    finally show ?thesis using spec by simp
  qed
  ultimately show ?thesis using chunks_exact_concat [OF assms(1)] by metis
qed

lemma length_concat_rows: "list_all (\<lambda>r. length r = n) rs \<Longrightarrow> length (concat rs) = length rs * n"
  by (induction rs) simp_all

definition ordered_rows :: "bool \<Rightarrow> 'a list \<Rightarrow> 'a list" where
  "ordered_rows top_down rs = (if top_down then rs else rev rs)"

lemma convert_rows_eq:
  assumes "0 < w" and n: "n = chunk_bytes format" and len: "length decoded = h * (w * n)"
  shows "convert_rows format top_down w (w * n) (w * h * 4) decoded
    = concat (map (converted format n) (ordered_rows top_down (chunks_exact (w * n) decoded)))"
proof -
  have pos: "0 < w * n" "0 < w * 4" using assms by (simp_all add: chunk_bytes_def)
  have dst: "length (replicate (w * h * 4) (0 :: u8)) = h * (w * 4)" by simp
  let ?S = "chunks_exact (w * n) decoded" and ?D = "chunks_exact (w * 4) (replicate (w * h * 4) (0 :: u8))"
  note S = chunks_exact_spec [OF pos(1) len] and D = chunks_exact_spec [OF pos(2) dst]
  have "map (\<lambda>(src, dst). convert_row format src dst) (zip ?S D') = map (converted format n) ?S"
    if "length D' = h" "list_all (\<lambda>d. length d = w * 4) D'" for D' :: "bytes list"
  proof (rule nth_equalityI)
    fix i assume "i < length (map (\<lambda>(src, dst). convert_row format src dst) (zip ?S D'))"
    then have "i < h" using that by simp
    then show "map (\<lambda>(src, dst). convert_row format src dst) (zip ?S D') ! i = map (converted format n) ?S ! i"
    proof -
      have "length (?S ! i) = w * chunk_bytes format" "length (D' ! i) = w * 4"
        using S that \<open>i < h\<close> by (auto simp: list_all_length n)
      from convert_row_converted [OF this] show ?thesis using S that \<open>i < h\<close> by (simp only: nth_map nth_zip length_zip) (simp add: n)
    qed
  qed (use S that in simp)
  note * = this [of ?D] this [of "rev ?D"]
  show ?thesis using * D by (simp add: convert_rows_def ordered_rows_def flip: rev_map)
qed

lemma flip_swap:
  assumes n: "0 < n" and rs: "list_all (\<lambda>r. length r = n) A" "list_all (\<lambda>r. length r = n) B" "length A = length B"
  shows "(let swapped = map (\<lambda>(t, b). (b, t)) (zip (chunks_exact n (concat A)) (rev (chunks_exact n (concat B)))) in
      concat (map fst swapped) @ drop (length swapped * n) (concat A)
        @ mid @ concat (rev (map snd swapped)) @ drop (length swapped * n) (concat B))
    = concat (rev B) @ mid @ concat (rev A)"
proof -
  have c: "chunks_exact n (concat A) = A" "chunks_exact n (concat B) = B"
    using rs by (simp_all add: chunks_exact_concat n)
  have z: "map fst (map (\<lambda>(t, b). (b, t)) (zip A (rev B))) = rev B" "map snd (map (\<lambda>(t, b). (b, t)) (zip A (rev B))) = A"
    using rs(3) by (simp_all add: comp_def case_prod_unfold)
  show ?thesis using rs length_concat_rows [OF rs(1)] length_concat_rows [OF rs(2)]
    unfolding Let_def c z by simp
qed

lemma in_place_eq:
  assumes "0 < w" and len: "length pixels = h * (w * 4)"
  shows "bgra_to_rgba_in_place pixels w (format = LZ4_RGBA) top_down
    = concat (map (converted (if format = LZ4_RGBA then LZ4_RGBA else LZ4_BIT32) 4) (ordered_rows top_down (chunks_exact (w * 4) pixels)))"
proof -
  let ?f = "if format = LZ4_RGBA then LZ4_RGBA else LZ4_BIT32"
  have pos: "0 < w * 4" using assms by simp
  note rows = chunks_exact_spec [OF pos len]
  define R where "R = map (converted ?f 4) (chunks_exact (w * 4) pixels)"
  have R: "length R = h" "list_all (\<lambda>r. length r = w * 4) R"
    using rows length_converted [of 4 _ w ?f] by (auto simp: R_def list_all_iff)
  have len4: "length pixels = (h * w) * 4" using len by simp
  note px = chunks_exact_spec [OF _ len4, simplified]
  have "map (swap_bgra (format = LZ4_RGBA)) (chunks_exact 4 pixels) = map (convert_pixel ?f) (chunks_exact 4 pixels)"
    using px swap_bgra_convert by (intro map_cong) (auto simp: list_all_iff)
  also have "concat \<dots> = concat R"
    using chunks_exact_rows [of 4 w pixels h] assms by (simp add: R_def converted_def [abs_def] map_concat comp_def concat_concat)
  finally have P: "concat (map (swap_bgra (format = LZ4_RGBA)) (chunks_exact 4 pixels)) @ drop (4 * length (chunks_exact 4 pixels)) pixels = concat R"
    using px len by simp
  define A M B where "A = take (h div 2) R" and "M = take (h mod 2) (drop (h div 2) R)" and "B = drop (h div 2 + h mod 2) R"
  have split: "R = A @ M @ B" by (simp add: A_def M_def B_def add.commute) (metis add.commute append_take_drop_id drop_drop)
  have l: "length A = h div 2" "length M = h mod 2" "length B = h div 2" using R(1) by (simp_all add: A_def M_def B_def) presburger+
  have all: "list_all (\<lambda>r. length r = w * 4) A" "list_all (\<lambda>r. length r = w * 4) M" "list_all (\<lambda>r. length r = w * 4) B"
    using R(2) unfolding split by simp_all
  note lc = length_concat_rows [OF all(1)] length_concat_rows [OF all(2)] length_concat_rows [OF all(3)] length_concat_rows [OF R(2)]
  have rows_h: "length (concat R) div (w * 4) = h" using lc(4) R(1) assms(1) by simp
  have "take (h div 2 * (w * 4)) (concat R) = concat A" "drop (h div 2 * (w * 4)) (concat R) = concat M @ concat B"
    "take (h mod 2 * (w * 4)) (concat M @ concat B) = concat M" "drop (h mod 2 * (w * 4)) (concat M @ concat B) = concat B"
    using lc l by (simp_all add: split)
  moreover have "concat (rev M) = concat M" using l(2) mod_less_divisor [of 2 h] by (cases M; cases "tl M") auto
  ultimately have "bgra_to_rgba_in_place pixels w (format = LZ4_RGBA) False = concat (rev R)"
    unfolding bgra_to_rgba_in_place_def Let_def P rows_h if_False
    using flip_swap [OF pos all(1,3), of "concat M"] l by (simp add: Let_def split)
  moreover have "bgra_to_rgba_in_place pixels w (format = LZ4_RGBA) True = concat R"
    unfolding bgra_to_rgba_in_place_def Let_def P by simp
  ultimately show ?thesis by (cases top_down) (simp_all add: ordered_rows_def R_def rev_map)
qed

section \<open>What the blocks decode to\<close>

text \<open>
  What the block decompressor documents: it decodes the block against the dictionary to bytes that do
  not depend on the output slice, writes them at its start, leaves its length alone, and fails when they
  do not fit. \<open>dec\<close> is the decoding of a block. What it leaves in the rest of the slice is not specified.
\<close>

definition lz4_contract :: "lz4_block \<Rightarrow> (bytes \<Rightarrow> bytes \<Rightarrow> bytes option) \<Rightarrow> bool" where
  "lz4_contract lz4 dec \<longleftrightarrow> (\<forall>block tail dict. case dec block dict of
       None \<Rightarrow> lz4 block tail dict = None
     | Some out \<Rightarrow> if length out \<le> length tail
         then \<exists>junk. lz4 block tail dict = Some (length out, out @ junk) \<and> length out + length junk = length tail
         else lz4 block tail dict = None)"

lemma lz4_contractD:
  "lz4_contract lz4 dec \<Longrightarrow> case dec block dict of
       None \<Rightarrow> lz4 block tail dict = None
     | Some out \<Rightarrow> if length out \<le> length tail
         then \<exists>junk. lz4 block tail dict = Some (length out, out @ junk) \<and> length out + length junk = length tail
         else lz4 block tail dict = None"
  unfolding lz4_contract_def by blast

text \<open>The decoding of the blocks in order, each against the last 64 KiB before it, into at most \<open>cap\<close> bytes.\<close>

primrec lz4_decode_all :: "(bytes \<Rightarrow> bytes \<Rightarrow> bytes option) \<Rightarrow> nat \<Rightarrow> bytes \<Rightarrow> bytes list \<Rightarrow> bytes option" where
  "lz4_decode_all dec cap acc [] = Some acc"
| "lz4_decode_all dec cap acc (b # bs) =
     (if length acc \<ge> cap then None
      else case dec b (drop (length acc - LZ4_MAX_DISTANCE) acc) of
        None \<Rightarrow> None
      | Some out \<Rightarrow> if length acc + length out \<le> cap then lz4_decode_all dec cap (acc @ out) bs else None)"

definition lz4_frame :: "bytes \<Rightarrow> bytes" where
  "lz4_frame b = rev (u32_le (word_of_nat (length b))) @ b"

lemma lz4_frame_nonempty: "lz4_frame b \<noteq> []"
proof
  assume "lz4_frame b = []"
  then have "length (lz4_frame b) = 0" by simp
  then show False by (simp add: lz4_frame_def)
qed

lemma lz4_step_frame:
  assumes "lz4_contract lz4 dec" and "length b < 2 ^ 32" and "length acc + length tail = cap"
  shows "lz4_step lz4 (lz4_frame b @ rest) (acc @ tail) (length acc) =
    (if length acc \<ge> cap then Inl Lz4BlockAfterImage
     else case dec b (drop (length acc - LZ4_MAX_DISTANCE) acc) of
       None \<Rightarrow> Inl Lz4BlockFailed
     | Some out \<Rightarrow> if length acc + length out \<le> cap
         then Inr (rest, acc @ snd (the (lz4 b tail (drop (length acc - LZ4_MAX_DISTANCE) acc))), length acc + length out)
         else Inl Lz4BlockFailed)"
proof -
  have len: "unat (word_of_nat (length b) :: u32) = length b" using assms(2) by (simp add: unat_of_nat)
  show ?thesis using lz4_contractD [OF assms(1), where block = b and dict = "drop (length acc - LZ4_MAX_DISTANCE) acc" and tail = tail] assms(3) len
    by (auto simp: lz4_step_def lz4_frame_def Let_def split: option.splits if_splits)
qed

lemma lz4_loop_Nil [simp]: "lz4_loop lz4 [] decoded pos = Inr (decoded, pos)"
  by (simp add: lz4_loop.simps)

lemma lz4_loop_frames:
  assumes c: "lz4_contract lz4 dec"
  shows "list_all (\<lambda>b. length b < 2 ^ 32) bs \<Longrightarrow> length acc + length tail = cap \<Longrightarrow>
    (case lz4_decode_all dec cap acc bs of
       None \<Rightarrow> \<exists>e. lz4_loop lz4 (concat (map lz4_frame bs)) (acc @ tail) (length acc) = Inl e
     | Some out \<Rightarrow> \<exists>junk. lz4_loop lz4 (concat (map lz4_frame bs)) (acc @ tail) (length acc) = Inr (out @ junk, length out)
         \<and> length out + length junk = cap)"
proof (induction bs arbitrary: acc tail)
  case Nil
  then show ?case by auto
next
  case (Cons b bs)
  let ?dict = "drop (length acc - LZ4_MAX_DISTANCE) acc" and ?rest = "concat (map lz4_frame bs)"
  have unf: "lz4_loop lz4 (concat (map lz4_frame (b # bs))) (acc @ tail) (length acc) =
      (case lz4_step lz4 (lz4_frame b @ ?rest) (acc @ tail) (length acc) of
        Inl e \<Rightarrow> Inl e | Inr (blocks, decoded, pos) \<Rightarrow> lz4_loop lz4 blocks decoded pos)"
    by (subst lz4_loop.simps) (simp add: lz4_frame_nonempty)
  have b: "length b < 2 ^ 32" using Cons.prems by simp
  note step = lz4_step_frame [OF c b Cons.prems(2), of ?rest]
  show ?case
  proof (cases "length acc \<ge> cap")
    case True
    then show ?thesis unfolding unf step by simp
  next
    case False
    show ?thesis
    proof (cases "dec b ?dict")
      case None
      then show ?thesis using False unfolding unf step by simp
    next
      case (Some out)
      show ?thesis
      proof (cases "length acc + length out \<le> cap")
        case False
        then show ?thesis using Some \<open>\<not> cap \<le> length acc\<close> unfolding unf step by simp
      next
        case True
        have "if length out \<le> length tail
           then \<exists>junk. lz4 b tail ?dict = Some (length out, out @ junk) \<and> length out + length junk = length tail
           else lz4 b tail ?dict = None"
          using lz4_contractD [OF c, where block = b and dict = ?dict and tail = tail] Some by simp
        then obtain junk where j: "lz4 b tail ?dict = Some (length out, out @ junk)" "length out + length junk = length tail"
          using True Cons.prems(2) by (auto split: if_splits)
        have "lz4_loop lz4 (concat (map lz4_frame (b # bs))) (acc @ tail) (length acc)
            = lz4_loop lz4 ?rest ((acc @ out) @ junk) (length (acc @ out))"
          unfolding unf step using False Some True j by simp
        moreover have "lz4_decode_all dec cap acc (b # bs) = lz4_decode_all dec cap (acc @ out) bs"
          using False Some True by simp
        moreover have "list_all (\<lambda>b. length b < 2 ^ 32) bs" "length (acc @ out) + length junk = cap"
          using Cons.prems j(2) by simp_all
        ultimately show ?thesis using Cons.IH [of "acc @ out" junk] by (simp only:)
      qed
    qed
  qed
qed

lemma lz4_step_frames:
  assumes "lz4_step lz4 blocks decoded pos = Inr (blocks', r)"
  shows "\<exists>b. blocks = lz4_frame b @ blocks' \<and> length b < 2 ^ 32"
proof -
  let ?len = "be_word (take 4 blocks) :: u32"
  have l: "4 \<le> length blocks" "unat ?len \<le> length blocks - 4" "blocks' = drop (unat ?len) (drop 4 blocks)"
    using assms by (auto simp: lz4_step_def Let_def split: if_splits option.splits)
  let ?b = "take (unat ?len) (drop 4 blocks)"
  have lb: "length ?b = unat ?len" using l by simp
  have "u32_le (le_word (rev (take 4 blocks))) = rev (take 4 blocks)"
    using l(1) by (intro le_bytes_le_word) simp_all
  then have "lz4_frame ?b = take 4 blocks @ ?b" unfolding lz4_frame_def lb by (simp add: be_word_def)
  moreover have "blocks = take 4 blocks @ ?b @ blocks'" unfolding l(3) by (simp only: append_take_drop_id)
  moreover have "length ?b < 2 ^ 32" unfolding lb using unsigned_less [of ?len] by simp
  ultimately show ?thesis by (metis append.assoc)
qed

lemma lz4_loop_framed:
  "lz4_loop lz4 blocks decoded pos = Inr r \<Longrightarrow> \<exists>bs. blocks = concat (map lz4_frame bs) \<and> list_all (\<lambda>b. length b < 2 ^ 32) bs"
proof (induction lz4 blocks decoded pos rule: lz4_loop.induct)
  case (1 lz4 blocks decoded pos)
  show ?case
  proof (cases "blocks = []")
    case True
    then show ?thesis by (intro exI [of _ "[]"]) simp
  next
    case False
    then obtain blocks' decoded' pos' where st: "lz4_step lz4 blocks decoded pos = Inr (blocks', decoded', pos')"
      "lz4_loop lz4 blocks' decoded' pos' = Inr r"
      using "1.prems" by (subst (asm) lz4_loop.simps) (auto split: sum.splits)
    from "1.IH" [OF False st(1) refl refl st(2)] obtain bs where
      bs: "blocks' = concat (map lz4_frame bs)" "list_all (\<lambda>b. length b < 2 ^ 32) bs" by blast
    from lz4_step_frames [OF st(1)] obtain b where "blocks = lz4_frame b @ blocks'" "length b < 2 ^ 32" by blast
    with bs show ?thesis by (intro exI [of _ "b # bs"]) simp
  qed
qed

definition lz4_pixels :: "u8 \<Rightarrow> bool \<Rightarrow> nat \<Rightarrow> nat \<Rightarrow> bytes \<Rightarrow> bytes" where
  "lz4_pixels format top_down w n decoded =
     concat (map (converted format n) (ordered_rows top_down (chunks_exact (w * n) decoded)))"

lemma lz4_bpp_Some:
  assumes "lz4_bpp format = Some n"
  shows "n = chunk_bytes format" and "0 < n" and "n \<le> 4" and "n = 4 \<longleftrightarrow> format = LZ4_BIT32 \<or> format = LZ4_RGBA"
  using assms by (auto simp: lz4_bpp_def chunk_bytes_def lz4_formats split: if_splits)

lemma lz4_rgba:
  assumes bpp: "lz4_bpp format = Some n" and "0 < w" and len: "length decoded = h * (w * n)"
  shows "(if n = 4 then bgra_to_rgba_in_place decoded w (format = LZ4_RGBA) td
          else convert_rows format td w (w * n) (w * h * 4) decoded) = lz4_pixels format td w n decoded"
    and "length (lz4_pixels format td w n decoded) = w * h * 4"
proof -
  note b = lz4_bpp_Some [OF bpp]
  show "(if n = 4 then bgra_to_rgba_in_place decoded w (format = LZ4_RGBA) td
          else convert_rows format td w (w * n) (w * h * 4) decoded) = lz4_pixels format td w n decoded"
  proof (cases "n = 4")
    case True
    then have "(if format = LZ4_RGBA then LZ4_RGBA else LZ4_BIT32) = format" using b(4) by auto
    then show ?thesis using in_place_eq [of w decoded h format td] True assms by (simp add: lz4_pixels_def)
  next
    case False
    then show ?thesis using convert_rows_eq [OF assms(2) b(1) len] by (simp add: lz4_pixels_def)
  qed
  have pos: "0 < w * n" using assms(2) b(2) by simp
  have "list_all (\<lambda>r. length r = w * 4) (map (converted format n) (ordered_rows td (chunks_exact (w * n) decoded)))"
    using chunks_exact_spec [OF pos len] length_converted [OF b(2), of _ w format] by (auto simp: list_all_iff ordered_rows_def)
  from length_concat_rows [OF this] show "length (lz4_pixels format td w n decoded) = w * h * 4"
    using chunks_exact_spec [OF pos len] by (simp add: lz4_pixels_def ordered_rows_def)
qed

lemma decompress_spice_lz4_eq:
  assumes bpp: "lz4_bpp format = Some n" and dim: "rgba_len w h = Some sz"
  shows "decompress_spice_lz4 lz4 (td # format # blocks) w h =
    (if blocks = [] then Inl Lz4NoBlocks
     else bindE (lz4_loop lz4 blocks (replicate (w * n * h) 0) 0) (\<lambda>(decoded, pos).
       if pos \<noteq> length decoded then Inl Lz4SizeMismatch
       else case DecompressedImage_new (word_of_nat w) (word_of_nat h)
           (if n = 4 then bgra_to_rgba_in_place decoded w (format = LZ4_RGBA) (td \<noteq> 0)
            else convert_rows format (td \<noteq> 0) w (w * n) (w * h * 4) decoded) 0 of
         None \<Rightarrow> Inl Lz4ImageRefused | Some img \<Rightarrow> Inr img))"
proof -
  note b = lz4_bpp_Some [OF bpp]
  have d: "w \<le> 16384" "h \<le> 16384" "sz = w * h * 4" using dim by (auto simp: rgba_len_Some)
  have "w * n \<le> 16384 * 4" using d b by (intro mult_le_mono) simp_all
  moreover from this have "w * n * h \<le> (16384 * 4) * 16384" using d(2) by (rule mult_le_mono)
  ultimately have "checked_mul w n = Some (w * n)" "checked_mul (w * n) h = Some (w * n * h)"
    by (simp_all add: checked_mul_def USIZE_MAX_def)
  moreover have nth: "(td # format # blocks) ! 0 = td" "(td # format # blocks) ! 1 = format" "drop 2 (td # format # blocks) = blocks"
    by simp_all
  ultimately show ?thesis using bpp dim d(3) unfolding decompress_spice_lz4_def Let_def nth by simp
qed

lemma lz4_image:
  assumes bpp: "lz4_bpp format = Some n" and dim: "rgba_len w h = Some sz" and len: "length decoded = w * n * h"
  shows "DecompressedImage_new (word_of_nat w) (word_of_nat h)
      (if n = 4 then bgra_to_rgba_in_place decoded w (format = LZ4_RGBA) td
       else convert_rows format td w (w * n) (w * h * 4) decoded) 0
    = Some \<lparr>di_width = word_of_nat w, di_height = word_of_nat h, di_pixels = lz4_pixels format td w n decoded,
        di_image_id = 0, di_win_head_dist = 0\<rparr>"
proof -
  have d: "0 < w" "w \<le> 16384" "h \<le> 16384" "sz = w * h * 4" using dim by (auto simp: rgba_len_Some)
  have len': "length decoded = h * (w * n)" using len by (simp add: mult.commute)
  have "unat (word_of_nat w :: u32) = w" "unat (word_of_nat h :: u32) = h" using d by (simp_all add: unat_of_nat)
  then show ?thesis using lz4_rgba [OF bpp d(1) len', of td] dim d(4)
    by (simp only: DecompressedImage_new_def DecompressedImage_new_glz_def) simp
qed

text \<open>C13: The in-place conversion of 32-bit pixels, which swaps colours and then rows inside the decoded
  buffer, gives exactly what the row-wise conversion of the other formats gives into a fresh buffer,
  for every image of whole rows, with an even or odd number of them, top-down or bottom-up.\<close>

theorem lz4_in_place:
  assumes "format = LZ4_BIT32 \<or> format = LZ4_RGBA" and "0 < w" and "length pixels = h * (w * 4)"
  shows "bgra_to_rgba_in_place pixels w (format = LZ4_RGBA) top_down
    = convert_rows format top_down w (w * 4) (w * h * 4) pixels"
proof -
  have f: "(if format = LZ4_RGBA then LZ4_RGBA else LZ4_BIT32) = format" "4 = chunk_bytes format"
    using assms(1) by (auto simp: chunk_bytes_def)
  show ?thesis using in_place_eq [OF assms(2,3), of format top_down] convert_rows_eq [OF assms(2) f(2) assms(3)]
    unfolding f(1) by simp
qed

theorem lz4_in_place_witness:
  "bgra_to_rgba_in_place [1, 2, 3, 4, 5, 6, 7, 8, 9, 10, 11, 12] 1 True False
    = convert_rows LZ4_RGBA False 1 4 12 [1, 2, 3, 4, 5, 6, 7, 8, 9, 10, 11, 12]"
  using lz4_in_place [of LZ4_RGBA 1 "[1, 2, 3, 4, 5, 6, 7, 8, 9, 10, 11, 12]" 3 False] by simp

lemma lz4_contract_len: "lz4_contract lz4 dec \<Longrightarrow> lz4 block tail dict = Some (n, tail') \<Longrightarrow> n \<le> length tail'"
  using lz4_contractD [of lz4 dec block tail dict] by (auto split: option.splits if_splits)

lemma lz4_loop_no_panic:
  "lz4_contract lz4 dec \<Longrightarrow> pos \<le> length decoded \<Longrightarrow> lz4_loop lz4 blocks decoded pos \<noteq> Inl Lz4Panic"
proof (induction lz4 blocks decoded pos rule: lz4_loop.induct)
  case (1 lz4 blocks decoded pos)
  show ?case
  proof (cases "blocks = []")
    case False
    show ?thesis
    proof (cases "lz4_step lz4 blocks decoded pos")
      case (Inl e)
      then have "e \<noteq> Lz4Panic" using "1.prems" by (auto simp: lz4_step_def Let_def split: if_splits option.splits)
      with Inl False show ?thesis by (simp add: lz4_loop.simps)
    next
      case (Inr r)
      obtain blocks' decoded' pos' where r: "r = (blocks', decoded', pos')" by (cases r)
      then have "pos' \<le> length decoded'"
        using Inr "1.prems" lz4_contract_len [OF "1.prems"(1)] by (auto simp: lz4_step_def Let_def split: if_splits option.splits)
      from "1.IH" [OF False Inr r [symmetric] refl "1.prems"(1) this] show ?thesis using False Inr r by (simp add: lz4_loop.simps [of _ blocks])
    qed
  qed simp
qed

lemma lz4_accepts:
  assumes c: "lz4_contract lz4 dec" and bs: "bs \<noteq> []" "list_all (\<lambda>b. length b < 2 ^ 32) bs"
    and bpp: "lz4_bpp format = Some n" and dim: "rgba_len w h \<noteq> None"
    and dec: "lz4_decode_all dec (w * n * h) [] bs = Some decoded" "length decoded = w * n * h"
  shows "decompress_spice_lz4 lz4 (td # format # concat (map lz4_frame bs)) w h
    = Inr \<lparr>di_width = word_of_nat w, di_height = word_of_nat h,
           di_pixels = lz4_pixels format (td \<noteq> 0) w n decoded, di_image_id = 0, di_win_head_dist = 0\<rparr>"
proof -
  obtain sz where dim': "rgba_len w h = Some sz" using dim by blast
  have "lz4_loop lz4 (concat (map lz4_frame bs)) (replicate (w * n * h) 0) 0 = Inr (decoded, length decoded)"
    using lz4_loop_frames [OF c bs(2), of "[]" "replicate (w * n * h) 0" "w * n * h"] dec by simp
  moreover have "concat (map lz4_frame bs) \<noteq> []" using bs(1) lz4_frame_nonempty by (cases bs) simp_all
  ultimately show ?thesis
    unfolding decompress_spice_lz4_eq [OF bpp dim'] using lz4_image [OF bpp dim' dec(2), of "td \<noteq> 0"]
    by (simp add: bindE_def)
qed

lemma lz4_accepted:
  assumes c: "lz4_contract lz4 dec" and ok: "decompress_spice_lz4 lz4 data w h = Inr img"
  shows "\<exists>td format n bs decoded. data = td # format # concat (map lz4_frame bs) \<and> bs \<noteq> []
       \<and> list_all (\<lambda>b. length b < 2 ^ 32) bs \<and> lz4_bpp format = Some n \<and> rgba_len w h \<noteq> None
       \<and> lz4_decode_all dec (w * n * h) [] bs = Some decoded \<and> length decoded = w * n * h
       \<and> img = \<lparr>di_width = word_of_nat w, di_height = word_of_nat h,
           di_pixels = lz4_pixels format (td \<noteq> 0) w n decoded, di_image_id = 0, di_win_head_dist = 0\<rparr>"
proof -
  have "2 \<le> length data" using ok by (simp add: decompress_spice_lz4_def split: if_splits)
  then obtain td format blocks where data: "data = td # format # blocks"
    by (metis Suc_le_length_iff numeral_2_eq_2)
  obtain n sz where bpp: "lz4_bpp format = Some n" and dim: "rgba_len w h = Some sz"
    using ok by (auto simp: decompress_spice_lz4_def data Let_def split: option.splits)
  note ok' = ok [unfolded data decompress_spice_lz4_eq [OF bpp dim]]
  then obtain d pos where loop: "lz4_loop lz4 blocks (replicate (w * n * h) 0) 0 = Inr (d, pos)" and ne: "blocks \<noteq> []"
    and pos: "pos = length d"
    by (auto simp: bindE_def split: if_splits sum.splits)
  from lz4_loop_framed [OF loop] obtain bs where
    bs: "blocks = concat (map lz4_frame bs)" "list_all (\<lambda>b. length b < 2 ^ 32) bs" by blast
  have "lz4_decode_all dec (w * n * h) [] bs = Some d \<and> length d = w * n * h"
    using lz4_loop_frames [OF c bs(2), of "[]" "replicate (w * n * h) 0" "w * n * h"] loop [unfolded bs(1)] pos
    by (auto split: option.splits)
  moreover from this have "img = \<lparr>di_width = word_of_nat w, di_height = word_of_nat h,
           di_pixels = lz4_pixels format (td \<noteq> 0) w n d, di_image_id = 0, di_win_head_dist = 0\<rparr>"
    using ok' loop ne pos lz4_image [OF bpp dim, of d "td \<noteq> 0"] by (simp add: bindE_def)
  moreover have "bs \<noteq> []" using ne bs(1) by auto
  ultimately show ?thesis using data bs bpp dim by blast
qed

text \<open>C12: All or nothing: whatever the bytes, the decoder returns an image exactly when they are a
  known format's header and one or more framed blocks whose decodings, each against the last 64 KiB
  of output before it, fill the image to the byte with no block after that; and then the image's
  pixels are the decoded rows in display order, each pixel converted from its format. No input
  makes it panic. The block decompressor is \<open>lz4_flex\<close>, of which only its documented contract is used.\<close>

theorem lz4_decodes:
  assumes "lz4_contract lz4 dec"
  shows "decompress_spice_lz4 lz4 data w h \<noteq> Inl Lz4Panic
    \<and> (decompress_spice_lz4 lz4 data w h = Inr img \<longleftrightarrow>
    (\<exists>td format n bs decoded. data = td # format # concat (map lz4_frame bs) \<and> bs \<noteq> []
       \<and> list_all (\<lambda>b. length b < 2 ^ 32) bs \<and> lz4_bpp format = Some n \<and> rgba_len w h \<noteq> None
       \<and> lz4_decode_all dec (w * n * h) [] bs = Some decoded \<and> length decoded = w * n * h
       \<and> img = \<lparr>di_width = word_of_nat w, di_height = word_of_nat h,
           di_pixels = lz4_pixels format (td \<noteq> 0) w n decoded, di_image_id = 0, di_win_head_dist = 0\<rparr>))"
proof (intro conjI iffI)
  show "decompress_spice_lz4 lz4 data w h \<noteq> Inl Lz4Panic"
    using lz4_loop_no_panic [OF assms, of 0]
    by (auto simp: decompress_spice_lz4_def Let_def bindE_def split: option.splits sum.splits if_splits)
next
  assume "\<exists>td format n bs decoded. data = td # format # concat (map lz4_frame bs) \<and> bs \<noteq> []
       \<and> list_all (\<lambda>b. length b < 2 ^ 32) bs \<and> lz4_bpp format = Some n \<and> rgba_len w h \<noteq> None
       \<and> lz4_decode_all dec (w * n * h) [] bs = Some decoded \<and> length decoded = w * n * h
       \<and> img = \<lparr>di_width = word_of_nat w, di_height = word_of_nat h,
           di_pixels = lz4_pixels format (td \<noteq> 0) w n decoded, di_image_id = 0, di_win_head_dist = 0\<rparr>"
  then show "decompress_spice_lz4 lz4 data w h = Inr img"
    using lz4_accepts [OF assms] by blast
next
  assume "decompress_spice_lz4 lz4 data w h = Inr img"
  then show "\<exists>td format n bs decoded. data = td # format # concat (map lz4_frame bs) \<and> bs \<noteq> []
       \<and> list_all (\<lambda>b. length b < 2 ^ 32) bs \<and> lz4_bpp format = Some n \<and> rgba_len w h \<noteq> None
       \<and> lz4_decode_all dec (w * n * h) [] bs = Some decoded \<and> length decoded = w * n * h
       \<and> img = \<lparr>di_width = word_of_nat w, di_height = word_of_nat h,
           di_pixels = lz4_pixels format (td \<noteq> 0) w n decoded, di_image_id = 0, di_win_head_dist = 0\<rparr>"
    by (rule lz4_accepted [OF assms])
qed

text \<open>A decompressor of the blocks that are one short literal run, the token's high nibble its length.\<close>

definition literal_block :: "bytes \<Rightarrow> bytes \<Rightarrow> bytes option" where
  "literal_block block dict =
     (case block of
        [] \<Rightarrow> None
      | token # lits \<Rightarrow> if unat (drop_bit 4 token) = length lits \<and> length lits < 15 then Some lits else None)"

definition literal_lz4 :: lz4_block where
  "literal_lz4 block tail dict =
     (case literal_block block dict of
        None \<Rightarrow> None
      | Some out \<Rightarrow> if length out \<le> length tail then Some (length out, out @ drop (length out) tail) else None)"

lemma literal_lz4_contract: "lz4_contract literal_lz4 literal_block"
  by (auto simp: lz4_contract_def literal_lz4_def split: option.splits)

theorem lz4_decodes_witness:
  "decompress_spice_lz4 literal_lz4 [0, 7, 0, 0, 0, 4, 0x30, 1, 2, 3, 0, 0, 0, 4, 0x30, 4, 5, 6] 1 2
    = Inr \<lparr>di_width = 1, di_height = 2, di_pixels = [6, 5, 4, 255, 3, 2, 1, 255], di_image_id = 0, di_win_head_dist = 0\<rparr>"
proof -
  let ?bs = "[[0x30, 1, 2, 3], [0x30, 4, 5, 6]] :: bytes list" and ?img = "\<lparr>di_width = word_of_nat 1, di_height = word_of_nat 2,
    di_pixels = lz4_pixels LZ4_BIT24 ((0 :: u8) \<noteq> 0) 1 3 [1, 2, 3, 4, 5, 6], di_image_id = 0, di_win_head_dist = 0\<rparr>"
  have len: "rev (u32_le (word_of_nat 4)) = [0, 0, 0, 4]" by code_simp
  have data: "[0, 7, 0, 0, 0, 4, 0x30, 1, 2, 3, 0, 0, 0, 4, 0x30, 4, 5, 6] = 0 # LZ4_BIT24 # concat (map lz4_frame ?bs)"
    using len by (simp add: lz4_frame_def LZ4_BIT24_def)
  have "lz4_decode_all literal_block (1 * 3 * 2) [] ?bs = Some [1, 2, 3, 4, 5, 6]"
    by (simp add: literal_block_def LZ4_MAX_DISTANCE_def)
  moreover have "lz4_bpp LZ4_BIT24 = Some 3" by (simp add: lz4_bpp_def)
  moreover have "rgba_len 1 2 \<noteq> None" by (simp add: rgba_len_def Let_def MAX_IMAGE_DIMENSION_def MAX_IMAGE_PIXELS_def)
  moreover have "list_all (\<lambda>b. length b < 2 ^ 32) ?bs" "length [1, 2, 3, 4, 5, 6 :: u8] = 1 * 3 * 2" by simp_all
  ultimately have "\<exists>td format n bs decoded. 0 # LZ4_BIT24 # concat (map lz4_frame ?bs) = td # format # concat (map lz4_frame bs) \<and> bs \<noteq> []
       \<and> list_all (\<lambda>b. length b < 2 ^ 32) bs \<and> lz4_bpp format = Some n \<and> rgba_len 1 2 \<noteq> None
       \<and> lz4_decode_all literal_block (1 * n * 2) [] bs = Some decoded \<and> length decoded = 1 * n * 2
       \<and> ?img = \<lparr>di_width = word_of_nat 1, di_height = word_of_nat 2,
           di_pixels = lz4_pixels format (td \<noteq> 0) 1 n decoded, di_image_id = 0, di_win_head_dist = 0\<rparr>"
    by (intro exI conjI) (rule refl | assumption | rule list.distinct(2))+
  then have "decompress_spice_lz4 literal_lz4 [0, 7, 0, 0, 0, 4, 0x30, 1, 2, 3, 0, 0, 0, 4, 0x30, 4, 5, 6] 1 2 = Inr ?img"
    unfolding data by (rule lz4_decodes [OF literal_lz4_contract, THEN conjunct2, THEN iffD2])
  moreover have "lz4_pixels LZ4_BIT24 ((0 :: u8) \<noteq> 0) 1 3 [1, 2, 3, 4, 5, 6] = [6, 5, 4, 255, 3, 2, 1, 255]"
    by (simp add: lz4_pixels_def ordered_rows_def converted_def convert_pixel_def chunks_exact.simps)
  ultimately show ?thesis by simp
qed

end
