(* ===== verification/Quic_Bits.thy ===== *)
theory Quic_Bits
  imports Image
begin

unbundle bit_operations_syntax

text \<open>
  The bit-level part of the QUIC decoder (\<open>shakenfist-spice-compression/src/quic.rs\<close>): its tables, the
  Golomb-Rice code families and their decoding, and the bit reader over 32-bit little-endian words.

  A Rust panic is the error \<open>QuicPanic\<close>, a loop that does not return is \<open>QuicDiverges\<close>, and a decode that
  returns \<open>false\<close> or \<open>None\<close> is \<open>QuicFailed\<close>. Every index into a table or vector goes through \<open>qnth\<close> or
  \<open>qset\<close>, every shift by a computed amount through \<open>qshl\<close> or \<open>qshr\<close>, and every subtraction that could
  go below zero through \<open>qsub\<close>; they panic out of range. Lengths of codes and runs are \<open>nat\<close>.
\<close>

section \<open>Panics\<close>

datatype quic_error = QuicFailed | QuicPanic | QuicDiverges

definition qnth :: "'a list \<Rightarrow> nat \<Rightarrow> quic_error + 'a" where
  "qnth xs i = (if i < length xs then Inr (xs ! i) else Inl QuicPanic)"

definition qset :: "'a list \<Rightarrow> nat \<Rightarrow> 'a \<Rightarrow> quic_error + 'a list" where
  "qset xs i v = (if i < length xs then Inr (xs[i := v]) else Inl QuicPanic)"

definition qshl :: "u32 \<Rightarrow> nat \<Rightarrow> quic_error + u32" where
  "qshl w n = (if n < 32 then Inr (push_bit n w) else Inl QuicPanic)"

definition qshr :: "u32 \<Rightarrow> nat \<Rightarrow> quic_error + u32" where
  "qshr w n = (if n < 32 then Inr (drop_bit n w) else Inl QuicPanic)"

definition qsub :: "nat \<Rightarrow> nat \<Rightarrow> quic_error + nat" where
  "qsub a b = (if b \<le> a then Inr (a - b) else Inl QuicPanic)"

text \<open>A \<open>for\<close> loop over indices that an error ends.\<close>

primrec qfor :: "nat list \<Rightarrow> (nat \<Rightarrow> 's \<Rightarrow> quic_error + 's) \<Rightarrow> 's \<Rightarrow> quic_error + 's" where
  "qfor [] body s = Inr s"
| "qfor (i # is) body s = bindE (body i s) (qfor is body)"

text \<open>
  A computation that neither panics nor diverges, and whose result, if any, satisfies \<open>Q\<close>, with one rule
  for each way computations are put together.
\<close>

definition safe :: "quic_error + 'a \<Rightarrow> ('a \<Rightarrow> bool) \<Rightarrow> bool" where
  "safe r Q = (case r of Inl e \<Rightarrow> e = QuicFailed | Inr v \<Rightarrow> Q v)"

lemma safe_simps [simp]: "safe (Inl QuicFailed) Q" "safe (Inr v) Q \<longleftrightarrow> Q v" "\<not> safe (Inl QuicPanic) Q" "\<not> safe (Inl QuicDiverges) Q"
  by (simp_all add: safe_def)

lemma safe_bind: "safe r P \<Longrightarrow> (\<And>v. r = Inr v \<Longrightarrow> P v \<Longrightarrow> safe (f v) Q) \<Longrightarrow> safe (bindE r f) Q"
  by (cases r) (simp_all add: safe_def bindE_def)

lemma safe_mono: "safe r P \<Longrightarrow> (\<And>v. P v \<Longrightarrow> Q v) \<Longrightarrow> safe r Q"
  by (cases r) (simp_all add: safe_def)

lemma safe_InrD: "safe r P \<Longrightarrow> r = Inr v \<Longrightarrow> P v"
  by (simp add: safe_def)

lemma safe_conj: "safe r P \<Longrightarrow> (\<And>v. r = Inr v \<Longrightarrow> Q v) \<Longrightarrow> safe r (\<lambda>v. P v \<and> Q v)"
  by (cases r) (simp_all add: safe_def)

lemma safe_qnth: "i < length xs \<Longrightarrow> Q (xs ! i) \<Longrightarrow> safe (qnth xs i) Q"
  by (simp add: qnth_def)

lemma safe_qset: "i < length xs \<Longrightarrow> Q (xs[i := v]) \<Longrightarrow> safe (qset xs i v) Q"
  by (simp add: qset_def)

lemma safe_qfor:
  assumes "\<And>i s. i \<in> set is \<Longrightarrow> P s \<Longrightarrow> safe (body i s) P"
  shows "P s \<Longrightarrow> safe (qfor is body s) P"
  using assms
proof (induction "is" arbitrary: s)
  case (Cons i "is")
  show ?case
    by (simp, rule safe_bind [where P = P]) (use Cons in auto)
qed simp

lemma bindE_cong [fundef_cong]:
  "r = r' \<Longrightarrow> (\<And>v. r' = Inr v \<Longrightarrow> f v = g v) \<Longrightarrow> bindE r f = bindE r' g"
  by (cases r') (simp_all add: bindE_def)

section \<open>Tables\<close>

definition DEFEVOL :: nat where "DEFEVOL = 3"
definition DEFWMIMAX :: nat where "DEFWMIMAX = 6"
definition DEFWMINEXT :: nat where "DEFWMINEXT = 2048"
definition DEFMAXCLEN :: nat where "DEFMAXCLEN = 26"

definition BPPMASK :: "u32 list" where
  "BPPMASK = [0x00000000, 0x00000001, 0x00000003, 0x00000007, 0x0000000f, 0x0000001f, 0x0000003f, 0x0000007f,
     0x000000ff, 0x000001ff, 0x000003ff, 0x000007ff, 0x00000fff, 0x00001fff, 0x00003fff, 0x00007fff,
     0x0000ffff, 0x0001ffff, 0x0003ffff, 0x0007ffff, 0x000fffff, 0x001fffff, 0x003fffff, 0x007fffff,
     0x00ffffff, 0x01ffffff, 0x03ffffff, 0x07ffffff, 0x0fffffff, 0x1fffffff, 0x3fffffff, 0x7fffffff,
     0xffffffff]"

definition BESTTRIGTAB :: "u32 list list" where
  "BESTTRIGTAB =
     [[550, 900, 800, 700, 500, 350, 300, 200, 180, 180, 160],
      [110, 550, 900, 800, 550, 400, 350, 250, 140, 160, 140],
      [100, 120, 550, 900, 700, 500, 400, 300, 220, 250, 160]]"

definition MELCSTATES :: nat where "MELCSTATES = 32"

definition J :: "nat list" where
  "J = [0, 0, 0, 0, 1, 1, 1, 1, 2, 2, 2, 2, 3, 3, 3, 3, 4, 4, 5, 5, 6, 6, 7, 7, 8, 9, 10, 11, 12, 13, 14, 15]"

definition LZEROES :: "nat list" where
  "LZEROES = [8, 7, 6, 6, 5, 5, 5, 5, 4, 4, 4, 4, 4, 4, 4, 4, 3, 3, 3, 3, 3, 3, 3, 3, 3, 3, 3, 3, 3, 3, 3, 3,
     2, 2, 2, 2, 2, 2, 2, 2, 2, 2, 2, 2, 2, 2, 2, 2, 2, 2, 2, 2, 2, 2, 2, 2, 2, 2, 2, 2, 2, 2, 2, 2,
     1, 1, 1, 1, 1, 1, 1, 1, 1, 1, 1, 1, 1, 1, 1, 1, 1, 1, 1, 1, 1, 1, 1, 1, 1, 1, 1, 1, 1, 1, 1, 1,
     1, 1, 1, 1, 1, 1, 1, 1, 1, 1, 1, 1, 1, 1, 1, 1, 1, 1, 1, 1, 1, 1, 1, 1, 1, 1, 1, 1, 1, 1, 1, 1,
     0, 0, 0, 0, 0, 0, 0, 0, 0, 0, 0, 0, 0, 0, 0, 0, 0, 0, 0, 0, 0, 0, 0, 0, 0, 0, 0, 0, 0, 0, 0, 0,
     0, 0, 0, 0, 0, 0, 0, 0, 0, 0, 0, 0, 0, 0, 0, 0, 0, 0, 0, 0, 0, 0, 0, 0, 0, 0, 0, 0, 0, 0, 0, 0,
     0, 0, 0, 0, 0, 0, 0, 0, 0, 0, 0, 0, 0, 0, 0, 0, 0, 0, 0, 0, 0, 0, 0, 0, 0, 0, 0, 0, 0, 0, 0, 0,
     0, 0, 0, 0, 0, 0, 0, 0, 0, 0, 0, 0, 0, 0, 0, 0, 0, 0, 0, 0, 0, 0, 0, 0, 0, 0, 0, 0, 0, 0, 0, 0]"

definition TABRAND_CHAOS :: "u32 list" where
  "TABRAND_CHAOS = [0x02c57542, 0x35427717, 0x2f5a2153, 0x9244f155, 0x7bd26d07, 0x354c6052, 0x57329b28, 0x2993868e,
     0x6cd8808c, 0x147b46e0, 0x99db66af, 0xe32b4cac, 0x1b671264, 0x9d433486, 0x62a4c192, 0x06089a4b,
     0x9e3dce44, 0xdaabee13, 0x222425ea, 0xa46f331d, 0xcd589250, 0x8bb81d7f, 0xc8b736b9, 0x35948d33,
     0xd7ac7fd0, 0x5fbe2803, 0x2cfbc105, 0x013dbc4e, 0x7a37820f, 0x39f88e9e, 0xedd58794, 0xc5076689,
     0xfcada5a4, 0x64c2f46d, 0xb3ba3243, 0x8974b4f9, 0x5a05aebd, 0x20afcd00, 0x39e2b008, 0x88a18a45,
     0x600bde29, 0xf3971ace, 0xf37b0a6b, 0x7041495b, 0x70b707ab, 0x06beffbb, 0x4206051f, 0xe13c4ee3,
     0xc1a78327, 0x91aa067c, 0x8295f72a, 0x732917a6, 0x1d871b4d, 0x4048f136, 0xf1840e7e, 0x6a6048c1,
     0x696cb71a, 0x7ff501c3, 0x0fc6310b, 0x57e0f83d, 0x8cc26e74, 0x11a525a2, 0x946934c7, 0x7cd888f0,
     0x8f9d8604, 0x4f86e73b, 0x04520316, 0xdeeea20c, 0xf1def496, 0x67687288, 0xf540c5b2, 0x22401484,
     0x3478658a, 0xc2385746, 0x01979c2c, 0x5dad73c8, 0x0321f58b, 0xf0fedbee, 0x92826ddf, 0x284bec73,
     0x5b1a1975, 0x03df1e11, 0x20963e01, 0xa17cf12b, 0x740d776e, 0xa7a6bf3c, 0x01b5cce4, 0x1118aa76,
     0xfc6fac0a, 0xce927e9b, 0x00bf2567, 0x806f216c, 0xbca69056, 0x795bd3e9, 0xc9dc4557, 0x8929b6c2,
     0x789d52ec, 0x3f3fbf40, 0xb9197368, 0xa38c15b5, 0xc3b44fa8, 0xca8333b0, 0xb7e8d590, 0xbe807feb,
     0xbf5f8360, 0xd99e2f5c, 0x372928e1, 0x7c757c4c, 0x0db5b154, 0xc01ede02, 0x1fc86e78, 0x1f3985be,
     0xb4805c77, 0x00c880fa, 0x974c1b12, 0x35ab0214, 0xb2dc840d, 0x5b00ae37, 0xd313b026, 0xb260969d,
     0x7f4c8879, 0x1734c4d3, 0x49068631, 0xb9f6a021, 0x6b863e6f, 0xcee5debf, 0x29f8c9fb, 0x53dd6880,
     0x72b61223, 0x1f67a9fd, 0x0a0f6993, 0x13e59119, 0x11cca12e, 0xfe6b6766, 0x16b6effc, 0x97918fc4,
     0xc2b8a563, 0x94f2f741, 0x0bfa8c9a, 0xd1537ae8, 0xc1da349c, 0x873c60ca, 0x95005b85, 0x9b5c080e,
     0xbc8abbd9, 0xe1eab1d2, 0x6dac9070, 0x4ea9ebf1, 0xe0cf30d4, 0x1ef5bd7b, 0xd161043e, 0x5d2fa2e2,
     0xff5d3cae, 0x86ed9f87, 0x2aa1daa1, 0xbd731a34, 0x9e8f4b22, 0xb1c2c67a, 0xc21758c9, 0xa182215d,
     0xccb01948, 0x8d168df7, 0x04238cfe, 0x368c3dbc, 0x0aeadca5, 0xbad21c24, 0x0a71fee5, 0x9fc5d872,
     0x54c152c6, 0xfc329483, 0x6783384a, 0xeddb3e1c, 0x65f90e30, 0x884ad098, 0xce81675a, 0x4b372f7d,
     0x68bf9a39, 0x43445f1e, 0x40f8d8cb, 0x90d5acb6, 0x4cd07282, 0x349eeb06, 0x0c9d5332, 0x520b24ef,
     0x80020447, 0x67976491, 0x2f931ca3, 0xfe9b0535, 0xfcd30220, 0x61a9e6cc, 0xa487d8d7, 0x3f7c5dd1,
     0x7d0127c5, 0x48f51d15, 0x60dea871, 0xc9a91cb7, 0x58b53bb3, 0x9d5e0b2d, 0x624a78b4, 0x30dbee1b,
     0x9bdf22e7, 0x1df5c299, 0x2d5643a7, 0xf4dd35ff, 0x03ca8fd6, 0x53b47ed8, 0x6f2c19aa, 0xfeb0c1f4,
     0x49e54438, 0x2f2577e6, 0xbf876969, 0x72440ea9, 0xfa0bafb8, 0x74f5b3a0, 0x7dd357cd, 0x89ce1358,
     0x6ef2cdda, 0x1e7767f3, 0xa6be9fdb, 0x4f5f88f8, 0xba994a3a, 0x08ca6b65, 0xe0893818, 0x9e00a16a,
     0xf42bfc8f, 0x9972eedc, 0x749c8b51, 0x32c05f5e, 0xd706805f, 0x6bfbb7cf, 0xd9210a10, 0x31a1db97,
     0x923a9559, 0x37a7a1f6, 0x059f8861, 0xca493e62, 0x65157e81, 0x8f6467dd, 0xab85ff9f, 0x9331aff2,
     0x8616b9f5, 0xedbd5695, 0xee7e29b1, 0x313ac44f, 0xb903112f, 0x432ef649, 0xdc0a36c0, 0x61cf2bba,
     0x81474925, 0xa8b6c7ad, 0xee5931de, 0xb2f8158d, 0x59fb7409, 0x2e3dfaed, 0x9af25a3f, 0xe1fed4d5]"

section \<open>Code families\<close>

record family =
  n_gr_codewords :: "u32 list"
  not_gr_cw_len :: "u32 list"
  not_gr_prefix_mask :: "u32 list"
  not_gr_suffix_len :: "u32 list"
  xlat_u2l :: "u32 list"
  xlat_l2u :: "u32 list"

definition Family_new :: family where
  "Family_new = \<lparr>n_gr_codewords = replicate 8 0, not_gr_cw_len = replicate 8 0, not_gr_prefix_mask = replicate 8 0,
     not_gr_suffix_len = replicate 8 0, xlat_u2l = [], xlat_l2u = []\<rparr>"

lemma drop_bit_1_less: "(w :: u32) \<noteq> 0 \<Longrightarrow> unat (drop_bit (Suc 0) w) < unat w"
proof -
  assume "w \<noteq> 0"
  then have "0 < unat w" by (simp add: unat_gt_0)
  then show ?thesis by (simp add: drop_bit_eq_div unat_div)
qed

function ceil_log_2_loop :: "u32 \<Rightarrow> u32 \<Rightarrow> u32" where
  "ceil_log_2_loop val result =
     (if val = 0 then result
      else let val = drop_bit 1 val in ceil_log_2_loop val (if val \<noteq> 0 then result + 1 else result))"
  by pat_completeness auto

termination
  by (relation "measure (unat \<circ> fst)") (simp_all add: drop_bit_1_less)

definition ceil_log_2 :: "u32 \<Rightarrow> u32" where
  "ceil_log_2 val = (if val = 1 then 0 else ceil_log_2_loop (val - 1) 1)"

text \<open>The calls have constant arguments, so the table indices of the initialisation are constants too.\<close>

definition family_init_code :: "nat \<Rightarrow> nat \<Rightarrow> nat \<Rightarrow> family \<Rightarrow> family" where
  "family_init_code bpc limit l f =
     (let altprefixlen = word_of_nat (limit - bpc);
          altprefixlen = (if altprefixlen > BPPMASK ! (bpc - l) then BPPMASK ! (bpc - l) else altprefixlen);
          altcodewords = BPPMASK ! bpc + 1 - push_bit l altprefixlen in
      f\<lparr>n_gr_codewords := (n_gr_codewords f)[l := push_bit l altprefixlen],
        not_gr_cw_len := (not_gr_cw_len f)[l := altprefixlen + ceil_log_2 altcodewords],
        not_gr_prefix_mask := (not_gr_prefix_mask f)[l := BPPMASK ! (32 - unat altprefixlen)],
        not_gr_suffix_len := (not_gr_suffix_len f)[l := ceil_log_2 altcodewords]\<rparr>)"

definition xlat_u2l_of :: "u32 \<Rightarrow> u32 \<Rightarrow> u32" where
  "xlat_u2l_of pixelbitmask s =
     (if s \<le> drop_bit 1 pixelbitmask then push_bit 1 s else push_bit 1 (pixelbitmask - s) + 1)"

definition xlat_l2u_of :: "u32 \<Rightarrow> u32 \<Rightarrow> u32" where
  "xlat_l2u_of pixelbitmask s =
     (if s AND 1 = 1 then pixelbitmask - drop_bit 1 s else drop_bit 1 s)"

definition family_init :: "family \<Rightarrow> nat \<Rightarrow> nat \<Rightarrow> family" where
  "family_init f bpc limit =
     (let f = fold (family_init_code bpc limit) [0..<bpc] f;
          pixelbitmask = BPPMASK ! bpc; ss = map word_of_nat [0..<Suc (unat pixelbitmask)] in
      f\<lparr>xlat_u2l := map (xlat_u2l_of pixelbitmask) ss, xlat_l2u := map (xlat_l2u_of pixelbitmask) ss\<rparr>)"

definition family_8bpc :: family where
  "family_8bpc = family_init Family_new 8 DEFMAXCLEN"

section \<open>Golomb-Rice codes\<close>

definition cnt_l_zeroes :: "u32 \<Rightarrow> quic_error + nat" where
  "cnt_l_zeroes bits =
     (if bits AND 0xff800000 \<noteq> 0 then qnth LZEROES (unat (drop_bit 24 bits))
      else if bits AND 0xffff8000 \<noteq> 0 then
        bindE (qnth LZEROES (unat (drop_bit 16 bits AND 0xff))) (\<lambda>z. Inr (8 + z))
      else if bits AND 0xffffff80 \<noteq> 0 then
        bindE (qnth LZEROES (unat (drop_bit 8 bits AND 0xff))) (\<lambda>z. Inr (16 + z))
      else bindE (qnth LZEROES (unat (bits AND 0xff))) (\<lambda>z. Inr (24 + z)))"

text \<open>The top \<open>cwlen\<close> bits of the window; \<open>32 - cwlen\<close> must not go below zero.\<close>

definition code_word :: "u32 \<Rightarrow> nat \<Rightarrow> quic_error + u32" where
  "code_word bits cwlen = (if cwlen \<le> 32 then qshr bits (32 - cwlen) else Inl QuicPanic)"

definition golomb_decoding_8bpc :: "nat \<Rightarrow> u32 \<Rightarrow> family \<Rightarrow> quic_error + (nat \<times> u32)" where
  "golomb_decoding_8bpc l bits fam =
     bindE (qnth (not_gr_prefix_mask fam) l) (\<lambda>prefix_mask.
     if sint bits < 0 \<or> bits > prefix_mask then
       bindE (cnt_l_zeroes bits) (\<lambda>zeroprefix.
       let cwlen = zeroprefix + 1 + l in
       bindE (qshl (word_of_nat zeroprefix) l) (\<lambda>high.
       bindE (code_word bits cwlen) (\<lambda>low.
       bindE (qnth BPPMASK l) (\<lambda>mask.
         Inr (cwlen, (high OR (low AND mask)) AND 0xff)))))
     else
       bindE (qnth (not_gr_cw_len fam) l) (\<lambda>cwlen.
       bindE (qnth (n_gr_codewords fam) l) (\<lambda>first.
       bindE (code_word bits (unat cwlen)) (\<lambda>low.
       bindE (qnth (not_gr_suffix_len fam) l) (\<lambda>suffix.
       bindE (qnth BPPMASK (unat suffix)) (\<lambda>mask.
         Inr (unat cwlen, (first + (low AND mask)) AND 0xff)))))))"

definition golomb_code_len_8bpc :: "u32 \<Rightarrow> nat \<Rightarrow> family \<Rightarrow> quic_error + u32" where
  "golomb_code_len_8bpc n l fam =
     bindE (qnth (n_gr_codewords fam) l) (\<lambda>first.
     if n < first then bindE (qshr n l) (\<lambda>q. Inr (q + 1 + word_of_nat l))
     else qnth (not_gr_cw_len fam) l)"

section \<open>The bit reader\<close>

record quic_io =
  io_idx :: nat
  io_available_bits :: nat
  io_word :: u32
  io_next_word :: u32
  io_now :: bytes
  io_end :: nat

definition word_at :: "bytes \<Rightarrow> nat \<Rightarrow> u32" where
  "word_at now i = ucast (now ! i) OR push_bit 8 (ucast (now ! (i + 1)))
     OR push_bit 16 (ucast (now ! (i + 2))) OR push_bit 24 (ucast (now ! (i + 3)))"

definition read_io_word :: "'a quic_io_scheme \<Rightarrow> quic_error + 'a quic_io_scheme" where
  "read_io_word d =
     (if io_idx d + 4 > io_end d then Inl QuicFailed
      else if io_idx d + 4 > length (io_now d) then Inl QuicPanic
      else Inr (d\<lparr>io_next_word := word_at (io_now d) (io_idx d), io_idx := io_idx d + 4\<rparr>))"

definition decode_eatbits :: "nat \<Rightarrow> 'a quic_io_scheme \<Rightarrow> quic_error + 'a quic_io_scheme" where
  "decode_eatbits len d =
     bindE (qshl (io_word d) len) (\<lambda>w.
     if io_available_bits d \<ge> len then
       let available = io_available_bits d - len in
       bindE (qshr (io_next_word d) available) (\<lambda>n.
         Inr (d\<lparr>io_available_bits := available, io_word := w OR n\<rparr>))
     else
       let delta = len - io_available_bits d in
       bindE (qshl (io_next_word d) delta) (\<lambda>n.
       bindE (read_io_word d) (\<lambda>d.
       let available = 32 - delta in
       bindE (qshr (io_next_word d) available) (\<lambda>n'.
         Inr (d\<lparr>io_available_bits := available, io_word := w OR n OR n'\<rparr>)))))"

definition decode_eat32bits :: "'a quic_io_scheme \<Rightarrow> quic_error + 'a quic_io_scheme" where
  "decode_eat32bits d = bindE (decode_eatbits 16 d) (decode_eatbits 16)"

section \<open>The reader is a window on the bit stream\<close>

text \<open>Bit \<open>p\<close> of the stream: its 32-bit words in order, each from its most significant bit down.\<close>

definition stream_bit :: "bytes \<Rightarrow> nat \<Rightarrow> bool" where
  "stream_bit now p = bit (word_at now (4 * (p div 32))) (31 - p mod 32)"

definition at_bit :: "'a quic_io_scheme \<Rightarrow> nat \<Rightarrow> bool" where
  "at_bit d p \<longleftrightarrow> io_end d = length (io_now d) \<and> io_available_bits d < 32
     \<and> 8 * io_idx d = p + 32 + io_available_bits d \<and> 4 dvd io_idx d \<and> io_idx d \<le> io_end d
     \<and> io_next_word d = word_at (io_now d) (io_idx d - 4)
     \<and> (\<forall>j<32. bit (io_word d) (31 - j) = stream_bit (io_now d) (p + j))"

lemma stream_bit_word:
  assumes "o' < 32"
  shows "stream_bit now (32 * m + o') = bit (word_at now (4 * m)) (31 - o')"
  using assms by (simp add: stream_bit_def)

lemma at_bit_word_eq:
  assumes "at_bit d p" and "j < 32"
  shows "bit (io_word d) (31 - j) = stream_bit (io_now d) (p + j)"
  using assms by (simp add: at_bit_def)

lemma at_bitE:
  assumes "at_bit d p"
  obtains k where "io_idx d = 4 * Suc k" "p + io_available_bits d = 32 * k" "io_next_word d = word_at (io_now d) (4 * k)"
proof -
  from assms obtain m where m: "io_idx d = 4 * m" by (auto simp: at_bit_def)
  with assms have "8 * (4 * m) = p + 32 + io_available_bits d" by (simp add: at_bit_def)
  then have "0 < m" by (cases m) auto
  then obtain k where k: "m = Suc k" by (cases m) auto
  show ?thesis
  proof (rule that)
    show "io_idx d = 4 * Suc k" using m k by simp
    show "p + io_available_bits d = 32 * k" "io_next_word d = word_at (io_now d) (4 * k)"
      using assms m k by (simp_all add: at_bit_def)
  qed
qed

lemma eatbits_available:
  assumes at: "at_bit d p" and len: "len \<le> io_available_bits d"
  shows "\<exists>d'. decode_eatbits len d = Inr d' \<and> at_bit d' (p + len) \<and> io_now d' = io_now d"
proof -
  obtain k where k: "io_idx d = 4 * Suc k" "p + io_available_bits d = 32 * k" "io_next_word d = word_at (io_now d) (4 * k)"
    using at by (rule at_bitE)
  define a where "a = io_available_bits d - len"
  have lt: "len < 32" "a < 32" "io_available_bits d = a + len" using at len by (auto simp: at_bit_def a_def)
  let ?w = "push_bit len (io_word d) OR drop_bit a (io_next_word d)"
  have bits: "bit ?w (31 - j) = stream_bit (io_now d) (p + len + j)" if j: "j < 32" for j
  proof -
    have low: "bit (push_bit len (io_word d)) (31 - j) = stream_bit (io_now d) (p + len + j)" if "j + len < 32"
    proof -
      have "bit (push_bit len (io_word d)) (31 - j) = bit (io_word d) (31 - (j + len))"
        using that by (auto simp: bit_push_bit_iff)
      also have "\<dots> = stream_bit (io_now d) (p + (j + len))" using that by (rule at_bit_word_eq [OF at])
      finally show ?thesis by (simp add: ac_simps)
    qed
    have high: "bit (drop_bit a (io_next_word d)) (31 - j) = (a \<le> j \<and> stream_bit (io_now d) (p + len + j))"
    proof (cases "a \<le> j")
      case True
      have "p + len + j = 32 * k + (j - a)" using k(2) lt(3) True by simp
      then have "stream_bit (io_now d) (p + len + j) = bit (io_next_word d) (31 - (j - a))"
        using stream_bit_word [of "j - a" "io_now d" k] j k(3) by simp
      moreover have "31 - j + a = 31 - (j - a)" using True j by simp
      ultimately show ?thesis using True by (simp add: bit_drop_bit_eq add.commute)
    next
      case False
      then have "\<not> bit (io_next_word d) (a + (31 - j))" using bit_imp_le_length [of "io_next_word d" "a + (31 - j)"] j by auto
      then show ?thesis using False by (simp add: bit_drop_bit_eq)
    qed
    show ?thesis
    proof (cases "j + len < 32")
      case True
      then show ?thesis using low high by (auto simp: bit_or_iff)
    next
      case False
      then have "\<not> bit (push_bit len (io_word d)) (31 - j)" using j by (auto simp: bit_push_bit_iff)
      moreover have "a \<le> j" using False lt(3) at j by (auto simp: at_bit_def)
      ultimately show ?thesis using high by (auto simp: bit_or_iff)
    qed
  qed
  have "decode_eatbits len d = Inr (d\<lparr>io_available_bits := a, io_word := ?w\<rparr>)"
    using len lt(1,2) by (simp add: decode_eatbits_def qshl_def qshr_def Let_def a_def [symmetric])
  moreover have "at_bit (d\<lparr>io_available_bits := a, io_word := ?w\<rparr>) (p + len)"
    unfolding at_bit_def using at lt bits by (auto simp: at_bit_def)
  ultimately show ?thesis by simp
qed

lemma eatbits_refill:
  assumes at: "at_bit d p" and len: "len > io_available_bits d" "len < 32" and room: "io_idx d + 4 \<le> length (io_now d)"
  shows "\<exists>d'. decode_eatbits len d = Inr d' \<and> at_bit d' (p + len) \<and> io_now d' = io_now d"
proof -
  obtain k where k: "io_idx d = 4 * Suc k" "p + io_available_bits d = 32 * k" "io_next_word d = word_at (io_now d) (4 * k)"
    using at by (rule at_bitE)
  define e where "e = len - io_available_bits d"
  have e: "0 < e" "e < 32" "len = io_available_bits d + e" "32 - e < 32" using len by (auto simp: e_def)
  let ?n = "word_at (io_now d) (io_idx d)"
  let ?w = "push_bit len (io_word d) OR push_bit e (io_next_word d) OR drop_bit (32 - e) ?n"
  have bits: "bit ?w (31 - j) = stream_bit (io_now d) (p + len + j)" if j: "j < 32" for j
  proof -
    have A: "bit (push_bit len (io_word d)) (31 - j) \<longleftrightarrow> j + len < 32 \<and> stream_bit (io_now d) (p + len + j)"
    proof (cases "j + len < 32")
      case True
      have "bit (push_bit len (io_word d)) (31 - j) = bit (io_word d) (31 - (j + len))"
        using True by (auto simp: bit_push_bit_iff)
      also have "\<dots> = stream_bit (io_now d) (p + (j + len))" using True by (rule at_bit_word_eq [OF at])
      finally show ?thesis using True by (simp add: ac_simps)
    next
      case False
      then show ?thesis using j by (auto simp: bit_push_bit_iff)
    qed
    have B: "bit (push_bit e (io_next_word d)) (31 - j) \<longleftrightarrow> j + e < 32 \<and> stream_bit (io_now d) (p + len + j)"
    proof (cases "j + e < 32")
      case True
      have "p + len + j = 32 * k + (e + j)" using k(2) e(3) by simp
      moreover have "stream_bit (io_now d) (32 * k + (e + j)) = bit (io_next_word d) (31 - (e + j))"
        using stream_bit_word [of "e + j" "io_now d" k] True k(3) by (simp only: add.commute)
      ultimately have "stream_bit (io_now d) (p + len + j) = bit (io_next_word d) (31 - (e + j))" by (simp only:)
      moreover have "bit (push_bit e (io_next_word d)) (31 - j) = bit (io_next_word d) (31 - j - e)"
        using True by (auto simp: bit_push_bit_iff)
      moreover have "31 - j - e = 31 - (e + j)" by simp
      ultimately show ?thesis using True by simp
    next
      case False
      then show ?thesis using j by (auto simp: bit_push_bit_iff)
    qed
    have C: "bit (drop_bit (32 - e) ?n) (31 - j) \<longleftrightarrow> 32 \<le> j + e \<and> stream_bit (io_now d) (p + len + j)"
    proof (cases "32 \<le> j + e")
      case True
      have "p + len + j = 32 * Suc k + (e + j - 32)" using k(2) e(3) True by simp
      then have "stream_bit (io_now d) (p + len + j) = bit ?n (31 - (e + j - 32))"
        using stream_bit_word [of "e + j - 32" "io_now d" "Suc k"] e j k(1) by simp
      moreover have "32 - e + (31 - j) = 31 - (e + j - 32)" using True j e by simp
      ultimately show ?thesis using True by (simp add: bit_drop_bit_eq)
    next
      case False
      then have "\<not> bit ?n (32 - e + (31 - j))" using bit_imp_le_length [of ?n "32 - e + (31 - j)"] by auto
      then show ?thesis using False by (simp add: bit_drop_bit_eq)
    qed
    show ?thesis unfolding bit_or_iff A B C using e(3) by auto
  qed
  let ?d = "d\<lparr>io_next_word := ?n, io_idx := io_idx d + 4, io_available_bits := 32 - e, io_word := ?w\<rparr>"
  have "io_end d = length (io_now d)" using at by (simp add: at_bit_def)
  then have "decode_eatbits len d = Inr ?d"
    using len e(2,4) room by (simp add: decode_eatbits_def qshl_def qshr_def read_io_word_def Let_def e_def [symmetric])
  moreover have "at_bit ?d (p + len)"
    unfolding at_bit_def using at e room bits by (auto simp: at_bit_def)
  ultimately show ?thesis by simp
qed

lemma eatbits_short:
  assumes "at_bit d p" and "len > io_available_bits d" "len < 32" and "length (io_now d) < io_idx d + 4"
  shows "decode_eatbits len d = Inl QuicFailed"
  using assms by (simp add: decode_eatbits_def qshl_def read_io_word_def Let_def at_bit_def)

text \<open>C16: The bit reader is a window on the stream of bits. As long as the window and its look-ahead word
  are at bit \<open>p\<close>, eating fewer than 32 bits moves them on by exactly that many, so the 32 bits of the
  window are again those of the stream, or fails, without a panic, when the next whole word is not there.\<close>

theorem eatbits_window:
  assumes "at_bit d p" and "len < 32"
  shows "if len \<le> io_available_bits d \<or> io_idx d + 4 \<le> length (io_now d)
    then \<exists>d'. decode_eatbits len d = Inr d' \<and> at_bit d' (p + len) \<and> io_now d' = io_now d
    else decode_eatbits len d = Inl QuicFailed"
proof (cases "len \<le> io_available_bits d")
  case True
  then show ?thesis using eatbits_available [OF assms(1) True] by simp
next
  case False
  then have len: "io_available_bits d < len" by simp
  show ?thesis
  proof (cases "io_idx d + 4 \<le> length (io_now d)")
    case True
    then show ?thesis using eatbits_refill [OF assms(1) len assms(2) True] by simp
  next
    case False
    then show ?thesis using eatbits_short [OF assms(1) len assms(2)] len by simp
  qed
qed

definition io_start :: "bytes \<Rightarrow> quic_io" where
  "io_start now = \<lparr>io_idx = 4, io_available_bits = 0, io_word = word_at now 0, io_next_word = word_at now 0,
     io_now = now, io_end = length now\<rparr>"

lemma io_start_at: "4 \<le> length now \<Longrightarrow> at_bit (io_start now) 0"
  by (simp add: at_bit_def io_start_def stream_bit_def)

theorem eatbits_window_witness:
  "\<exists>d'. decode_eatbits 5 (io_start [1, 2, 3, 4, 5, 6, 7, 8]) = Inr d' \<and> at_bit d' 5"
proof -
  have "at_bit (io_start [1, 2, 3, 4, 5, 6, 7, 8]) 0" by (rule io_start_at) simp
  from eatbits_window [OF this, of 5] show ?thesis by (auto simp: io_start_def)
qed

section \<open>Progress and safety\<close>

definition io_ok :: "'a quic_io_scheme \<Rightarrow> bool" where
  "io_ok d \<longleftrightarrow> io_end d = length (io_now d) \<and> io_available_bits d < 32"

definition bits_left :: "'a quic_io_scheme \<Rightarrow> nat" where
  "bits_left d = 8 * (io_end d - io_idx d) + io_available_bits d"

lemma eatbits_progress: "decode_eatbits len d = Inr d' \<Longrightarrow> bits_left d' + len = bits_left d"
  by (auto simp: decode_eatbits_def bindE_eq_Inr read_io_word_def qshl_def qshr_def Let_def bits_left_def split: if_splits)

lemma eatbits_frame:
  "decode_eatbits len d = Inr d' \<Longrightarrow> quic_io.more d' = quic_io.more d"
  by (auto simp: decode_eatbits_def bindE_eq_Inr read_io_word_def qshl_def qshr_def Let_def split: if_splits)

lemma safe_eatbits: "io_ok d \<Longrightarrow> len < 32 \<Longrightarrow> safe (decode_eatbits len d) io_ok"
  by (auto simp: decode_eatbits_def read_io_word_def qshl_def qshr_def Let_def io_ok_def)

end
