(* ===== verification/Quic_Golomb.thy ===== *)
theory Quic_Golomb
  imports Quic_Bits
begin

unbundle bit_operations_syntax

text \<open>
  The Golomb-Rice codes of the QUIC decoder: the values of the family's tables, what the leading-zero
  table counts, and that decoding inverts the code the tables describe.
\<close>

section \<open>The tables' values\<close>

lemma family_8bpc_codes:
  "n_gr_codewords family_8bpc = [18, 36, 72, 144, 240, 224, 192, 128]"
  "not_gr_cw_len family_8bpc = [26, 26, 26, 25, 19, 12, 9, 8]"
  "not_gr_prefix_mask family_8bpc = [0x3fff, 0x3fff, 0x3fff, 0x3fff, 0x1ffff, 0x1ffffff, 0x1fffffff, 0x7fffffff]"
  "not_gr_suffix_len family_8bpc = [8, 8, 8, 7, 4, 5, 6, 7]"
  by code_simp+

lemma length_xlat: "length (xlat_l2u family_8bpc) = 256"
  by (simp add: family_8bpc_def family_init_def Let_def BPPMASK_def)

definition lzeroes_at :: "nat \<Rightarrow> nat \<Rightarrow> bool" where
  "lzeroes_at i z \<longleftrightarrow> z \<le> 8 \<and> (if i = 0 then z = 8 else z < 8 \<and> 2 ^ (7 - z) \<le> i \<and> i < 2 ^ (8 - z))"

lemma LZEROES_table: "length LZEROES = 256" "\<forall>i\<in>set [0..<256]. lzeroes_at i (LZEROES ! i)"
  by code_simp+

lemma LZEROES_at: "i < 256 \<Longrightarrow> qnth LZEROES i = Inr (LZEROES ! i) \<and> lzeroes_at i (LZEROES ! i)"
  using LZEROES_table by (simp add: qnth_def)

section \<open>Leading zeroes\<close>

lemma and_high_zero: "(w :: u32) AND NOT (mask n) = 0 \<longleftrightarrow> take_bit n w = w"
  by (auto simp: bit_eq_iff bit_simps)

lemma high_bits:
  "(w :: u32) AND 0xff800000 \<noteq> 0 \<longleftrightarrow> 2 ^ 23 \<le> unat w"
  "w AND 0xffff8000 \<noteq> 0 \<longleftrightarrow> 2 ^ 15 \<le> unat w"
  "w AND 0xffffff80 \<noteq> 0 \<longleftrightarrow> 2 ^ 7 \<le> unat w"
proof -
  have m: "(0xff800000 :: u32) = NOT (mask 23)" "(0xffff8000 :: u32) = NOT (mask 15)" "(0xffffff80 :: u32) = NOT (mask 7)"
    by (simp_all add: mask_eq_exp_minus_1)
  have "take_bit n w = w \<longleftrightarrow> unat w < 2 ^ n" for n
    by (simp add: word_unat_eq_iff unsigned_take_bit_eq take_bit_nat_eq_self_iff)
  then show "w AND 0xff800000 \<noteq> 0 \<longleftrightarrow> 2 ^ 23 \<le> unat w" "w AND 0xffff8000 \<noteq> 0 \<longleftrightarrow> 2 ^ 15 \<le> unat w"
    "w AND 0xffffff80 \<noteq> 0 \<longleftrightarrow> 2 ^ 7 \<le> unat w"
    unfolding m and_high_zero by auto
qed

lemma unat_mask: "unat ((w :: u32) AND mask n) = unat w mod 2 ^ n"
  by (simp only: take_bit_eq_mask [symmetric] unsigned_take_bit_eq) (simp add: take_bit_eq_mod)

lemma mask_8: "(0xff :: u32) = mask 8"
  by (simp add: mask_eq_exp_minus_1)

lemma unat_shr: "unat (drop_bit n (w :: u32)) = unat w div 2 ^ n"
  by (simp only: unat_drop_bit_eq) (simp add: drop_bit_eq_div)

lemma lzeroes_shifted:
  assumes at: "lzeroes_at (W div 2 ^ s) z" and small: "W div 2 ^ s = 0 \<Longrightarrow> 0 < s \<and> 2 ^ (s - 1) \<le> W"
  shows "2 ^ (s + 8 - Suc z) \<le> W \<and> W < 2 ^ (s + 8 - z) \<and> Suc z \<le> s + 8"
proof (cases "W div 2 ^ s = 0")
  case True
  then have "z = 8" using at by (simp add: lzeroes_at_def)
  moreover have "W < 2 ^ s" using True by (simp add: div_eq_0_iff)
  ultimately show ?thesis using small [OF True] by auto
next
  case False
  then have z: "z < 8" "2 ^ (7 - z) \<le> W div 2 ^ s" "W div 2 ^ s < 2 ^ (8 - z)" using at by (simp_all add: lzeroes_at_def)
  have "2 ^ (7 - z) * 2 ^ s \<le> W" using z(2) by (meson div_times_less_eq_dividend le_trans mult_le_mono1)
  moreover have "W < 2 ^ (8 - z) * 2 ^ s" using z(3) by (simp add: less_mult_imp_div_less div_less_iff_less_mult)
  moreover have "7 - z + s = s + 8 - Suc z" "8 - z + s = s + 8 - z" using z(1) by simp_all
  ultimately show ?thesis using z(1) by (metis Suc_le_eq power_add trans_less_add2)
qed

lemma cnt_l_zeroes_spec:
  assumes "bits \<noteq> 0"
  shows "\<exists>z<32. cnt_l_zeroes bits = Inr z \<and> 2 ^ (31 - z) \<le> unat bits \<and> unat bits < 2 ^ (32 - z)"
proof -
  let ?W = "unat bits"
  have pos: "0 < ?W" using assms by (simp add: unat_gt_0)
  have W: "?W < 2 ^ 32" using unsigned_less [of bits] by simp
  have idx: "unat (drop_bit 24 bits) = ?W div 2 ^ 24" "unat (drop_bit 16 bits AND 0xff) = ?W div 2 ^ 16 mod 256"
    "unat (drop_bit 8 bits AND 0xff) = ?W div 2 ^ 8 mod 256" "unat (bits AND 0xff) = ?W mod 256"
    unfolding mask_8 unat_mask unat_shr by simp_all
  have found: ?thesis
    if c: "cnt_l_zeroes bits = bindE (qnth LZEROES (?W div 2 ^ s)) (\<lambda>z. Inr (24 - s + z))" and s: "s \<le> 24" "?W < 2 ^ (s + 8)"
      and small: "?W div 2 ^ s = 0 \<Longrightarrow> 0 < s \<and> 2 ^ (s - 1) \<le> ?W" for s
  proof -
    have "?W div 2 ^ s < 256" using s(2) by (simp add: power_add div_less_iff_less_mult mult.commute)
    from LZEROES_at [OF this] have q: "qnth LZEROES (?W div 2 ^ s) = Inr (LZEROES ! (?W div 2 ^ s))"
      and at: "lzeroes_at (?W div 2 ^ s) (LZEROES ! (?W div 2 ^ s))" by simp_all
    define z where "z = LZEROES ! (?W div 2 ^ s)"
    note b = lzeroes_shifted [OF at small, folded z_def]
    have "31 - (24 - s + z) = s + 8 - Suc z" "32 - (24 - s + z) = s + 8 - z" using s(1) b by simp_all
    then show ?thesis using b c q s(1) by (intro exI [of _ "24 - s + z"]) (auto simp: z_def [symmetric])
  qed
  show ?thesis
  proof (cases "2 ^ 23 \<le> ?W")
    case True
    then show ?thesis using W by (intro found [of 24]) (simp_all add: cnt_l_zeroes_def high_bits idx bindE_def qnth_def)
  next
    case a: False
    show ?thesis
    proof (cases "2 ^ 15 \<le> ?W")
      case True
      then show ?thesis using a by (intro found [of 16]) (simp_all add: cnt_l_zeroes_def high_bits idx)
    next
      case b: False
      show ?thesis
      proof (cases "2 ^ 7 \<le> ?W")
        case True
        then show ?thesis using a b by (intro found [of 8]) (simp_all add: cnt_l_zeroes_def high_bits idx)
      next
        case False
        then show ?thesis using a b pos by (intro found [of 0]) (simp_all add: cnt_l_zeroes_def high_bits idx)
      qed
    qed
  qed
qed

section \<open>Decoding\<close>

text \<open>
  The code of \<open>n\<close> with parameter \<open>l\<close>, as its length and its bits read as a number: as many zeroes as \<open>n\<close>
  has times \<open>2 ^ l\<close>, a one and the low \<open>l\<close> bits; or, past the longest prefix, that many zeroes and the rest
  of \<open>n\<close> in a fixed number of bits.
\<close>

definition gr_prefix :: "nat \<Rightarrow> nat" where
  "gr_prefix l = [18, 18, 18, 18, 15, 7, 3, 1] ! l"

definition gr_suffix :: "nat \<Rightarrow> nat" where
  "gr_suffix l = [8, 8, 8, 7, 4, 5, 6, 7] ! l"

definition golomb_code :: "nat \<Rightarrow> nat \<Rightarrow> nat \<times> nat" where
  "golomb_code n l =
     (if n < gr_prefix l * 2 ^ l then (n div 2 ^ l + 1 + l, 2 ^ l + n mod 2 ^ l)
      else (gr_prefix l + gr_suffix l, n - gr_prefix l * 2 ^ l))"

lemma less_8: "l < (8 :: nat) \<longleftrightarrow> l \<in> {0, 1, 2, 3, 4, 5, 6, 7}"
  by auto

lemma gr_tables:
  assumes "l < 8"
  shows "qnth (n_gr_codewords family_8bpc) l = Inr (word_of_nat (gr_prefix l * 2 ^ l))"
    and "qnth (not_gr_cw_len family_8bpc) l = Inr (word_of_nat (gr_prefix l + gr_suffix l))"
    and "qnth (not_gr_prefix_mask family_8bpc) l = Inr (mask (32 - gr_prefix l))"
    and "qnth (not_gr_suffix_len family_8bpc) l = Inr (word_of_nat (gr_suffix l))"
    and "0 < gr_prefix l" and "gr_prefix l \<le> 18" and "gr_prefix l + gr_suffix l \<le> 26" and "0 < gr_suffix l" and "gr_suffix l \<le> 8"
    and "gr_prefix l * 2 ^ l < 256" and "256 - gr_prefix l * 2 ^ l \<le> 2 ^ gr_suffix l" and "gr_prefix l + l \<le> 21"
  using assms unfolding less_8
  by (auto simp: family_8bpc_codes qnth_def gr_prefix_def gr_suffix_def mask_eq_exp_minus_1)

lemma BPPMASK_mask: "n \<le> 8 \<Longrightarrow> qnth BPPMASK n = Inr (mask n)"
proof -
  assume "n \<le> 8"
  then have "n \<in> {0, 1, 2, 3, 4, 5, 6, 7, 8}" by auto
  then show ?thesis by (auto simp: qnth_def BPPMASK_def mask_eq_exp_minus_1)
qed

lemma sint_neg_unat: "sint (w :: u32) < 0 \<Longrightarrow> 2 ^ 31 \<le> unat w"
proof (rule ccontr)
  assume "sint w < 0" and "\<not> 2 ^ 31 \<le> unat w"
  then have "bit w 31" using bit_last_iff [of w] by simp
  then have "odd (unat w div 2 ^ 31)" by (simp only: bit_unsigned_iff bit_iff_odd [symmetric] possible_bit_nat simp_thms)
  with \<open>\<not> 2 ^ 31 \<le> unat w\<close> show False by simp
qed

lemma unat_mask_32: "n < 32 \<Longrightarrow> unat (mask n :: u32) = 2 ^ n - 1"
proof -
  assume n: "n < 32"
  have "(2 :: nat) ^ n \<le> 2 ^ 32" using n by (intro power_increasing) simp_all
  then have "mask n < (2 :: nat) ^ 32" by (simp add: mask_eq_exp_minus_1)
  then have "unat (of_nat (mask n) :: u32) = mask n" by (simp add: unat_of_nat del: of_nat_mask_eq)
  then show ?thesis by (simp add: mask_eq_exp_minus_1)
qed

lemma pred_less_iff: "0 < (p :: nat) \<Longrightarrow> p - 1 < x \<longleftrightarrow> p \<le> x"
  by auto

lemma prefix_test:
  assumes "l < 8"
  shows "sint (bits :: u32) < 0 \<or> bits > mask (32 - gr_prefix l) \<longleftrightarrow> 2 ^ (32 - gr_prefix l) \<le> unat bits"
proof -
  have "(2 :: nat) ^ (32 - gr_prefix l) \<le> 2 ^ 31" using gr_tables(5) [OF assms] by (intro power_increasing) simp_all
  moreover have "bits > mask (32 - gr_prefix l) \<longleftrightarrow> 2 ^ (32 - gr_prefix l) \<le> unat bits"
  proof -
    have "unat (mask (32 - gr_prefix l) :: u32) = 2 ^ (32 - gr_prefix l) - 1"
      using gr_tables(5) [OF assms] by (intro unat_mask_32) simp
    then show ?thesis unfolding word_less_nat_alt by (rule ssubst) (rule pred_less_iff, simp)
  qed
  ultimately show ?thesis using sint_neg_unat [of bits] by auto
qed

lemma code_word_unat: "0 < len \<Longrightarrow> len \<le> 32 \<Longrightarrow> code_word bits len = Inr (drop_bit (32 - len) bits)"
  by (simp add: code_word_def qshr_def)

lemma golomb_prefix:
  assumes l: "l < 8" and big: "2 ^ (32 - gr_prefix l) \<le> unat bits"
  shows "\<exists>z<gr_prefix l. 2 ^ (31 - z) \<le> unat bits \<and> unat bits < 2 ^ (32 - z)
    \<and> golomb_decoding_8bpc l bits family_8bpc
      = Inr (z + 1 + l, (push_bit l (word_of_nat z) OR (drop_bit (31 - z - l) bits AND mask l)) AND 0xff)"
proof -
  have "bits \<noteq> 0" using big by (auto simp: unat_gt_0 [symmetric] intro: ccontr)
  from cnt_l_zeroes_spec [OF this] obtain z where z: "cnt_l_zeroes bits = Inr z" "2 ^ (31 - z) \<le> unat bits" "unat bits < 2 ^ (32 - z)"
    and "z < 32" by blast
  have "(2 :: nat) ^ (32 - gr_prefix l) < 2 ^ (32 - z)" using big z(3) by (rule le_less_trans)
  then have "32 - gr_prefix l < 32 - z" by (simp only: power_strict_increasing_iff one_less_numeral_iff semiring_norm)
  then have "z < gr_prefix l" by simp
  moreover have "z + 1 + l \<le> 31" using \<open>z < gr_prefix l\<close> gr_tables(12) [OF l] by simp
  moreover have "qshl (word_of_nat z) l = Inr (push_bit l (word_of_nat z))" using l by (simp add: qshl_def)
  moreover have "qnth BPPMASK l = Inr (mask l)" using l by (intro BPPMASK_mask) simp
  ultimately show ?thesis using z prefix_test [OF l, of bits] big
    by (intro exI [of _ z]) (simp add: golomb_decoding_8bpc_def gr_tables(3) [OF l] code_word_unat Let_def)
qed

lemma golomb_suffix:
  assumes l: "l < 8" and small: "unat bits < 2 ^ (32 - gr_prefix l)"
  shows "golomb_decoding_8bpc l bits family_8bpc
    = Inr (gr_prefix l + gr_suffix l, (word_of_nat (gr_prefix l * 2 ^ l)
        + (drop_bit (32 - (gr_prefix l + gr_suffix l)) bits AND mask (gr_suffix l))) AND 0xff)"
proof -
  note t = gr_tables [OF l]
  have "unat (word_of_nat (gr_prefix l + gr_suffix l) :: u32) = gr_prefix l + gr_suffix l"
    "unat (word_of_nat (gr_suffix l) :: u32) = gr_suffix l" using t(7,9) by (simp_all only: unat_of_nat) simp_all
  then show ?thesis using prefix_test [OF l, of bits] small t(5-9)
    by (simp add: golomb_decoding_8bpc_def t(1-4) code_word_unat BPPMASK_mask)
qed

lemma safe_golomb:
  assumes "l < 8"
  shows "safe (golomb_decoding_8bpc l bits family_8bpc) (\<lambda>(cwlen, rc). 0 < cwlen \<and> cwlen < 32 \<and> unat rc < 256)"
proof -
  have rc: "unat (w AND 0xff) < 256" for w :: u32 unfolding mask_8 unat_mask by simp
  show ?thesis
  proof (cases "2 ^ (32 - gr_prefix l) \<le> unat bits")
    case True
    from golomb_prefix [OF assms True] obtain z where "z < gr_prefix l"
      "golomb_decoding_8bpc l bits family_8bpc
        = Inr (z + 1 + l, (push_bit l (word_of_nat z) OR (drop_bit (31 - z - l) bits AND mask l)) AND 0xff)" by blast
    then show ?thesis using rc gr_tables(12) [OF assms] by simp
  next
    case False
    then show ?thesis using golomb_suffix [OF assms, of bits] rc gr_tables(5-9) [OF assms] by simp
  qed
qed

lemma or_disjoint:
  assumes "b < 2 ^ l" and "a * 2 ^ l + b < 2 ^ 32"
  shows "push_bit l (word_of_nat a) OR (word_of_nat b :: u32) = word_of_nat (a * 2 ^ l + b)"
proof -
  have "push_bit l a + b = push_bit l a OR b"
  proof (rule disjunctive_add)
    fix n
    show "\<not> bit (push_bit l a) n \<or> \<not> bit b n"
    proof (cases "n < l")
      case True
      then show ?thesis by (simp add: bit_push_bit_iff)
    next
      case False
      then have "b < 2 ^ n" using assms(1) by (meson less_le_trans not_less power_increasing one_le_numeral)
      then show ?thesis by (simp add: bit_iff_odd)
    qed
  qed
  then have "word_of_nat (push_bit l a + b) = push_bit l (word_of_nat a) OR (word_of_nat b :: u32)"
    by (simp add: of_nat_or_eq of_nat_push_bit)
  then show ?thesis by (simp add: push_bit_eq_mult)
qed

lemma unat_eq_word_of_nat: "unat w = m \<Longrightarrow> w = word_of_nat m"
  by auto

lemma and_255: "n < 256 \<Longrightarrow> (word_of_nat n :: u32) AND 0xff = word_of_nat n"
  unfolding mask_8 by (simp add: word_unat_eq_iff unat_mask unat_of_nat)

lemma golomb_decodes_prefix:
  assumes l: "l < 8" and n: "n < gr_prefix l * 2 ^ l" and w: "unat bits div 2 ^ (31 - (n div 2 ^ l + l)) = 2 ^ l + n mod 2 ^ l"
  shows "golomb_decoding_8bpc l bits family_8bpc = Inr (n div 2 ^ l + 1 + l, word_of_nat n)"
proof -
  note t = gr_tables [OF l]
  define q m where "q = n div 2 ^ l" and "m = n mod 2 ^ l"
  have q: "q < gr_prefix l" using n by (simp add: q_def less_mult_imp_div_less)
  have m: "m < 2 ^ l" and nq: "q * 2 ^ l + m = n" by (simp_all only: q_def m_def div_mult_mod_eq mod_less_divisor zero_less_power zero_less_numeral)
  define k where "k = 31 - (q + l)"
  have k: "31 - q = l + k" "32 - q = l + 1 + k" using q t(12) by (simp_all add: k_def)
  have W: "unat bits div 2 ^ k = 2 ^ l + m" using w by (simp add: q_def m_def k_def)
  have lo: "2 ^ (31 - q) \<le> unat bits"
  proof -
    have "2 ^ l * 2 ^ k \<le> unat bits div 2 ^ k * 2 ^ k" unfolding W by (intro mult_le_mono) simp_all
    also have "\<dots> \<le> unat bits" by simp
    finally show ?thesis unfolding k by (simp add: power_add)
  qed
  have hi: "unat bits < 2 ^ (32 - q)"
  proof -
    have "unat bits div 2 ^ k < 2 ^ (l + 1)" unfolding W using m by simp
    then show ?thesis unfolding k by (simp add: div_less_iff_less_mult power_add mult_ac)
  qed
  have "(2 :: nat) ^ (32 - gr_prefix l) \<le> 2 ^ (31 - q)" using q by (intro power_increasing) simp_all
  then have "2 ^ (32 - gr_prefix l) \<le> unat bits" using lo by (rule le_trans)
  from golomb_prefix [OF l this] obtain z where z: "2 ^ (31 - z) \<le> unat bits" "unat bits < 2 ^ (32 - z)"
    "golomb_decoding_8bpc l bits family_8bpc
      = Inr (z + 1 + l, (push_bit l (word_of_nat z) OR (drop_bit (31 - z - l) bits AND mask l)) AND 0xff)" and "z < gr_prefix l" by blast
  have "z = q"
  proof -
    have "(2 :: nat) ^ (31 - z) < 2 ^ (32 - q)" "(2 :: nat) ^ (31 - q) < 2 ^ (32 - z)"
      using le_less_trans [OF z(1) hi] le_less_trans [OF lo z(2)] by simp_all
    then have "31 - z < 32 - q" "31 - q < 32 - z" by (simp_all only: power_strict_increasing_iff one_less_numeral_iff semiring_norm)
    then show ?thesis using q \<open>z < gr_prefix l\<close> t(6) by simp
  qed
  have "drop_bit (31 - q - l) bits AND mask l = word_of_nat m"
  proof -
    have "unat (drop_bit (31 - q - l) bits AND mask l) = m" using W m by (simp add: unat_mask unat_shr k_def)
    then show ?thesis using unat_eq_word_of_nat by blast
  qed
  moreover have "n < 256" using n t(10) by simp
  ultimately show ?thesis using z(3) or_disjoint [of m l q] m nq
    by (simp add: \<open>z = q\<close> and_255 q_def [symmetric])
qed

lemma golomb_decodes_suffix:
  assumes l: "l < 8" and n: "gr_prefix l * 2 ^ l \<le> n" "n < 256"
    and w: "unat bits div 2 ^ (32 - (gr_prefix l + gr_suffix l)) = n - gr_prefix l * 2 ^ l"
  shows "golomb_decoding_8bpc l bits family_8bpc = Inr (gr_prefix l + gr_suffix l, word_of_nat n)"
proof -
  note t = gr_tables [OF l]
  define k v where "k = 32 - (gr_prefix l + gr_suffix l)" and "v = n - gr_prefix l * 2 ^ l"
  have v: "v < 2 ^ gr_suffix l" using n t(11) by (simp add: v_def)
  have k: "32 - gr_prefix l = gr_suffix l + k" using t(7) by (simp add: k_def)
  have "unat bits < 2 ^ (32 - gr_prefix l)"
    unfolding k using w v less_mult_imp_div_less by (simp add: v_def k_def [symmetric] power_add) (metis div_less_iff_less_mult mult.commute zero_less_numeral zero_less_power)
  note dec = golomb_suffix [OF l this]
  have "unat (drop_bit k bits AND mask (gr_suffix l)) = v" using w v by (simp add: unat_mask unat_shr k_def v_def)
  then have "drop_bit k bits AND mask (gr_suffix l) = word_of_nat v" using unat_eq_word_of_nat by blast
  moreover have "word_of_nat (gr_prefix l * 2 ^ l) + word_of_nat v = (word_of_nat n :: u32)"
    using n(1) by (simp add: v_def of_nat_add [symmetric] del: of_nat_add of_nat_mult)
  ultimately show ?thesis using dec n(2) by (simp add: k_def [symmetric] and_255)
qed

text \<open>C15: The Golomb-Rice decoder of the QUIC codec, with its tables of leading zeroes and code lengths,
  inverts the code: when the 32-bit window starts with the code of a value below 256 for one of the
  eight parameters, whatever follows it, the decoder finds that value and the code's length, which is
  also the length the model update charges for the value.\<close>

theorem golomb_decodes:
  assumes "l < 8" and "n < 256" and "golomb_code n l = (len, v)" and "unat bits div 2 ^ (32 - len) = v"
  shows "golomb_decoding_8bpc l bits family_8bpc = Inr (len, word_of_nat n)
    \<and> golomb_code_len_8bpc (word_of_nat n) l family_8bpc = Inr (word_of_nat len)"
proof -
  note t = gr_tables [OF assms(1)]
  have nw: "unat (word_of_nat n :: u32) = n" using assms(2) by (simp add: unat_of_nat)
  have "unat (word_of_nat (gr_prefix l * 2 ^ l) :: u32) = gr_prefix l * 2 ^ l" using t(10) by (simp only: unat_of_nat) simp
  then have cmp: "(word_of_nat n :: u32) < word_of_nat (gr_prefix l * 2 ^ l) \<longleftrightarrow> n < gr_prefix l * 2 ^ l"
    by (simp only: word_less_nat_alt nw)
  have q: "drop_bit l (word_of_nat n :: u32) = word_of_nat (n div 2 ^ l)"
    by (rule unat_eq_word_of_nat) (simp only: unat_shr nw)
  show ?thesis
  proof (cases "n < gr_prefix l * 2 ^ l")
    case True
    then show ?thesis using assms golomb_decodes_prefix [OF assms(1) True, of bits] t(1) cmp q
      by (auto simp: golomb_code_def golomb_code_len_8bpc_def qshr_def)
  next
    case False
    then show ?thesis using assms golomb_decodes_suffix [OF assms(1) _ assms(2), of bits] t(1,2) cmp
      by (auto simp: golomb_code_def golomb_code_len_8bpc_def)
  qed
qed

theorem golomb_decodes_witness:
  "golomb_decoding_8bpc 2 0x34000000 family_8bpc = Inr (5, 10)"
  using golomb_decodes [of 2 10 5 6 "0x34000000"] by (simp add: golomb_code_def gr_prefix_def)

end
