(* ===== verification/Quic.thy ===== *)
theory Quic
  imports Quic_Golomb
begin

unbundle bit_operations_syntax

text \<open>
  The state of the QUIC image decoder (\<open>shakenfist-spice-compression/src/quic.rs\<close>): the adaptive model of
  each colour channel, its construction and reset, the image header and the run decoder. The four channels
  are a function of their index, which is a constant wherever the source indexes them.
\<close>

section \<open>Models and buckets\<close>

record quic_model =
  qm_n_buckets :: nat
  qm_repfirst :: nat
  qm_firstsize :: nat
  qm_repnext :: nat
  qm_mulsize :: nat
  qm_levels :: nat

text \<open>
  The loop that cuts the levels into buckets: \<open>QuicModel::new\<close> counts them and \<open>fill_model_structures\<close> notes
  the bucket of each level. \<open>None\<close> is a loop that does not return.
\<close>

partial_function (option) bucket_loop :: "nat \<Rightarrow> nat \<Rightarrow> nat \<Rightarrow> nat \<Rightarrow> nat \<Rightarrow> nat \<Rightarrow> nat \<Rightarrow> nat list \<Rightarrow> (nat \<times> nat list) option" where
  "bucket_loop repnext mulsize levels n repcntr bsize bend ptrs =
     (let bstart = (if n > 0 then bend + 1 else 0);
          repcntr = repcntr - 1;
          (repcntr, bsize) = (if repcntr = 0 then (repnext, bsize * mulsize) else (repcntr, bsize));
          bend = bstart + bsize - 1;
          bend = (if bend + bsize \<ge> levels then levels - 1 else bend);
          ptrs = fold (\<lambda>i ptrs. ptrs[i := n]) [bstart..<Suc bend] ptrs in
      if bend \<ge> levels - 1 then Some (n + 1, ptrs)
      else bucket_loop repnext mulsize levels (n + 1) repcntr bsize bend ptrs)"

declare bucket_loop.simps [code]

definition evolution :: "nat \<times> nat \<times> nat \<times> nat" where
  "evolution = (if DEFEVOL = 1 then (3, 1, 2, 2) else if DEFEVOL = 3 then (1, 1, 1, 2)
     else if DEFEVOL = 5 then (1, 1, 1, 4) else (1, 1, 1, 2))"

definition QuicModel_new :: "nat \<Rightarrow> quic_model option" where
  "QuicModel_new bpc =
     (let levels = 2 ^ bpc; (repfirst, firstsize, repnext, mulsize) = evolution in
      case bucket_loop repnext mulsize levels 0 (repfirst + 1) firstsize 0 [] of
        None \<Rightarrow> None
      | Some (n, _) \<Rightarrow> Some \<lparr>qm_n_buckets = n, qm_repfirst = repfirst, qm_firstsize = firstsize,
          qm_repnext = repnext, qm_mulsize = mulsize, qm_levels = levels\<rparr>)"

record quic_family_stat =
  fs_buckets_ptrs :: "nat list"
  fs_n_buckets :: nat

definition fill_model_structures :: "quic_model \<Rightarrow> quic_family_stat option" where
  "fill_model_structures model =
     (case bucket_loop (qm_repnext model) (qm_mulsize model) (qm_levels model) 0 (qm_repfirst model + 1)
         (qm_firstsize model) 0 (replicate (qm_levels model) 0) of
        None \<Rightarrow> None
      | Some (n, ptrs) \<Rightarrow> Some \<lparr>fs_buckets_ptrs = ptrs, fs_n_buckets = n\<rparr>)"

record quic_bucket =
  bk_bestcode :: nat
  bk_counters :: "u32 list"

definition QuicBucket_reset :: "nat \<Rightarrow> quic_bucket" where
  "QuicBucket_reset bpp = \<lparr>bk_bestcode = bpp, bk_counters = replicate 8 0\<rparr>"

definition sat_add32 :: "u32 \<Rightarrow> u32 \<Rightarrow> u32" where
  "sat_add32 a b = (if unat a + unat b < 2 ^ 32 then a + b else -1)"

definition charge :: "u32 \<Rightarrow> family \<Rightarrow> nat \<Rightarrow> u32 list \<Rightarrow> quic_error + u32 list" where
  "charge curval fam i counters =
     bindE (qnth counters i) (\<lambda>c.
     bindE (golomb_code_len_8bpc curval i fam) (\<lambda>len.
       qset counters i (sat_add32 c len)))"

definition update_model_8bpc :: "u32 \<Rightarrow> u32 \<Rightarrow> nat \<Rightarrow> family \<Rightarrow> quic_bucket \<Rightarrow> quic_error + quic_bucket" where
  "update_model_8bpc wm_trigger curval bpp fam b =
     bindE (qsub bpp 1) (\<lambda>last.
     bindE (charge curval fam last (bk_counters b)) (\<lambda>counters.
     bindE (qsub bpp 2) (\<lambda>top.
     bindE (qfor (rev [0..<Suc top])
         (\<lambda>i (counters, bestcode, bestcodelen).
            bindE (charge curval fam i counters) (\<lambda>counters.
              Inr (if counters ! i < bestcodelen then (counters, i, counters ! i) else (counters, bestcode, bestcodelen))))
         (counters, last, counters ! last)) (\<lambda>(counters, bestcode, bestcodelen).
     bindE (if bestcodelen > wm_trigger
            then qfor [0..<bpp] (\<lambda>i cs. bindE (qnth cs i) (\<lambda>c. qset cs i (drop_bit 1 c))) counters
            else Inr counters) (\<lambda>counters.
       Inr \<lparr>bk_bestcode = bestcode, bk_counters = counters\<rparr>)))))"

section \<open>State\<close>

record common_state =
  waitcnt :: nat
  tabrand_seed :: u32
  wm_trigger :: u32
  wmidx :: nat
  wmileft :: nat
  melcstate :: nat
  melclen :: nat
  melcorder :: nat

definition set_wm_trigger :: "common_state \<Rightarrow> quic_error + common_state" where
  "set_wm_trigger s =
     bindE (qnth BESTTRIGTAB (DEFEVOL div 2)) (\<lambda>row.
     bindE (qnth row (min (wmidx s) 10)) (\<lambda>t. Inr (s\<lparr>wm_trigger := t\<rparr>)))"

definition CommonState_reset :: "common_state \<Rightarrow> quic_error + common_state" where
  "CommonState_reset s =
     bindE (set_wm_trigger (s\<lparr>waitcnt := 0, tabrand_seed := 0xff, wmidx := 0, wmileft := DEFWMINEXT\<rparr>)) (\<lambda>s.
     bindE (qnth J 0) (\<lambda>len. Inr (s\<lparr>melcstate := 0, melclen := len, melcorder := 2 ^ len\<rparr>)))"

definition CommonState_new :: "quic_error + common_state" where
  "CommonState_new = CommonState_reset \<lparr>waitcnt = 0, tabrand_seed = 0xff, wm_trigger = 0, wmidx = 0,
     wmileft = DEFWMINEXT, melcstate = 0, melclen = 0, melcorder = 1\<rparr>"

definition tabrand :: "common_state \<Rightarrow> quic_error + (u32 \<times> common_state)" where
  "tabrand s =
     (let seed = tabrand_seed s + 1 in
      bindE (qnth TABRAND_CHAOS (unat (seed AND 0xff))) (\<lambda>r. Inr (r, s\<lparr>tabrand_seed := seed\<rparr>)))"

record quic_channel =
  ch_state :: common_state
  ch_family_stat_8bpc :: quic_family_stat
  ch_family_stat_5bpc :: quic_family_stat
  ch_zero :: u32
  ch_row :: "u32 list"
  ch_buckets_ptrs :: "nat list"
  ch_buckets_buf :: "quic_bucket list"

definition QuicChannel_new :: "quic_model \<Rightarrow> quic_model \<Rightarrow> quic_error + quic_channel" where
  "QuicChannel_new model_8bpc model_5bpc =
     (case (fill_model_structures model_8bpc, fill_model_structures model_5bpc) of
        (Some stat_8bpc, Some stat_5bpc) \<Rightarrow>
          bindE CommonState_new (\<lambda>st. Inr \<lparr>ch_state = st, ch_family_stat_8bpc = stat_8bpc, ch_family_stat_5bpc = stat_5bpc,
            ch_zero = 0, ch_row = [], ch_buckets_ptrs = [], ch_buckets_buf = []\<rparr>)
      | _ \<Rightarrow> Inl QuicDiverges)"

definition QuicChannel_reset :: "nat \<Rightarrow> nat \<Rightarrow> quic_channel \<Rightarrow> quic_error + quic_channel" where
  "QuicChannel_reset bpc width c =
     (let c = c\<lparr>ch_zero := 0, ch_row := replicate width 0\<rparr> in
      bindE (if bpc = 8 then Inr (c\<lparr>ch_buckets_ptrs := fs_buckets_ptrs (ch_family_stat_8bpc c),
                 ch_buckets_buf := replicate (fs_n_buckets (ch_family_stat_8bpc c)) (QuicBucket_reset 7)\<rparr>)
             else if bpc = 5 then Inr (c\<lparr>ch_buckets_ptrs := fs_buckets_ptrs (ch_family_stat_5bpc c),
                 ch_buckets_buf := replicate (fs_n_buckets (ch_family_stat_5bpc c)) (QuicBucket_reset 4)\<rparr>)
             else Inl QuicFailed) (\<lambda>c.
      bindE (CommonState_reset (ch_state c)) (\<lambda>st. Inr (c\<lparr>ch_state := st\<rparr>))))"

record quic_decoder = quic_io +
  qd_image_type :: u32
  qd_width :: nat
  qd_height :: nat
  qd_output_len :: nat
  qd_rows_completed :: nat
  qd_rgb_state :: common_state
  qd_channels :: "nat \<Rightarrow> quic_channel"
  qd_family_8bpc :: family
  qd_zero_lut :: "nat list"

definition zero_lut_step :: "nat \<Rightarrow> nat list \<times> nat \<times> nat \<times> nat \<Rightarrow> nat list \<times> nat \<times> nat \<times> nat" where
  "zero_lut_step slot = (\<lambda>(lut, j, k, l).
     let lut = lut[slot := l]; k = k - 1 in
     if k = 0 then (lut, j * 2, j, l - 1) else (lut, j, k, l))"

definition make_zero_lut :: "nat list" where
  "make_zero_lut = fst (fold zero_lut_step [0..<256] (replicate 256 0, 1, 1, 8))"

definition QuicDecoder_new :: "quic_error + quic_decoder" where
  "QuicDecoder_new =
     (case (QuicModel_new 8, QuicModel_new 5) of
        (Some model_8bpc, Some model_5bpc) \<Rightarrow>
          bindE CommonState_new (\<lambda>st.
          bindE (QuicChannel_new model_8bpc model_5bpc) (\<lambda>ch.
            Inr \<lparr>io_idx = 0, io_available_bits = 0, io_word = 0, io_next_word = 0, io_now = [], io_end = 0,
              qd_image_type = 0, qd_width = 0, qd_height = 0, qd_output_len = 0, qd_rows_completed = 0,
              qd_rgb_state = st, qd_channels = (\<lambda>_. ch), qd_family_8bpc = family_8bpc, qd_zero_lut = make_zero_lut\<rparr>))
      | _ \<Rightarrow> Inl QuicDiverges)"

definition QuicDecoder_reset :: "bytes \<Rightarrow> quic_decoder \<Rightarrow> quic_error + quic_decoder" where
  "QuicDecoder_reset io_ptr d =
     bindE (CommonState_reset (qd_rgb_state d)) (\<lambda>st.
       Inr (d\<lparr>qd_rgb_state := st, io_now := io_ptr, io_end := length io_ptr, io_idx := 0,
         qd_rows_completed := 0, qd_output_len := 0\<rparr>))"

definition quic_image_bpc :: "u32 \<Rightarrow> nat" where
  "quic_image_bpc image_type =
     (if image_type = 1 then 8 else if image_type = 2 then 5
      else if image_type = 3 \<or> image_type = 4 \<or> image_type = 5 then 8 else 0)"

definition reset_channels :: "nat \<Rightarrow> quic_decoder \<Rightarrow> quic_error + quic_decoder" where
  "reset_channels bpc =
     qfor [0..<4] (\<lambda>c d. bindE (QuicChannel_reset bpc (qd_width d) (qd_channels d c)) (\<lambda>ch.
       Inr (d\<lparr>qd_channels := (qd_channels d)(c := ch)\<rparr>)))"

definition quic_decode_begin :: "bytes \<Rightarrow> quic_decoder \<Rightarrow> quic_error + quic_decoder" where
  "quic_decode_begin io_ptr d =
     bindE (QuicDecoder_reset io_ptr d) (\<lambda>d.
     bindE (read_io_word d) (\<lambda>d.
     let d = d\<lparr>io_word := io_next_word d, io_available_bits := 0\<rparr>; magic = io_word d in
     bindE (decode_eat32bits d) (\<lambda>d.
     if magic \<noteq> 0x43495551 then Inl QuicFailed
     else let version = io_word d in
     bindE (decode_eat32bits d) (\<lambda>d.
     if version \<noteq> 0 then Inl QuicFailed
     else let d = d\<lparr>qd_image_type := io_word d\<rparr> in
     bindE (decode_eat32bits d) (\<lambda>d.
     let d = d\<lparr>qd_width := unat (io_word d)\<rparr> in
     bindE (decode_eat32bits d) (\<lambda>d.
     let d = d\<lparr>qd_height := unat (io_word d)\<rparr> in
     bindE (decode_eat32bits d) (\<lambda>d.
     case rgba_len (qd_width d) (qd_height d) of
       None \<Rightarrow> Inl QuicFailed
     | Some output_len \<Rightarrow>
         reset_channels (quic_image_bpc (qd_image_type d)) (d\<lparr>qd_output_len := output_len\<rparr>))))))))"

section \<open>Runs\<close>

definition melc_up :: "nat \<Rightarrow> nat \<times> common_state \<Rightarrow> quic_error + (nat \<times> common_state)" where
  "melc_up _ = (\<lambda>(runlen, st).
     let runlen = runlen + melcorder st in
     if melcstate st < MELCSTATES - 1
     then bindE (qnth J (melcstate st + 1)) (\<lambda>len.
       Inr (runlen, st\<lparr>melcstate := melcstate st + 1, melclen := len, melcorder := 2 ^ len\<rparr>))
     else Inr (runlen, st))"

function run_loop :: "quic_decoder \<Rightarrow> nat \<Rightarrow> common_state \<Rightarrow> quic_error + (quic_decoder \<times> nat \<times> common_state)" where
  "run_loop d runlen st =
     bindE (qnth (qd_zero_lut d) (unat (NOT (drop_bit 24 (io_word d)) AND 0xff))) (\<lambda>temp.
     bindE (qfor [1..<Suc temp] melc_up (runlen, st)) (\<lambda>(runlen, st).
     if temp \<noteq> 8 then bindE (decode_eatbits (temp + 1) d) (\<lambda>d. Inr (d, runlen, st))
     else bindE (decode_eatbits 8 d) (\<lambda>d. run_loop d runlen st)))"
  by pat_completeness auto

termination
  by (relation "measure (\<lambda>(d, _). bits_left d)") (auto dest: eatbits_progress)

declare run_loop.simps [simp del]

definition decode_run :: "quic_decoder \<Rightarrow> common_state \<Rightarrow> quic_error + (quic_decoder \<times> nat \<times> common_state)" where
  "decode_run d st =
     bindE (run_loop d 0 st) (\<lambda>(d, runlen, st).
     bindE (if melclen st \<noteq> 0
            then bindE (qsub 32 (melclen st)) (\<lambda>n. bindE (qshr (io_word d) n) (\<lambda>w.
                 bindE (decode_eatbits (melclen st) d) (\<lambda>d. Inr (d, runlen + unat w))))
            else Inr (d, runlen)) (\<lambda>(d, runlen).
     bindE (if melcstate st \<noteq> 0
            then bindE (qnth J (melcstate st - 1)) (\<lambda>len.
              Inr (st\<lparr>melcstate := melcstate st - 1, melclen := len, melcorder := 2 ^ len\<rparr>))
            else Inr st) (\<lambda>st. Inr (d, runlen, st))))"

definition checked_run_end :: "nat \<Rightarrow> nat \<Rightarrow> nat \<Rightarrow> nat option" where
  "checked_run_end start run e = (if start \<le> e \<and> run \<le> e - start then Some (start + run) else None)"

end
