(* ===== verification/Quic_Rows.thy ===== *)
theory Quic_Rows
  imports Quic
begin

unbundle bit_operations_syntax

text \<open>
  The row decoders of the QUIC decoder and its image loop (\<open>quic.rs\<close>, \<open>quic_rgb32_uncompress_row0_seg\<close> to
  \<open>quic_decode\<close>).

  The source has each row decoder twice, for the three colour channels read together
  (\<open>quic_rgb32_\<dots>\<close>) and for the fourth channel alone (\<open>quic_four_\<dots>\<close>). They have the same loops and
  differ in the state they use and in what a pixel is; \<open>lane\<close> selects between them, and every operation
  in which they differ has one equation for each. The loops end for every input, which the
  termination proofs show.
\<close>

section \<open>One code\<close>

datatype lane = Rgb | Four

text \<open>
  The decoder, the row being written and, for the fourth channel, the bucket of the last code. In the
  source the row is a slice of the image.
\<close>

record quic_row =
  qr_dec :: quic_decoder
  qr_cur :: bytes
  qr_last_bucket :: nat

fun lane_state :: "lane \<Rightarrow> quic_decoder \<Rightarrow> common_state" where
  "lane_state Rgb d = qd_rgb_state d"
| "lane_state Four d = ch_state (qd_channels d 3)"

fun set_lane_state :: "lane \<Rightarrow> common_state \<Rightarrow> quic_decoder \<Rightarrow> quic_decoder" where
  "set_lane_state Rgb st d = d\<lparr>qd_rgb_state := st\<rparr>"
| "set_lane_state Four st d = d\<lparr>qd_channels := (qd_channels d)(3 := (qd_channels d 3)\<lparr>ch_state := st\<rparr>)\<rparr>"

fun lane_channels :: "lane \<Rightarrow> nat list" where
  "lane_channels Rgb = [0, 1, 2]"
| "lane_channels Four = [3]"

text \<open>The byte of a pixel that a channel writes: red, green and blue from the third byte down, then the pad.\<close>

definition byte_of :: "nat \<Rightarrow> nat" where
  "byte_of c = (if c = 3 then 3 else 2 - c)"

text \<open>
  One code: the best code of the context's bucket decodes it, the correlate row keeps it, and the
  pixel's byte is a function of what it translates to.
\<close>

definition decode_code :: "nat \<Rightarrow> u32 \<Rightarrow> nat \<Rightarrow> nat \<Rightarrow> (u32 \<Rightarrow> u8) \<Rightarrow> quic_row \<Rightarrow> quic_error + quic_row" where
  "decode_code c key i pos value s =
     (let d = qr_dec s; ch = qd_channels d c in
      bindE (qnth (ch_buckets_ptrs ch) (unat key)) (\<lambda>bidx.
      bindE (qnth (ch_buckets_buf ch) bidx) (\<lambda>b.
      bindE (golomb_decoding_8bpc (bk_bestcode b) (io_word d) (qd_family_8bpc d)) (\<lambda>(cwlen, rc).
      bindE (qset (ch_row ch) i rc) (\<lambda>row.
      bindE (qnth (xlat_l2u (qd_family_8bpc d)) (unat rc)) (\<lambda>x.
      bindE (qset (qr_cur s) pos (value x)) (\<lambda>cur.
      bindE (decode_eatbits cwlen (d\<lparr>qd_channels := (qd_channels d)(c := ch\<lparr>ch_row := row\<rparr>)\<rparr>)) (\<lambda>d.
        Inr \<lparr>qr_dec = d, qr_cur = cur, qr_last_bucket = bidx\<rparr>))))))))"

definition context_key :: "nat \<Rightarrow> nat \<Rightarrow> quic_row \<Rightarrow> quic_error + u32" where
  "context_key c i s = bindE (qsub i 1) (\<lambda>j. qnth (ch_row (qd_channels (qr_dec s) c)) j)"

fun clear_pad :: "lane \<Rightarrow> nat \<Rightarrow> quic_row \<Rightarrow> quic_error + quic_row" where
  "clear_pad Rgb i s = bindE (qset (qr_cur s) (i * 4 + 3) 0) (\<lambda>cur. Inr (s\<lparr>qr_cur := cur\<rparr>))"
| "clear_pad Four i s = Inr s"

section \<open>Pixels\<close>

text \<open>The first pixel of the first row, and of another row, whose prediction is the pixel above it.\<close>

definition first0_code :: "nat \<Rightarrow> quic_row \<Rightarrow> quic_error + quic_row" where
  "first0_code c s = decode_code c (ch_zero (qd_channels (qr_dec s) c)) 0 (byte_of c) (\<lambda>x. ucast x) s"

definition first_code :: "bytes \<Rightarrow> u8 \<Rightarrow> nat \<Rightarrow> quic_row \<Rightarrow> quic_error + quic_row" where
  "first_code prev_row bpc_mask c s =
     bindE (qnth prev_row (byte_of c)) (\<lambda>p.
       decode_code c (ch_zero (qd_channels (qr_dec s) c)) 0 (byte_of c) (\<lambda>x. ucast (x + ucast p) AND bpc_mask) s)"

text \<open>A later pixel of the first row, predicted from its left, and of another row, from its left and above.\<close>

definition pixel0_code :: "u8 \<Rightarrow> nat \<Rightarrow> nat \<Rightarrow> quic_row \<Rightarrow> quic_error + quic_row" where
  "pixel0_code bpc_mask i c s =
     bindE (context_key c i s) (\<lambda>key.
     bindE (qnth (qr_cur s) ((i - 1) * 4 + byte_of c)) (\<lambda>left.
       decode_code c key i (i * 4 + byte_of c) (\<lambda>x. ucast (x + ucast left) AND bpc_mask) s))"

definition predicted :: "u8 \<Rightarrow> u8 \<Rightarrow> u32" where
  "predicted left up = ucast (drop_bit 1 (ucast left + ucast up :: u16))"

definition pixel_code :: "bytes \<Rightarrow> u8 \<Rightarrow> nat \<Rightarrow> nat \<Rightarrow> quic_row \<Rightarrow> quic_error + quic_row" where
  "pixel_code prev_row bpc_mask i c s =
     bindE (context_key c i s) (\<lambda>key.
     bindE (qnth (qr_cur s) ((i - 1) * 4 + byte_of c)) (\<lambda>left.
     bindE (qnth prev_row (i * 4 + byte_of c)) (\<lambda>up.
       decode_code c key i (i * 4 + byte_of c) (\<lambda>x. ucast (x + predicted left up) AND bpc_mask) s)))"

definition first0_pixel :: "lane \<Rightarrow> quic_row \<Rightarrow> quic_error + quic_row" where
  "first0_pixel ln s = bindE (clear_pad ln 0 s) (qfor (lane_channels ln) first0_code)"

definition first_pixel :: "lane \<Rightarrow> bytes \<Rightarrow> u8 \<Rightarrow> quic_row \<Rightarrow> quic_error + quic_row" where
  "first_pixel ln prev_row bpc_mask s = bindE (clear_pad ln 0 s) (qfor (lane_channels ln) (first_code prev_row bpc_mask))"

definition pixel0 :: "lane \<Rightarrow> u8 \<Rightarrow> nat \<Rightarrow> quic_row \<Rightarrow> quic_error + quic_row" where
  "pixel0 ln bpc_mask i s = bindE (clear_pad ln i s) (qfor (lane_channels ln) (pixel0_code bpc_mask i))"

definition pixel :: "lane \<Rightarrow> bytes \<Rightarrow> u8 \<Rightarrow> nat \<Rightarrow> quic_row \<Rightarrow> quic_error + quic_row" where
  "pixel ln prev_row bpc_mask i s = bindE (clear_pad ln i s) (qfor (lane_channels ln) (pixel_code prev_row bpc_mask i))"

section \<open>Adapting the model\<close>

definition update_bucket :: "lane \<Rightarrow> nat \<Rightarrow> nat \<Rightarrow> u32 \<Rightarrow> nat \<Rightarrow> quic_row \<Rightarrow> quic_error + quic_row" where
  "update_bucket ln bpc c val bidx s =
     (let d = qr_dec s; ch = qd_channels d c in
      bindE (qnth (ch_buckets_buf ch) bidx) (\<lambda>b.
      bindE (update_model_8bpc (wm_trigger (lane_state ln d)) val bpc (qd_family_8bpc d) b) (\<lambda>b.
      bindE (qset (ch_buckets_buf ch) bidx b) (\<lambda>buf.
        Inr (s\<lparr>qr_dec := d\<lparr>qd_channels := (qd_channels d)(c := ch\<lparr>ch_buckets_buf := buf\<rparr>)\<rparr>\<rparr>)))))"

definition update_first :: "lane \<Rightarrow> nat \<Rightarrow> nat \<Rightarrow> quic_row \<Rightarrow> quic_error + quic_row" where
  "update_first ln bpc c s =
     (let ch = qd_channels (qr_dec s) c in
      bindE (qnth (ch_row ch) 0) (\<lambda>val.
      bindE (qnth (ch_buckets_ptrs ch) (unat (ch_zero ch))) (\<lambda>bidx. update_bucket ln bpc c val bidx s)))"

text \<open>The bucket is the one of the code before \<open>stopidx\<close>, or, for the fourth channel, the last one used.\<close>

fun update_at :: "lane \<Rightarrow> nat \<Rightarrow> nat \<Rightarrow> nat \<Rightarrow> quic_row \<Rightarrow> quic_error + quic_row" where
  "update_at Rgb bpc stopidx c s =
     bindE (context_key c stopidx s) (\<lambda>key.
     bindE (qnth (ch_buckets_ptrs (qd_channels (qr_dec s) c)) (unat key)) (\<lambda>bidx.
     bindE (qnth (ch_row (qd_channels (qr_dec s) c)) stopidx) (\<lambda>val. update_bucket Rgb bpc c val bidx s)))"
| "update_at Four bpc stopidx c s =
     bindE (qnth (ch_row (qd_channels (qr_dec s) c)) stopidx) (\<lambda>val.
       update_bucket Four bpc c val (qr_last_bucket s) s)"

definition rand_wait :: "lane \<Rightarrow> u32 \<Rightarrow> quic_row \<Rightarrow> quic_error + (nat \<times> quic_row)" where
  "rand_wait ln waitmask s =
     bindE (tabrand (lane_state ln (qr_dec s))) (\<lambda>(r, st).
       Inr (unat (r AND waitmask), s\<lparr>qr_dec := set_lane_state ln st (qr_dec s)\<rparr>))"

definition set_waitcnt :: "lane \<Rightarrow> nat \<Rightarrow> quic_row \<Rightarrow> quic_row" where
  "set_waitcnt ln n s = s\<lparr>qr_dec := set_lane_state ln ((lane_state ln (qr_dec s))\<lparr>waitcnt := n\<rparr>) (qr_dec s)\<rparr>"

definition lane_waitcnt :: "lane \<Rightarrow> quic_row \<Rightarrow> nat" where
  "lane_waitcnt ln s = waitcnt (lane_state ln (qr_dec s))"

text \<open>After the first pixel: count down, or draw the next wait and adapt.\<close>

definition first_wait :: "lane \<Rightarrow> u32 \<Rightarrow> nat \<Rightarrow> quic_row \<Rightarrow> quic_error + quic_row" where
  "first_wait ln waitmask bpc s =
     (if lane_waitcnt ln s > 0 then Inr (set_waitcnt ln (lane_waitcnt ln s - 1) s)
      else bindE (rand_wait ln waitmask s) (\<lambda>(wait, s).
        qfor (lane_channels ln) (update_first ln bpc) (set_waitcnt ln wait s)))"

section \<open>Segments of the first row\<close>

function seg0_while :: "lane \<Rightarrow> u32 \<Rightarrow> nat \<Rightarrow> u8 \<Rightarrow> nat \<Rightarrow> nat \<Rightarrow> nat \<Rightarrow> quic_row \<Rightarrow> quic_error + (nat \<times> nat \<times> quic_row)" where
  "seg0_while ln waitmask bpc bpc_mask e i stopidx s =
     (if stopidx < e then
        bindE (qfor [i..<Suc stopidx] (pixel0 ln bpc_mask) (s\<lparr>qr_last_bucket := 0\<rparr>)) (\<lambda>s.
        bindE (qfor (lane_channels ln) (update_at ln bpc stopidx) s) (\<lambda>s.
        bindE (rand_wait ln waitmask s) (\<lambda>(r, s).
          let i = max i (Suc stopidx) in seg0_while ln waitmask bpc bpc_mask e i (i + r) s)))
      else Inr (i, stopidx, s))"
  by pat_completeness auto

termination
  by (relation "measure (\<lambda>(_, _, _, _, e, _, stopidx, _). e - stopidx)") auto

declare seg0_while.simps [simp del]

definition row0_seg :: "lane \<Rightarrow> nat \<Rightarrow> nat \<Rightarrow> u32 \<Rightarrow> nat \<Rightarrow> u8 \<Rightarrow> quic_row \<Rightarrow> quic_error + quic_row" where
  "row0_seg ln i e waitmask bpc bpc_mask s =
     bindE (if i = 0 then bindE (first0_pixel ln s) (\<lambda>s. bindE (first_wait ln waitmask bpc s) (\<lambda>s. Inr (1, s)))
            else Inr (i, s)) (\<lambda>(i, s).
     bindE (seg0_while ln waitmask bpc bpc_mask e i (i + lane_waitcnt ln s) s) (\<lambda>(i, stopidx, s).
     bindE (qfor [i..<e] (pixel0 ln bpc_mask) s) (\<lambda>s.
       Inr (set_waitcnt ln (stopidx - e) s))))"

section \<open>Segments of the other rows\<close>

text \<open>
  What a loop over pixels ends with: the segment is done and the function returns; a run was read, which
  restarts the loops at an index with a stop index, and is not read again at \<open>run_index\<close>; or the loop's limit.
\<close>

datatype seg_out = SegReturn quic_row | SegBreak nat nat nat quic_row | SegGo nat quic_row

definition same_rgb :: "bytes \<Rightarrow> nat \<Rightarrow> nat \<Rightarrow> quic_error + bool" where
  "same_rgb row a b =
     bindE (qnth row (a + 2)) (\<lambda>x. bindE (qnth row (b + 2)) (\<lambda>y.
       Inr (x = y \<and> row ! (a + 1) = row ! (b + 1) \<and> row ! a = row ! b)))"

fun same_pixel :: "lane \<Rightarrow> bytes \<Rightarrow> nat \<Rightarrow> nat \<Rightarrow> quic_error + bool" where
  "same_pixel Rgb row a b = same_rgb row a b"
| "same_pixel Four row a b =
     bindE (qnth row (a + 3)) (\<lambda>x. bindE (qnth row (b + 3)) (\<lambda>y. Inr (x = y)))"

definition run_starts :: "lane \<Rightarrow> bytes \<Rightarrow> nat \<Rightarrow> nat \<Rightarrow> quic_row \<Rightarrow> quic_error + bool" where
  "run_starts ln prev_row run_index i s =
     bindE (qsub i 1) (\<lambda>j.
     bindE (same_pixel ln prev_row (j * 4) (i * 4)) (\<lambda>up.
       if up \<and> run_index \<noteq> i \<and> i > 2 then same_pixel ln (qr_cur s) (j * 4) ((i - 2) * 4) else Inr False))"

fun copy_left :: "lane \<Rightarrow> nat \<Rightarrow> quic_row \<Rightarrow> quic_error + quic_row" where
  "copy_left Rgb i s =
     bindE (qset (qr_cur s) (i * 4 + 3) 0) (\<lambda>cur.
     bindE (qsub i 1) (\<lambda>j.
     bindE (qnth cur (j * 4 + 2)) (\<lambda>r. bindE (qset cur (i * 4 + 2) r) (\<lambda>cur.
     bindE (qnth cur (j * 4 + 1)) (\<lambda>g. bindE (qset cur (i * 4 + 1) g) (\<lambda>cur.
     bindE (qnth cur (j * 4)) (\<lambda>b. bindE (qset cur (i * 4) b) (\<lambda>cur.
       Inr (s\<lparr>qr_cur := cur\<rparr>)))))))))"
| "copy_left Four i s =
     bindE (qsub i 1) (\<lambda>j.
     bindE (qnth (qr_cur s) (j * 4 + 3)) (\<lambda>a. bindE (qset (qr_cur s) (i * 4 + 3) a) (\<lambda>cur.
       Inr (s\<lparr>qr_cur := cur\<rparr>))))"

definition decode_lane_run :: "lane \<Rightarrow> quic_row \<Rightarrow> quic_error + (nat \<times> quic_row)" where
  "decode_lane_run ln s =
     bindE (decode_run (qr_dec s) (lane_state ln (qr_dec s))) (\<lambda>(d, run, st).
       Inr (run, s\<lparr>qr_dec := set_lane_state ln st d\<rparr>))"

definition take_run :: "lane \<Rightarrow> nat \<Rightarrow> nat \<Rightarrow> nat \<Rightarrow> quic_row \<Rightarrow> quic_error + seg_out" where
  "take_run ln e stopidx i s =
     bindE (decode_lane_run ln (set_waitcnt ln (stopidx - i) s)) (\<lambda>(run, s).
     case checked_run_end i run e of
       None \<Rightarrow> Inl QuicFailed
     | Some run_end \<Rightarrow>
         bindE (qfor [i..<run_end] (copy_left ln) s) (\<lambda>s.
           Inr (if run_end = e then SegReturn s else SegBreak run_end (run_end + lane_waitcnt ln s) i s)))"

function row_pixels :: "lane \<Rightarrow> bytes \<Rightarrow> u8 \<Rightarrow> nat \<Rightarrow> nat \<Rightarrow> nat \<Rightarrow> nat \<Rightarrow> nat \<Rightarrow> quic_row \<Rightarrow> quic_error + seg_out" where
  "row_pixels ln prev_row bpc_mask e stopidx run_index limit i s =
     (if i < limit then
        bindE (run_starts ln prev_row run_index i s) (\<lambda>runs.
        if runs then take_run ln e stopidx i s
        else bindE (pixel ln prev_row bpc_mask i s) (\<lambda>s.
          row_pixels ln prev_row bpc_mask e stopidx run_index limit (Suc i) s))
      else Inr (SegGo i s))"
  by pat_completeness auto

termination
  by (relation "measure (\<lambda>(_, _, _, _, _, _, limit, i, _). limit - i)") auto

declare row_pixels.simps [simp del]

lemma take_run_not_Go: "take_run ln e stopidx i s \<noteq> Inr (SegGo i' s')"
  by (auto simp: take_run_def bindE_eq_Inr split: option.splits if_splits)

lemma row_pixels_Go:
  "row_pixels ln prev_row bpc_mask e stopidx run_index limit i s = Inr (SegGo i' s') \<Longrightarrow> i' = max i limit"
proof (induction ln prev_row bpc_mask e stopidx run_index limit i s rule: row_pixels.induct)
  case (1 ln prev_row bpc_mask e stopidx run_index limit i s)
  show ?case
  proof (cases "i < limit")
    case True
    then obtain s1 where "run_starts ln prev_row run_index i s = Inr False" "pixel ln prev_row bpc_mask i s = Inr s1"
      "row_pixels ln prev_row bpc_mask e stopidx run_index limit (Suc i) s1 = Inr (SegGo i' s')"
      using "1.prems" by (subst (asm) row_pixels.simps) (auto simp: bindE_eq_Inr take_run_not_Go split: if_splits)
    from "1.IH" [OF True this(1) _ this(2,3)] True show ?thesis by simp
  next
    case False
    then show ?thesis using "1.prems" by (simp add: row_pixels.simps)
  qed
qed

function row_while :: "lane \<Rightarrow> bytes \<Rightarrow> u32 \<Rightarrow> nat \<Rightarrow> u8 \<Rightarrow> nat \<Rightarrow> nat \<Rightarrow> nat \<Rightarrow> nat \<Rightarrow> quic_row \<Rightarrow> quic_error + seg_out" where
  "row_while ln prev_row waitmask bpc bpc_mask e run_index i stopidx s =
     (if stopidx < e then
        bindE (row_pixels ln prev_row bpc_mask e stopidx run_index (Suc stopidx) i (s\<lparr>qr_last_bucket := 0\<rparr>)) (\<lambda>out.
        case out of
          SegGo i s \<Rightarrow>
            bindE (qfor (lane_channels ln) (update_at ln bpc stopidx) s) (\<lambda>s.
            bindE (rand_wait ln waitmask s) (\<lambda>(r, s).
              row_while ln prev_row waitmask bpc bpc_mask e run_index i (i + r) s))
        | _ \<Rightarrow> Inr out)
      else
        bindE (row_pixels ln prev_row bpc_mask e stopidx run_index e i s) (\<lambda>out.
        case out of
          SegGo i s \<Rightarrow> Inr (SegReturn (set_waitcnt ln (stopidx - e) s))
        | _ \<Rightarrow> Inr out))"
  by pat_completeness auto

termination
  by (relation "measure (\<lambda>(_, _, _, _, _, e, _, _, stopidx, _). e - stopidx)") (auto dest!: row_pixels_Go)

declare row_while.simps [simp del]

lemma take_run_Break:
  "take_run ln e stopidx i s = Inr (SegBreak i' stopidx' run' s') \<Longrightarrow> run' = i \<and> i \<le> i' \<and> i' < e"
  by (auto simp: take_run_def bindE_eq_Inr checked_run_end_def split: option.splits if_splits)

lemma run_starts_not_again: "run_starts ln prev_row run_index i s = Inr True \<Longrightarrow> run_index \<noteq> i"
  by (auto simp: run_starts_def bindE_eq_Inr split: if_splits)

definition later_run :: "nat \<Rightarrow> nat \<Rightarrow> nat \<Rightarrow> nat \<Rightarrow> nat \<Rightarrow> bool" where
  "later_run e run_index i i' run' \<longleftrightarrow> i \<le> run' \<and> run' \<le> i' \<and> i' < e \<and> run_index \<noteq> run'"

lemma row_pixels_Break:
  "row_pixels ln prev_row bpc_mask e stopidx run_index limit i s = Inr (SegBreak i' stopidx' run' s') \<Longrightarrow>
   later_run e run_index i i' run'"
proof (induction ln prev_row bpc_mask e stopidx run_index limit i s rule: row_pixels.induct)
  case (1 ln prev_row bpc_mask e stopidx run_index limit i s)
  have lt: "i < limit" using "1.prems" by (auto simp: row_pixels.simps [of ln prev_row bpc_mask e stopidx run_index limit i s] split: if_splits)
  from "1.prems" lt obtain runs where runs: "run_starts ln prev_row run_index i s = Inr runs"
    by (auto simp: row_pixels.simps [of ln prev_row bpc_mask e stopidx run_index limit i s] bindE_eq_Inr)
  show ?case
  proof (cases runs)
    case True
    then have "take_run ln e stopidx i s = Inr (SegBreak i' stopidx' run' s')"
      using "1.prems" lt runs by (simp add: row_pixels.simps [of ln prev_row bpc_mask e stopidx run_index limit i s])
    with runs True show ?thesis by (auto simp: later_run_def dest!: take_run_Break run_starts_not_again)
  next
    case False
    then obtain s1 where s1: "pixel ln prev_row bpc_mask i s = Inr s1"
      "row_pixels ln prev_row bpc_mask e stopidx run_index limit (Suc i) s1 = Inr (SegBreak i' stopidx' run' s')"
      using "1.prems" lt runs by (auto simp: row_pixels.simps [of ln prev_row bpc_mask e stopidx run_index limit i s] bindE_eq_Inr)
    from "1.IH" [OF lt runs False s1] show ?thesis by (auto simp: later_run_def)
  qed
qed

lemma row_while_Break:
  "row_while ln prev_row waitmask bpc bpc_mask e run_index i stopidx s = Inr (SegBreak i' stopidx' run' s') \<Longrightarrow>
   later_run e run_index i i' run'"
proof (induction ln prev_row waitmask bpc bpc_mask e run_index i stopidx s rule: row_while.induct)
  case (1 ln prev_row waitmask bpc bpc_mask e run_index i stopidx s)
  show ?case
  proof (cases "stopidx < e")
    case True
    then obtain out where out: "row_pixels ln prev_row bpc_mask e stopidx run_index (Suc stopidx) i (s\<lparr>qr_last_bucket := 0\<rparr>) = Inr out"
      using "1.prems" by (auto simp: row_while.simps [of ln prev_row waitmask bpc bpc_mask e run_index i stopidx s] bindE_eq_Inr)
    show ?thesis
    proof (cases out)
      case (SegGo i1 s1)
      from "1.prems" True out SegGo obtain s2 r s3 where step: "qfor (lane_channels ln) (update_at ln bpc stopidx) s1 = Inr s2"
        "rand_wait ln waitmask s2 = Inr (r, s3)"
        "row_while ln prev_row waitmask bpc bpc_mask e run_index i1 (i1 + r) s3 = Inr (SegBreak i' stopidx' run' s')"
        by (auto simp: row_while.simps [of ln prev_row waitmask bpc bpc_mask e run_index i stopidx s] bindE_eq_Inr)
      have "later_run e run_index i1 i' run'" using "1.IH" [OF True out SegGo step(1,2) refl step(3)] .
      moreover have "i \<le> i1" using out SegGo by (auto dest: row_pixels_Go)
      ultimately show ?thesis by (auto simp: later_run_def)
    qed (use "1.prems" True out in \<open>auto simp: row_while.simps [of ln prev_row waitmask bpc bpc_mask e run_index i stopidx s] dest!: row_pixels_Break\<close>)
  next
    case False
    then obtain out where "row_pixels ln prev_row bpc_mask e stopidx run_index e i s = Inr out"
      using "1.prems" by (auto simp: row_while.simps [of ln prev_row waitmask bpc bpc_mask e run_index i stopidx s] bindE_eq_Inr)
    with False "1.prems" show ?thesis
      by (cases out) (auto simp: row_while.simps [of ln prev_row waitmask bpc bpc_mask e run_index i stopidx s] dest!: row_pixels_Break)
  qed
qed

text \<open>
  \<^term>\<open>row_while\<close> ends with a return or a break. After a break the loop starts again at a later pixel, or
  at the same one, which then starts no run: it terminates.
\<close>

function row_loop :: "lane \<Rightarrow> bytes \<Rightarrow> u32 \<Rightarrow> nat \<Rightarrow> u8 \<Rightarrow> nat \<Rightarrow> nat \<Rightarrow> nat \<Rightarrow> nat \<Rightarrow> quic_row \<Rightarrow> quic_error + quic_row" where
  "row_loop ln prev_row waitmask bpc bpc_mask e run_index i stopidx s =
     bindE (row_while ln prev_row waitmask bpc bpc_mask e run_index i stopidx s) (\<lambda>out.
     case out of
       SegBreak i stopidx run_index s \<Rightarrow> row_loop ln prev_row waitmask bpc bpc_mask e run_index i stopidx s
     | SegReturn s \<Rightarrow> Inr s
     | SegGo i s \<Rightarrow> Inr s)"
  by pat_completeness auto

termination
  by (relation "measure (\<lambda>(_, _, _, _, _, e, run_index, i, _, _). 2 * (e - i) + (if run_index = i then 0 else 1))")
    (auto simp: later_run_def dest!: row_while_Break)

declare row_loop.simps [simp del]

definition row_seg :: "lane \<Rightarrow> bytes \<Rightarrow> nat \<Rightarrow> nat \<Rightarrow> nat \<Rightarrow> u8 \<Rightarrow> quic_row \<Rightarrow> quic_error + quic_row" where
  "row_seg ln prev_row i e bpc bpc_mask s =
     bindE (qnth BPPMASK (wmidx (lane_state ln (qr_dec s)))) (\<lambda>waitmask.
     bindE (if i = 0 then bindE (first_pixel ln prev_row bpc_mask s) (\<lambda>s. bindE (first_wait ln waitmask bpc s) (\<lambda>s. Inr (1, s)))
            else Inr (i, s)) (\<lambda>(i, s).
       row_loop ln prev_row waitmask bpc bpc_mask e 0 i (i + lane_waitcnt ln s) s))"

section \<open>Rows\<close>

text \<open>
  A row is cut into segments where the wait mask changes; the two kinds of rows differ in the segment
  decoder. A segment does not change \<open>wmileft\<close> and \<open>wmidx\<close>.
\<close>

type_synonym segment = "nat \<Rightarrow> nat \<Rightarrow> quic_row \<Rightarrow> quic_error + quic_row"

definition next_wm :: "lane \<Rightarrow> quic_row \<Rightarrow> quic_error + quic_row" where
  "next_wm ln s =
     (let st = lane_state ln (qr_dec s) in
      bindE (set_wm_trigger (st\<lparr>wmidx := wmidx st + 1\<rparr>)) (\<lambda>st.
        Inr (s\<lparr>qr_dec := set_lane_state ln (st\<lparr>wmileft := DEFWMINEXT\<rparr>) (qr_dec s)\<rparr>)))"

lemma lane_state_set [simp]: "lane_state ln (set_lane_state ln st d) = st"
  by (cases ln) simp_all

lemma next_wm_wmidx: "next_wm ln s = Inr s' \<Longrightarrow> wmidx (lane_state ln (qr_dec s')) = Suc (wmidx (lane_state ln (qr_dec s)))"
  by (auto simp: next_wm_def set_wm_trigger_def bindE_eq_Inr Let_def)

function uncompress_while :: "lane \<Rightarrow> segment \<Rightarrow> nat \<Rightarrow> nat \<Rightarrow> quic_row \<Rightarrow> quic_error + (nat \<times> nat \<times> quic_row)" where
  "uncompress_while ln seg pos width s =
     (let left = wmileft (lane_state ln (qr_dec s)) in
      if DEFWMIMAX > wmidx (lane_state ln (qr_dec s)) \<and> left \<le> width then
        bindE (if left > 0 then seg pos (pos + left) s else Inr s) (\<lambda>s.
        bindE (next_wm ln s) (\<lambda>s. uncompress_while ln seg (pos + left) (width - left) s))
      else Inr (pos, width, s))"
  by pat_completeness auto

termination
  by (relation "inv_image (less_than <*lex*> less_than)
      (\<lambda>(ln, _, _, width, s). (width, DEFWMIMAX - wmidx (lane_state ln (qr_dec s))))")
    (auto split: if_splits dest!: next_wm_wmidx)

declare uncompress_while.simps [simp del]

definition uncompress :: "lane \<Rightarrow> segment \<Rightarrow> quic_row \<Rightarrow> quic_error + quic_row" where
  "uncompress ln seg s =
     bindE (uncompress_while ln seg 0 (qd_width (qr_dec s)) s) (\<lambda>(pos, width, s).
     if width > 0 then
       bindE (seg pos (pos + width) s) (\<lambda>s.
       let st = lane_state ln (qr_dec s) in
       if DEFWMIMAX > wmidx st then
         bindE (qsub (wmileft st) width) (\<lambda>left.
           Inr (s\<lparr>qr_dec := set_lane_state ln (st\<lparr>wmileft := left\<rparr>) (qr_dec s)\<rparr>))
       else Inr s)
     else Inr s)"

definition quic_rgb32_uncompress_row0_seg :: "nat \<Rightarrow> nat \<Rightarrow> u32 \<Rightarrow> nat \<Rightarrow> u8 \<Rightarrow> quic_row \<Rightarrow> quic_error + quic_row" where
  "quic_rgb32_uncompress_row0_seg = row0_seg Rgb"

definition quic_four_uncompress_row0_seg :: "nat \<Rightarrow> nat \<Rightarrow> u32 \<Rightarrow> nat \<Rightarrow> u8 \<Rightarrow> quic_row \<Rightarrow> quic_error + quic_row" where
  "quic_four_uncompress_row0_seg = row0_seg Four"

definition quic_rgb32_uncompress_row_seg :: "bytes \<Rightarrow> nat \<Rightarrow> nat \<Rightarrow> nat \<Rightarrow> u8 \<Rightarrow> quic_row \<Rightarrow> quic_error + quic_row" where
  "quic_rgb32_uncompress_row_seg = row_seg Rgb"

definition quic_four_uncompress_row_seg :: "bytes \<Rightarrow> nat \<Rightarrow> nat \<Rightarrow> nat \<Rightarrow> u8 \<Rightarrow> quic_row \<Rightarrow> quic_error + quic_row" where
  "quic_four_uncompress_row_seg = row_seg Four"

definition row0_segment :: "lane \<Rightarrow> (nat \<Rightarrow> nat \<Rightarrow> u32 \<Rightarrow> nat \<Rightarrow> u8 \<Rightarrow> quic_row \<Rightarrow> quic_error + quic_row) \<Rightarrow> segment" where
  "row0_segment ln seg pos e s =
     bindE (qnth BPPMASK (wmidx (lane_state ln (qr_dec s)))) (\<lambda>waitmask. seg pos e waitmask 8 0xff s)"

definition quic_rgb32_uncompress_row0 :: "quic_row \<Rightarrow> quic_error + quic_row" where
  "quic_rgb32_uncompress_row0 = uncompress Rgb (row0_segment Rgb quic_rgb32_uncompress_row0_seg)"

definition quic_rgb32_uncompress_row :: "bytes \<Rightarrow> quic_row \<Rightarrow> quic_error + quic_row" where
  "quic_rgb32_uncompress_row prev_row =
     uncompress Rgb (\<lambda>pos e. quic_rgb32_uncompress_row_seg prev_row pos e 8 0xff)"

definition quic_four_uncompress_row0 :: "quic_row \<Rightarrow> quic_error + quic_row" where
  "quic_four_uncompress_row0 = uncompress Four (row0_segment Four quic_four_uncompress_row0_seg)"

definition quic_four_uncompress_row :: "bytes \<Rightarrow> quic_row \<Rightarrow> quic_error + quic_row" where
  "quic_four_uncompress_row prev_row =
     uncompress Four (\<lambda>pos e. quic_four_uncompress_row_seg prev_row pos e 8 0xff)"

section \<open>The image\<close>

definition set_zero :: "u32 \<Rightarrow> nat \<Rightarrow> quic_decoder \<Rightarrow> quic_decoder" where
  "set_zero z c d = d\<lparr>qd_channels := (qd_channels d)(c := (qd_channels d c)\<lparr>ch_zero := z\<rparr>)\<rparr>"

definition zero_from_row :: "nat \<Rightarrow> quic_row \<Rightarrow> quic_error + quic_row" where
  "zero_from_row c s =
     bindE (qnth (ch_row (qd_channels (qr_dec s) c)) 0) (\<lambda>z. Inr (s\<lparr>qr_dec := set_zero z c (qr_dec s)\<rparr>))"

definition clear_zero :: "nat \<Rightarrow> quic_row \<Rightarrow> quic_row" where
  "clear_zero c s = s\<lparr>qr_dec := set_zero 0 c (qr_dec s)\<rparr>"

text \<open>The lanes of an image type: the colours, and the fourth channel for RGBA.\<close>

definition QUIC_IMAGE_TYPE_RGB24 :: u32 where "QUIC_IMAGE_TYPE_RGB24 = 3"
definition QUIC_IMAGE_TYPE_RGB32 :: u32 where "QUIC_IMAGE_TYPE_RGB32 = 4"
definition QUIC_IMAGE_TYPE_RGBA :: u32 where "QUIC_IMAGE_TYPE_RGBA = 5"

definition first_row :: "bool \<Rightarrow> quic_row \<Rightarrow> quic_error + quic_row" where
  "first_row rgba s =
     bindE (quic_rgb32_uncompress_row0 (fold clear_zero [0, 1, 2] s)) (\<lambda>s.
     if rgba then quic_four_uncompress_row0 (clear_zero 3 s) else Inr s)"

definition next_row :: "bool \<Rightarrow> bytes \<Rightarrow> quic_row \<Rightarrow> quic_error + quic_row" where
  "next_row rgba prev_row s =
     bindE (qfor [0, 1, 2] zero_from_row s) (\<lambda>s.
     bindE (quic_rgb32_uncompress_row prev_row s) (\<lambda>s.
     if rgba then bindE (zero_from_row 3 s) (quic_four_uncompress_row prev_row) else Inr s))"

text \<open>
  A row of the image decoded in place, as the slice of the buffer it is; the slice must be inside.
\<close>

definition on_row :: "nat \<Rightarrow> nat \<Rightarrow> (quic_row \<Rightarrow> quic_error + quic_row) \<Rightarrow> quic_decoder \<times> bytes \<Rightarrow> quic_error + (quic_decoder \<times> bytes)" where
  "on_row stride row body = (\<lambda>(d, buf).
     let split = row * stride in
     if split + stride \<le> length buf then
       bindE (body \<lparr>qr_dec = d, qr_cur = take stride (drop split buf), qr_last_bucket = 0\<rparr>) (\<lambda>s.
         Inr ((qr_dec s)\<lparr>qd_rows_completed := qd_rows_completed (qr_dec s) + 1\<rparr>,
           take split buf @ qr_cur s @ drop (split + stride) buf))
     else Inl QuicPanic)"

definition decode_rows :: "bool \<Rightarrow> nat \<Rightarrow> quic_decoder \<times> bytes \<Rightarrow> quic_error + (quic_decoder \<times> bytes)" where
  "decode_rows rgba stride st =
     bindE (on_row stride 0 (first_row rgba) st) (\<lambda>(d, buf).
       qfor [1..<qd_height d] (\<lambda>row (d, buf).
         on_row stride row (next_row rgba (take stride (drop ((row - 1) * stride) buf))) (d, buf)) (d, buf))"

definition QuicDecoder_quic_decode :: "nat \<Rightarrow> quic_decoder \<times> bytes \<Rightarrow> quic_error + (quic_decoder \<times> bytes)" where
  "QuicDecoder_quic_decode stride st =
     (let t = qd_image_type (fst st) in
      if t = QUIC_IMAGE_TYPE_RGB32 \<or> t = QUIC_IMAGE_TYPE_RGB24 then decode_rows False stride st
      else if t = QUIC_IMAGE_TYPE_RGBA then decode_rows True stride st
      else Inl QuicFailed)"

definition rgba_pixel :: "bool \<Rightarrow> bytes \<Rightarrow> nat \<Rightarrow> bytes" where
  "rgba_pixel rgba native i =
     [native ! (i + 2), native ! (i + 1), native ! i, if rgba then 255 - native ! (i + 3) else 255]"

definition native_to_rgba :: "bool \<Rightarrow> nat \<Rightarrow> bytes \<Rightarrow> bytes" where
  "native_to_rgba rgba total_len native = concat (map (\<lambda>k. rgba_pixel rgba native (4 * k)) [0..<total_len div 4])"

definition quic_decode :: "bytes \<Rightarrow> u32 \<Rightarrow> u32 \<Rightarrow> quic_error + bytes" where
  "quic_decode data width height =
     bindE QuicDecoder_new (\<lambda>d.
     bindE (quic_decode_begin data d) (\<lambda>d.
     if qd_image_type d \<noteq> QUIC_IMAGE_TYPE_RGB32 \<and> qd_image_type d \<noteq> QUIC_IMAGE_TYPE_RGB24
        \<and> qd_image_type d \<noteq> QUIC_IMAGE_TYPE_RGBA then Inl QuicFailed
     else if word_of_nat (qd_width d) \<noteq> width \<or> word_of_nat (qd_height d) \<noteq> height then Inl QuicFailed
     else
       let total_len = qd_output_len d; stride = qd_width d * 4 in
       bindE (QuicDecoder_quic_decode stride (d, replicate total_len 0)) (\<lambda>(_, native).
         Inr (native_to_rgba (qd_image_type d = QUIC_IMAGE_TYPE_RGBA) total_len native))))"

end
