(* ===== verification/Quic_Safe.thy ===== *)
theory Quic_Safe
  imports Quic_Rows
begin

unbundle bit_operations_syntax

text \<open>
  The QUIC decoder returns on every input: no index, shift or subtraction of it panics, and its loops end.
  The proof is an invariant of the decoder state that every operation keeps, with the rules of \<open>safe\<close>.
\<close>

section \<open>The invariant\<close>

definition state_ok :: "common_state \<Rightarrow> bool" where
  "state_ok st \<longleftrightarrow> melcstate st < 32 \<and> melclen st = J ! melcstate st \<and> wmidx st \<le> 6"

definition bucket_ok :: "quic_bucket \<Rightarrow> bool" where
  "bucket_ok b \<longleftrightarrow> bk_bestcode b < 8 \<and> length (bk_counters b) = 8"

definition chan_ok :: "nat \<Rightarrow> quic_channel \<Rightarrow> bool" where
  "chan_ok W ch \<longleftrightarrow> state_ok (ch_state ch) \<and> unat (ch_zero ch) < 256
     \<and> length (ch_row ch) = W \<and> (\<forall>i<W. unat (ch_row ch ! i) < 256)
     \<and> length (ch_buckets_ptrs ch) = 256 \<and> (\<forall>i<256. ch_buckets_ptrs ch ! i < 8)
     \<and> length (ch_buckets_buf ch) = 8 \<and> (\<forall>i<8. bucket_ok (ch_buckets_buf ch ! i))"

definition dec_ok :: "nat \<Rightarrow> nat \<Rightarrow> quic_decoder \<Rightarrow> bool" where
  "dec_ok W H d \<longleftrightarrow> io_ok d \<and> qd_width d = W \<and> qd_height d = H \<and> qd_family_8bpc d = family_8bpc
     \<and> qd_zero_lut d = LZEROES \<and> state_ok (qd_rgb_state d) \<and> (\<forall>c<4. chan_ok W (qd_channels d c))"

definition wm :: "lane \<Rightarrow> quic_decoder \<Rightarrow> nat \<times> nat" where
  "wm ln d = (wmidx (lane_state ln d), wmileft (lane_state ln d))"

text \<open>The invariant inside a segment of a lane, which keeps the lane's \<open>wmidx\<close> and \<open>wmileft\<close>.\<close>

definition row_ok :: "nat \<Rightarrow> nat \<Rightarrow> lane \<Rightarrow> nat \<times> nat \<Rightarrow> quic_row \<Rightarrow> bool" where
  "row_ok W H ln m s \<longleftrightarrow> dec_ok W H (qr_dec s) \<and> wm ln (qr_dec s) = m \<and> length (qr_cur s) = 4 * W \<and> qr_last_bucket s < 8"

text \<open>Between segments.\<close>

definition row_any :: "nat \<Rightarrow> nat \<Rightarrow> quic_row \<Rightarrow> bool" where
  "row_any W H s \<longleftrightarrow> dec_ok W H (qr_dec s) \<and> length (qr_cur s) = 4 * W \<and> qr_last_bucket s < 8"

lemma row_ok_any: "row_ok W H ln m s \<Longrightarrow> row_any W H s"
  by (simp add: row_ok_def row_any_def)

lemma row_any_ok: "row_any W H s \<Longrightarrow> row_ok W H ln (wm ln (qr_dec s)) s"
  by (simp add: row_ok_def row_any_def)

lemma J_table: "length J = 32" "\<forall>i\<in>set [0..<32]. J ! i < 16"
  by code_simp+

lemma J_at: "i < 32 \<Longrightarrow> qnth J i = Inr (J ! i) \<and> J ! i < 16"
  using J_table by (simp add: qnth_def)

lemma LZEROES_le: "i < 256 \<Longrightarrow> LZEROES ! i \<le> 8"
proof -
  have "\<forall>i\<in>set [0..<256]. LZEROES ! i \<le> 8" by code_simp
  then show "i < 256 \<Longrightarrow> LZEROES ! i \<le> 8" by simp
qed

lemma length_CHAOS: "length TABRAND_CHAOS = 256"
  by code_simp

lemma and_ff_less: "unat ((w :: u32) AND 0xff) < 256"
  by (simp add: mask_8 unat_mask)

lemma update_all: "\<forall>j<length xs. P (xs ! j) \<Longrightarrow> P v \<Longrightarrow> j < length xs \<Longrightarrow> P (xs[i := v] ! j)"
  by (cases "i = j") simp_all

lemma length_BPPMASK: "length BPPMASK = 33"
  by code_simp

subsection \<open>Updates of the state\<close>

lemma lane_state_ok: "dec_ok W H d \<Longrightarrow> state_ok (lane_state ln d)"
  by (cases ln) (simp_all add: dec_ok_def chan_ok_def)

lemma dec_ok_set_lane: "dec_ok W H d \<Longrightarrow> state_ok st \<Longrightarrow> dec_ok W H (set_lane_state ln st d)"
  by (cases ln) (simp_all add: dec_ok_def chan_ok_def io_ok_def)

lemma wm_set_lane [simp]: "wm ln (set_lane_state ln st d) = (wmidx st, wmileft st)"
  by (simp add: wm_def)

lemma dec_ok_set_channel:
  "dec_ok W H d \<Longrightarrow> chan_ok W ch \<Longrightarrow> dec_ok W H (d\<lparr>qd_channels := (qd_channels d)(c := ch)\<rparr>)"
  by (simp add: dec_ok_def io_ok_def)

lemma wm_set_channel:
  "ch_state ch = ch_state (qd_channels d c) \<Longrightarrow> wm ln (d\<lparr>qd_channels := (qd_channels d)(c := ch)\<rparr>) = wm ln d"
  by (cases ln) (auto simp: wm_def)

lemma row_ok_set_waitcnt: "row_ok W H ln m s \<Longrightarrow> row_ok W H ln m (set_waitcnt ln n s)"
proof -
  assume ok: "row_ok W H ln m s"
  then have "state_ok (lane_state ln (qr_dec s))" by (auto simp: row_ok_def intro: lane_state_ok)
  then have "state_ok ((lane_state ln (qr_dec s))\<lparr>waitcnt := n\<rparr>)" by (simp add: state_ok_def)
  with ok show ?thesis by (auto simp: row_ok_def set_waitcnt_def wm_def intro: dec_ok_set_lane)
qed

lemma row_ok_chan: "row_ok W H ln m s \<Longrightarrow> c < 4 \<Longrightarrow> chan_ok W (qd_channels (qr_dec s) c)"
  by (simp add: row_ok_def dec_ok_def)

subsection \<open>Reading bits\<close>

lemma eatbits_fields:
  assumes "decode_eatbits len d = Inr (d' :: quic_decoder)"
  shows "qd_width d' = qd_width d" "qd_height d' = qd_height d" "qd_family_8bpc d' = qd_family_8bpc d"
    "qd_zero_lut d' = qd_zero_lut d" "qd_rgb_state d' = qd_rgb_state d" "qd_channels d' = qd_channels d"
    "qd_image_type d' = qd_image_type d" "qd_output_len d' = qd_output_len d"
  using eatbits_frame [OF assms] by (cases d; cases d'; simp)+

lemma safe_eatbits_dec:
  assumes "dec_ok W H d" and "len < 32"
  shows "safe (decode_eatbits len d) (\<lambda>d'. dec_ok W H d' \<and> (\<forall>ln. lane_state ln d' = lane_state ln d))"
proof -
  have "safe (decode_eatbits len d) io_ok" using assms by (auto simp: dec_ok_def intro: safe_eatbits)
  then show ?thesis
  proof (rule safe_mono [OF safe_conj])
    fix d' assume "decode_eatbits len d = Inr d'"
    note eatbits_fields [OF this]
    then show "(\<forall>W H. dec_ok W H d \<and> io_ok d' \<longrightarrow> dec_ok W H d') \<and> (\<forall>ln. lane_state ln d' = lane_state ln d)"
      by (auto simp: dec_ok_def) (metis lane.exhaust lane_state.simps)
  qed (use assms in auto)
qed

section \<open>Codes\<close>

lemma safe_decode_code:
  assumes ok: "row_ok W H ln m s" and c: "c < 4" and key: "unat key < 256" and i: "i < W" and pos: "pos < 4 * W"
  shows "safe (decode_code c key i pos f s) (row_ok W H ln m)"
proof -
  let ?d = "qr_dec s" and ?ch = "qd_channels (qr_dec s) c"
  have d: "dec_ok W H ?d" and ch: "chan_ok W ?ch" using ok c by (auto simp: row_ok_def dec_ok_def)
  have fam: "qd_family_8bpc ?d = family_8bpc" using d by (simp add: dec_ok_def)
  define bidx where "bidx = ch_buckets_ptrs ?ch ! unat key"
  have bidx: "qnth (ch_buckets_ptrs ?ch) (unat key) = Inr bidx" "bidx < 8"
    "qnth (ch_buckets_buf ?ch) bidx = Inr (ch_buckets_buf ?ch ! bidx)" "bk_bestcode (ch_buckets_buf ?ch ! bidx) < 8"
    using ch key by (simp_all add: chan_ok_def qnth_def bidx_def bucket_ok_def)
  have step: "safe (bindE (qset (ch_row ?ch) i rc) (\<lambda>row. bindE (qnth (xlat_l2u family_8bpc) (unat rc)) (\<lambda>x.
      bindE (qset (qr_cur s) pos (f x)) (\<lambda>cur.
      bindE (decode_eatbits cwlen (?d\<lparr>qd_channels := (qd_channels ?d)(c := ?ch\<lparr>ch_row := row\<rparr>)\<rparr>)) (\<lambda>d.
        Inr \<lparr>qr_dec = d, qr_cur = cur, qr_last_bucket = bidx\<rparr>))))) (row_ok W H ln m)"
    if rc: "cwlen < 32" "unat rc < 256" for cwlen rc
  proof -
    let ?d' = "?d\<lparr>qd_channels := (qd_channels ?d)(c := ?ch\<lparr>ch_row := (ch_row ?ch)[i := rc]\<rparr>)\<rparr>"
    have "chan_ok W (?ch\<lparr>ch_row := (ch_row ?ch)[i := rc]\<rparr>)"
      using ch rc update_all [of "ch_row ?ch" "\<lambda>x. unat x < 256"] by (simp add: chan_ok_def)
    then have d': "dec_ok W H ?d'" by (rule dec_ok_set_channel [OF d])
    have "wm ln ?d' = m" using ok by (subst wm_set_channel) (simp_all add: row_ok_def)
    then have "safe (bindE (decode_eatbits cwlen ?d') (\<lambda>d.
        Inr \<lparr>qr_dec = d, qr_cur = (qr_cur s)[pos := f (xlat_l2u family_8bpc ! unat rc)], qr_last_bucket = bidx\<rparr>)) (row_ok W H ln m)"
      using ok bidx(2) by (intro safe_bind [OF safe_eatbits_dec [OF d' rc(1)]]) (simp add: row_ok_def wm_def)
    moreover have "i < length (ch_row ?ch)" "pos < length (qr_cur s)" using ch i ok pos by (simp_all add: chan_ok_def row_ok_def)
    ultimately show ?thesis using rc(2) by (simp add: qset_def qnth_def length_xlat)
  qed
  show ?thesis
    unfolding decode_code_def Let_def bidx fam bindE_simps
    by (rule safe_bind [OF safe_golomb [OF bidx(4)]]) (use step in auto)
qed

section \<open>Pixels\<close>

lemma byte_of_less: "c < 4 \<Longrightarrow> byte_of c < 4"
  by (auto simp: byte_of_def)

lemma byte_pos: "i < W \<Longrightarrow> c < 4 \<Longrightarrow> i * 4 + byte_of c < 4 * W"
  using byte_of_less [of c] by simp

lemma safe_context_key:
  "row_ok W H ln m s \<Longrightarrow> c < 4 \<Longrightarrow> 0 < i \<Longrightarrow> i \<le> W \<Longrightarrow> safe (context_key c i s) (\<lambda>key. unat key < 256)"
  by (auto simp: context_key_def qsub_def qnth_def chan_ok_def dest: row_ok_chan)

lemma row_ok_set_cur: "row_ok W H ln m s \<Longrightarrow> length cur = 4 * W \<Longrightarrow> row_ok W H ln m (s\<lparr>qr_cur := cur\<rparr>)"
  by (simp add: row_ok_def)

lemma row_ok_cur: "row_ok W H ln m s \<Longrightarrow> length (qr_cur s) = 4 * W"
  by (simp add: row_ok_def)

lemma safe_clear_pad: "row_ok W H ln m s \<Longrightarrow> i < W \<Longrightarrow> safe (clear_pad l' i s) (row_ok W H ln m)"
  by (cases l') (simp_all add: qset_def row_ok_cur row_ok_set_cur)

lemma safe_channels:
  assumes "\<And>c s. c < 4 \<Longrightarrow> row_ok W H ln m s \<Longrightarrow> safe (body c s) (row_ok W H ln m)" and "row_ok W H ln m s"
  shows "safe (qfor (lane_channels l') body s) (row_ok W H ln m)"
  by (rule safe_qfor [OF assms(1) assms(2)]) (cases l'; auto)+

lemma row_ok_zero: "row_ok W H ln m s \<Longrightarrow> c < 4 \<Longrightarrow> unat (ch_zero (qd_channels (qr_dec s) c)) < 256"
  by (auto simp: chan_ok_def dest: row_ok_chan)

lemma safe_first0_pixel:
  assumes "row_ok W H ln m s" and "0 < W"
  shows "safe (first0_pixel l' s) (row_ok W H ln m)"
  unfolding first0_pixel_def first0_code_def
proof (rule safe_bind [OF safe_clear_pad [OF assms]], rule safe_channels)
  fix c :: nat and s assume "c < 4" "row_ok W H ln m s"
  then show "safe (decode_code c (ch_zero (qd_channels (qr_dec s) c)) 0 (byte_of c) ucast s) (row_ok W H ln m)"
    using byte_pos [of 0 W c] assms(2) by (intro safe_decode_code row_ok_zero) simp_all
qed

lemma safe_first_pixel:
  assumes "row_ok W H ln m s" and "0 < W" and prev: "length prev_row = 4 * W"
  shows "safe (first_pixel l' prev_row bpc_mask s) (row_ok W H ln m)"
  unfolding first_pixel_def first_code_def
proof (rule safe_bind [OF safe_clear_pad [OF assms(1,2)]], rule safe_channels)
  fix c :: nat and s assume c: "c < 4" "row_ok W H ln m s"
  then have "byte_of c < length prev_row" using byte_pos [of 0 W c] assms(2) prev by simp
  then show "safe (bindE (qnth prev_row (byte_of c)) (\<lambda>p. decode_code c (ch_zero (qd_channels (qr_dec s) c)) 0 (byte_of c)
      (\<lambda>x. ucast (x + ucast p) AND bpc_mask) s)) (row_ok W H ln m)"
    using c prev assms(2) by (simp add: qnth_def) (intro safe_decode_code row_ok_zero, simp_all)
qed

lemma safe_pixel0:
  assumes "row_ok W H ln m s" and i: "0 < i" "i < W"
  shows "safe (pixel0 l' bpc_mask i s) (row_ok W H ln m)"
  unfolding pixel0_def
proof (rule safe_bind [OF safe_clear_pad [OF assms(1) i(2)]], rule safe_channels)
  fix c :: nat and s assume c: "c < 4" "row_ok W H ln m s"
  have "(i - 1) * 4 + byte_of c < length (qr_cur s)" using byte_pos [of "i - 1" W c] c i by (simp add: row_ok_cur)
  then show "safe (pixel0_code bpc_mask i c s) (row_ok W H ln m)"
    unfolding pixel0_code_def using c i byte_pos [OF i(2) c(1)]
    by (intro safe_bind [OF safe_context_key [OF c(2,1)]]) (simp_all add: qnth_def safe_decode_code)
qed

lemma safe_pixel:
  assumes "row_ok W H ln m s" and i: "0 < i" "i < W" and prev: "length prev_row = 4 * W"
  shows "safe (pixel l' prev_row bpc_mask i s) (row_ok W H ln m)"
  unfolding pixel_def
proof (rule safe_bind [OF safe_clear_pad [OF assms(1) i(2)]], rule safe_channels)
  fix c :: nat and s assume c: "c < 4" "row_ok W H ln m s"
  have "(i - 1) * 4 + byte_of c < length (qr_cur s)" "i * 4 + byte_of c < length prev_row"
    using byte_pos [of "i - 1" W c] byte_pos [OF i(2) c(1)] c i prev by (simp_all add: row_ok_cur)
  then show "safe (pixel_code prev_row bpc_mask i c s) (row_ok W H ln m)"
    unfolding pixel_code_def using c i byte_pos [OF i(2) c(1)]
    by (intro safe_bind [OF safe_context_key [OF c(2,1)]]) (simp_all add: qnth_def safe_decode_code)
qed

section \<open>Adapting\<close>

lemma safe_charge:
  assumes "i < 8" and "length counters = 8"
  shows "safe (charge curval family_8bpc i counters) (\<lambda>cs. length cs = 8)"
proof -
  have lens: "length (n_gr_codewords family_8bpc) = 8" "length (not_gr_cw_len family_8bpc) = 8"
    by (simp_all add: family_8bpc_codes)
  have "safe (golomb_code_len_8bpc curval i family_8bpc) (\<lambda>_. True)"
    using assms lens by (simp add: golomb_code_len_8bpc_def qnth_def qshr_def)
  then show ?thesis using assms unfolding charge_def
    by (simp add: qnth_def) (auto simp: qset_def intro: safe_bind)
qed

lemma safe_update_model:
  assumes "bucket_ok b"
  shows "safe (update_model_8bpc trig curval 8 family_8bpc b) bucket_ok"
proof -
  let ?I = "\<lambda>(cs, best, len). length cs = (8 :: nat) \<and> best < (8 :: nat)"
  have len: "length (bk_counters b) = 8" using assms by (simp add: bucket_ok_def)
  have body: "safe (case st of (cs, best, len) \<Rightarrow> bindE (charge curval family_8bpc i cs) (\<lambda>cs.
      Inr (if cs ! i < len then (cs, i, cs ! i) else (cs, best, len)))) ?I" if "i < 8" "?I st" for i st
    using that by (cases st) (auto intro!: safe_bind [OF safe_charge])
  have halve: "safe (qfor [0..<8] (\<lambda>i cs. bindE (qnth cs i) (\<lambda>c. qset cs i (drop_bit (Suc 0) c))) cs) (\<lambda>cs. length cs = 8)"
    if "length cs = 8" for cs :: "u32 list"
    by (rule safe_qfor [where P = "\<lambda>cs. length cs = 8"]) (simp_all add: qnth_def qset_def that)
  show ?thesis
    unfolding update_model_8bpc_def
    apply (simp add: qsub_def del: upt_Suc)
    apply (rule safe_bind [OF safe_charge [OF _ len]], simp)
    apply (rule safe_bind [where P = ?I])
     apply (rule safe_qfor [where P = ?I])
      apply (rule body; simp)
     apply simp
    apply (clarsimp simp: bucket_ok_def simp del: upt_Suc)
    apply (rule safe_bind [OF halve]; simp add: bucket_ok_def)
    done
qed

lemma safe_update_bucket:
  assumes ok: "row_ok W H ln m s" and c: "c < 4" and b: "bidx < 8"
  shows "safe (update_bucket l' 8 c val bidx s) (row_ok W H ln m)"
proof -
  let ?d = "qr_dec s" and ?ch = "qd_channels (qr_dec s) c"
  have d: "dec_ok W H ?d" "qd_family_8bpc ?d = family_8bpc" and ch: "chan_ok W ?ch" using ok c by (auto simp: row_ok_def dec_ok_def)
  have buf: "length (ch_buckets_buf ?ch) = 8" "bucket_ok (ch_buckets_buf ?ch ! bidx)" using ch b by (auto simp: chan_ok_def)
  have "row_ok W H ln m (s\<lparr>qr_dec := ?d\<lparr>qd_channels := (qd_channels ?d)(c := ?ch\<lparr>ch_buckets_buf := (ch_buckets_buf ?ch)[bidx := b']\<rparr>)\<rparr>\<rparr>)"
    if "bucket_ok b'" for b'
  proof -
    have "chan_ok W (?ch\<lparr>ch_buckets_buf := (ch_buckets_buf ?ch)[bidx := b']\<rparr>)"
      using ch that update_all [of "ch_buckets_buf ?ch" bucket_ok] by (simp add: chan_ok_def)
    then show ?thesis using ok by (simp add: row_ok_def dec_ok_set_channel wm_set_channel)
  qed
  then show ?thesis
    unfolding update_bucket_def Let_def d(2) using b buf
    by (simp add: qnth_def) (rule safe_bind [OF safe_update_model [OF buf(2)]], simp add: qset_def)
qed

lemma row_ok_ptrs: "row_ok W H ln m s \<Longrightarrow> c < 4 \<Longrightarrow> unat (key :: u32) < 256 \<Longrightarrow>
  safe (qnth (ch_buckets_ptrs (qd_channels (qr_dec s) c)) (unat key)) (\<lambda>bidx. bidx < 8)"
  by (auto simp: chan_ok_def qnth_def dest: row_ok_chan)

lemma row_ok_row: "row_ok W H ln m s \<Longrightarrow> c < 4 \<Longrightarrow> i < W \<Longrightarrow>
  safe (qnth (ch_row (qd_channels (qr_dec s) c)) i) (\<lambda>val. unat val < 256)"
  by (auto simp: chan_ok_def qnth_def dest: row_ok_chan)

lemma safe_update_first:
  assumes ok: "row_ok W H ln m s" and c: "c < 4" and W: "0 < W"
  shows "safe (update_first l' 8 c s) (row_ok W H ln m)"
  unfolding update_first_def Let_def
  by (intro safe_bind [OF row_ok_row [OF ok c W]] safe_bind [OF row_ok_ptrs [OF ok c row_ok_zero [OF ok c]]]
      safe_update_bucket [OF ok c])

lemma safe_update_at:
  assumes ok: "row_ok W H ln m s" and c: "c < 4" and i: "0 < i" "i < W"
  shows "safe (update_at l' 8 i c s) (row_ok W H ln m)"
proof (cases l')
  case Rgb
  have "i \<le> W" using i by simp
  then show ?thesis
    by (simp add: Rgb) (intro safe_bind [OF safe_context_key [OF ok c i(1)]] safe_bind [OF row_ok_ptrs [OF ok c]]
      safe_bind [OF row_ok_row [OF ok c i(2)]] safe_update_bucket [OF ok c])
next
  case Four
  have "qr_last_bucket s < 8" using ok by (simp add: row_ok_def)
  then show ?thesis by (simp add: Four) (intro safe_bind [OF row_ok_row [OF ok c i(2)]] safe_update_bucket [OF ok c])
qed

lemma safe_rand_wait: "row_ok W H ln m s \<Longrightarrow> safe (rand_wait ln waitmask s) (\<lambda>(r, s'). row_ok W H ln m s')"
proof -
  assume ok: "row_ok W H ln m s"
  have "state_ok ((lane_state ln (qr_dec s))\<lparr>tabrand_seed := x\<rparr>)" for x
    using ok lane_state_ok [of W H "qr_dec s" ln] by (simp add: row_ok_def state_ok_def)
  with ok show ?thesis
    by (simp add: rand_wait_def tabrand_def Let_def qnth_def length_CHAOS and_ff_less)
      (auto simp: row_ok_def wm_def intro: dec_ok_set_lane)
qed

lemma safe_first_wait:
  assumes ok: "row_ok W H ln m s" and W: "0 < W"
  shows "safe (first_wait ln waitmask 8 s) (row_ok W H ln m)"
  unfolding first_wait_def
  by (auto intro!: row_ok_set_waitcnt ok safe_bind [OF safe_rand_wait [OF ok]] safe_channels safe_update_first W)

section \<open>Segments\<close>

lemma row_ok_last_bucket: "row_ok W H ln m s \<Longrightarrow> row_ok W H ln m (s\<lparr>qr_last_bucket := 0\<rparr>)"
  by (simp add: row_ok_def)

lemma safe_pixels0:
  assumes "row_ok W H ln m s" and "0 < i" and "j \<le> W"
  shows "safe (qfor [i..<j] (pixel0 l' bpc_mask) s) (row_ok W H ln m)"
  by (rule safe_qfor [OF safe_pixel0]) (use assms in auto)

lemma safe_seg0_while:
  assumes "row_ok W H ln m s" and "0 < i" and "i \<le> stopidx" and "e \<le> W"
  shows "safe (seg0_while ln waitmask 8 bpc_mask e i stopidx s) (\<lambda>(i', _, s'). row_ok W H ln m s' \<and> 0 < i')"
  using assms
proof (induction ln waitmask "8 :: nat" bpc_mask e i stopidx s rule: seg0_while.induct)
  case (1 ln waitmask bpc_mask e i stopidx s)
  show ?case
  proof (cases "stopidx < e")
    case True
    have upd: "safe (qfor (lane_channels ln) (update_at ln 8 stopidx) s1) (row_ok W H ln m)" if "row_ok W H ln m s1" for s1
      using "1.prems" True by (intro safe_channels [OF _ that] safe_update_at) auto
    show ?thesis
      apply (subst seg0_while.simps, simp only: True if_True)
      apply (rule safe_bind [OF safe_pixels0 [OF row_ok_last_bucket [OF "1.prems"(1)] "1.prems"(2)]])
       apply (use "1.prems"(4) True in simp)
      apply (rule safe_bind [OF upd], assumption)
      apply (rule safe_bind [OF safe_rand_wait], assumption)
      apply (clarsimp simp only: Let_def prod.case)
      apply (rule "1.hyps" [OF True _ _ _ refl refl]; (assumption | simp add: "1.prems"))
      done
  next
    case False
    then show ?thesis using "1.prems" by (subst seg0_while.simps) simp
  qed
qed

lemma safe_row0_seg:
  assumes ok: "row_ok W H ln m s" and e: "i < e" "e \<le> W"
  shows "safe (row0_seg ln i e waitmask 8 bpc_mask s) (row_ok W H ln m)"
proof -
  have W: "0 < W" using e by simp
  have start: "safe (if i = 0 then bindE (first0_pixel ln s) (\<lambda>s. bindE (first_wait ln waitmask 8 s) (\<lambda>s. Inr (1, s)))
      else Inr (i, s)) (\<lambda>(i, s). row_ok W H ln m s \<and> 0 < i)"
    using ok by (auto intro!: safe_bind [OF safe_first0_pixel [OF ok W]] safe_bind [OF safe_first_wait [OF _ W]])
  show ?thesis
    unfolding row0_seg_def
    apply (rule safe_bind [OF start], clarsimp)
    apply (rule safe_bind [OF safe_seg0_while], assumption, assumption, simp, rule e(2), clarsimp)
    apply (rule safe_bind [OF safe_pixels0], assumption, assumption, rule e(2), simp add: row_ok_set_waitcnt)
    done
qed

subsection \<open>Runs\<close>

lemma safe_melc_up:
  "state_ok (snd st) \<Longrightarrow> safe (melc_up k st) (\<lambda>st'. state_ok (snd st')
     \<and> wmidx (snd st') = wmidx (snd st) \<and> wmileft (snd st') = wmileft (snd st))"
  using J_at by (cases st) (auto simp: melc_up_def Let_def MELCSTATES_def state_ok_def)

definition run_ok :: "nat \<Rightarrow> nat \<Rightarrow> quic_decoder \<Rightarrow> common_state \<Rightarrow> quic_decoder \<times> nat \<times> common_state \<Rightarrow> bool" where
  "run_ok W H d st = (\<lambda>(d', _, st'). dec_ok W H d' \<and> (\<forall>ln. lane_state ln d' = lane_state ln d)
     \<and> state_ok st' \<and> wmidx st' = wmidx st \<and> wmileft st' = wmileft st)"

lemma safe_run_loop:
  "dec_ok W H d \<Longrightarrow> state_ok st \<Longrightarrow> safe (run_loop d runlen st) (run_ok W H d st)"
proof (induction d runlen st rule: run_loop.induct)
  case (1 d runlen st)
  let ?x = "unat (NOT (drop_bit 24 (io_word d)) AND 0xff)"
  have x: "?x < 256" by (rule and_ff_less)
  have lut: "qnth (qd_zero_lut d) ?x = Inr (LZEROES ! ?x)"
    using "1.prems"(1) x by (simp add: dec_ok_def qnth_def LZEROES_table)
  let ?up = "\<lambda>st'. state_ok (snd st') \<and> wmidx (snd st') = wmidx st \<and> wmileft (snd st') = wmileft st"
  have up: "safe (qfor [1..<Suc (LZEROES ! ?x)] melc_up (runlen, st)) ?up"
    by (rule safe_qfor [where P = ?up]) (use "1.prems"(2) in \<open>auto intro: safe_mono [OF safe_melc_up]\<close>)
  show ?case
  proof (subst run_loop.simps, unfold lut bindE_simps, rule safe_bind [OF up], clarify)
    fix runlen' st' assume st': "qfor [1..<Suc (LZEROES ! ?x)] melc_up (runlen, st) = Inr (runlen', st')"
      "state_ok (snd (runlen', st'))" "wmidx (snd (runlen', st')) = wmidx st" "wmileft (snd (runlen', st')) = wmileft st"
    have eat: "safe (decode_eatbits n d) (\<lambda>d'. dec_ok W H d' \<and> (\<forall>ln. lane_state ln d' = lane_state ln d))" if "n < 32" for n
      using "1.prems"(1) that by (rule safe_eatbits_dec)
    show "safe (if LZEROES ! ?x \<noteq> 8 then bindE (decode_eatbits (LZEROES ! ?x + 1) d) (\<lambda>d. Inr (d, runlen', st'))
       else bindE (decode_eatbits 8 d) (\<lambda>d. run_loop d runlen' st')) (run_ok W H d st)"
    proof (cases "LZEROES ! ?x = 8")
      case True
      have "safe (bindE (decode_eatbits 8 d) (\<lambda>d. run_loop d runlen' st')) (run_ok W H d st)"
      proof (rule safe_bind [OF eat])
        fix d' assume d': "decode_eatbits 8 d = Inr d'" "dec_ok W H d' \<and> (\<forall>ln. lane_state ln d' = lane_state ln d)"
        have "safe (run_loop d' runlen' st') (run_ok W H d' st')"
          by (rule "1.IH" [OF lut st'(1) refl _ d'(1)]) (use True d' st' in simp_all)
        then show "safe (run_loop d' runlen' st') (run_ok W H d st)"
          by (rule safe_mono) (use d' st' in \<open>auto simp: run_ok_def\<close>)
      qed simp
      with True show ?thesis by simp
    next
      case False
      then show ?thesis using LZEROES_le [OF x] st' by (auto simp: run_ok_def intro!: safe_bind [OF eat])
    qed
  qed
qed

lemma safe_decode_run:
  assumes "dec_ok W H d" and "state_ok st"
  shows "safe (decode_run d st) (run_ok W H d st)"
proof -
  have tail: "safe (bindE (if melclen st' \<noteq> 0
            then bindE (qsub 32 (melclen st')) (\<lambda>n. bindE (qshr (io_word d') n) (\<lambda>w.
                 bindE (decode_eatbits (melclen st') d') (\<lambda>d. Inr (d, runlen + unat w))))
            else Inr (d', runlen)) (\<lambda>(d, runlen).
     bindE (if melcstate st' \<noteq> 0
            then bindE (qnth J (melcstate st' - 1)) (\<lambda>len.
              Inr (st'\<lparr>melcstate := melcstate st' - 1, melclen := len, melcorder := 2 ^ len\<rparr>))
            else Inr st') (\<lambda>st. Inr (d, runlen, st)))) (run_ok W H d st)"
    if ok: "run_ok W H d st (d', runlen, st')" for d' runlen st'
  proof (rule safe_bind [where P = "\<lambda>(d'', r). run_ok W H d st (d'', r, st')"])
    have "melclen st' < 16" using ok J_at by (auto simp: run_ok_def state_ok_def)
    moreover have "safe (decode_eatbits n d') (\<lambda>d''. dec_ok W H d'' \<and> (\<forall>ln. lane_state ln d'' = lane_state ln d'))" if "n < 32" for n
      by (rule safe_eatbits_dec) (use ok that in \<open>auto simp: run_ok_def\<close>)
    ultimately show "safe (if melclen st' \<noteq> 0
            then bindE (qsub 32 (melclen st')) (\<lambda>n. bindE (qshr (io_word d') n) (\<lambda>w.
                 bindE (decode_eatbits (melclen st') d') (\<lambda>d. Inr (d, runlen + unat w))))
            else Inr (d', runlen)) (\<lambda>(d'', r). run_ok W H d st (d'', r, st'))"
      using ok by (auto simp: qsub_def qshr_def run_ok_def intro!: safe_bind)
  next
    fix v assume v: "case v of (d'', r) \<Rightarrow> run_ok W H d st (d'', r, st')"
    show "safe (case v of (d, runlen) \<Rightarrow> bindE (if melcstate st' \<noteq> 0
            then bindE (qnth J (melcstate st' - 1)) (\<lambda>len.
              Inr (st'\<lparr>melcstate := melcstate st' - 1, melclen := len, melcorder := 2 ^ len\<rparr>))
            else Inr st') (\<lambda>st. Inr (d, runlen, st))) (run_ok W H d st)"
      using v J_at by (cases v) (auto simp: run_ok_def state_ok_def)
  qed
  show ?thesis
    unfolding decode_run_def by (rule safe_bind [OF safe_run_loop [OF assms]]) (clarify, erule tail)
qed

lemma safe_decode_lane_run: "row_ok W H ln m s \<Longrightarrow> safe (decode_lane_run ln s) (\<lambda>(_, s'). row_ok W H ln m s')"
  unfolding decode_lane_run_def
  by (rule safe_bind [OF safe_decode_run])
    (auto simp: row_ok_def run_ok_def wm_def intro: lane_state_ok dec_ok_set_lane)

lemma safe_copy_left:
  assumes "row_ok W H ln m s" and "0 < i" and "i < W"
  shows "safe (copy_left l' i s) (row_ok W H ln m)"
  using assms by (cases l') (simp_all add: qset_def qnth_def qsub_def row_ok_cur row_ok_set_cur)

definition out_ok :: "nat \<Rightarrow> nat \<Rightarrow> lane \<Rightarrow> nat \<times> nat \<Rightarrow> seg_out \<Rightarrow> bool" where
  "out_ok W H ln m out = (case out of
     SegReturn s \<Rightarrow> row_ok W H ln m s
   | SegBreak i stopidx _ s \<Rightarrow> row_ok W H ln m s \<and> 0 < i \<and> i \<le> stopidx
   | SegGo i s \<Rightarrow> row_ok W H ln m s \<and> 0 < i)"

lemma safe_take_run:
  assumes ok: "row_ok W H ln m s" and i: "0 < i" "i < e" "e \<le> W"
  shows "safe (take_run ln e stopidx i s) (out_ok W H ln m)"
proof -
  have copy: "safe (qfor [i..<i + run] (copy_left ln) s1) (row_ok W H ln m)" if "row_ok W H ln m s1" "run \<le> e - i" for run s1
    by (rule safe_qfor [OF safe_copy_left _]) (use that i in auto)
  show ?thesis
    unfolding take_run_def
    by (rule safe_bind [OF safe_decode_lane_run [OF row_ok_set_waitcnt [OF ok]]])
      (auto simp: checked_run_end_def out_ok_def i intro!: safe_bind [OF copy])
qed

lemma safe_same_pixel: "a + 3 < length row \<Longrightarrow> b + 3 < length row \<Longrightarrow> safe (same_pixel ln row a b) (\<lambda>_. True)"
  by (cases ln) (simp_all add: same_rgb_def qnth_def)

lemma safe_run_starts:
  assumes "row_ok W H ln m s" and "0 < i" "i < W" and "length prev_row = 4 * W"
  shows "safe (run_starts l' prev_row run_index i s) (\<lambda>_. True)"
  unfolding run_starts_def using assms
  by (simp add: qsub_def) (intro safe_bind [OF safe_same_pixel], auto simp: row_ok_cur intro!: safe_same_pixel)

lemma safe_row_pixels:
  assumes "row_ok W H ln m s" and "0 < i" and "limit \<le> e" "e \<le> W" and "length prev_row = 4 * W"
  shows "safe (row_pixels ln prev_row bpc_mask e stopidx run_index limit i s) (out_ok W H ln m)"
  using assms
proof (induction ln prev_row bpc_mask e stopidx run_index limit i s rule: row_pixels.induct)
  case (1 ln prev_row bpc_mask e stopidx run_index limit i s)
  show ?case
  proof (cases "i < limit")
    case True
    have i: "i < e" "i < W" using True "1.prems" by simp_all
    show ?thesis
      apply (subst row_pixels.simps, simp only: True if_True)
      apply (rule safe_bind [OF safe_run_starts [OF "1.prems"(1,2) i(2) "1.prems"(5)]])
      apply (simp split: if_split)
      apply (intro conjI impI)
       apply (rule safe_take_run [OF "1.prems"(1,2) i(1) "1.prems"(4)])
      apply (rule safe_bind [OF safe_pixel [OF "1.prems"(1,2) i(2) "1.prems"(5)]])
      apply (rule "1.IH" [OF True]; (assumption | simp add: "1.prems"))
      done
  next
    case False
    then show ?thesis using "1.prems" by (subst row_pixels.simps) (simp add: out_ok_def)
  qed
qed

lemma safe_row_while:
  assumes "row_ok W H ln m s" and "0 < i" and "i \<le> stopidx" and "e \<le> W" and "length prev_row = 4 * W"
  shows "safe (row_while ln prev_row waitmask 8 bpc_mask e run_index i stopidx s) (out_ok W H ln m)"
  using assms
proof (induction ln prev_row waitmask "8 :: nat" bpc_mask e run_index i stopidx s rule: row_while.induct)
  case (1 ln prev_row waitmask bpc_mask e run_index i stopidx s)
  show ?case
  proof (cases "stopidx < e")
    case True
    have upd: "safe (qfor (lane_channels ln) (update_at ln 8 stopidx) s1) (row_ok W H ln m)" if "row_ok W H ln m s1" for s1
      using "1.prems" True by (intro safe_channels [OF _ that] safe_update_at) auto
    have "safe (row_pixels ln prev_row bpc_mask e stopidx run_index (Suc stopidx) i (s\<lparr>qr_last_bucket := 0\<rparr>)) (out_ok W H ln m)"
      by (rule safe_row_pixels [OF row_ok_last_bucket [OF "1.prems"(1)] "1.prems"(2) _ "1.prems"(4,5)]) (use True in simp)
    then show ?thesis
    proof (subst row_while.simps, simp only: True if_True, elim safe_bind)
      fix out assume out: "row_pixels ln prev_row bpc_mask e stopidx run_index (Suc stopidx) i (s\<lparr>qr_last_bucket := 0\<rparr>) = Inr out"
        "out_ok W H ln m out"
      show "safe (case out of SegGo i s \<Rightarrow> bindE (qfor (lane_channels ln) (update_at ln 8 stopidx) s) (\<lambda>s.
            bindE (rand_wait ln waitmask s) (\<lambda>(r, s). row_while ln prev_row waitmask 8 bpc_mask e run_index i (i + r) s))
          | _ \<Rightarrow> Inr out) (out_ok W H ln m)"
      proof (cases out)
        case (SegGo i1 s1)
        then have ok1: "row_ok W H ln m s1" "0 < i1" using out(2) by (simp_all add: out_ok_def)
        show ?thesis
          apply (simp add: SegGo)
          apply (rule safe_bind [OF upd [OF ok1(1)]])
          apply (rule safe_bind [OF safe_rand_wait], assumption, clarify)
          apply (rule "1.hyps" [OF True out(1) SegGo _ _ refl]; (assumption | simp add: ok1 "1.prems"))
          done
      qed (use out(2) in simp_all)
    qed
  next
    case False
    have "safe (row_pixels ln prev_row bpc_mask e stopidx run_index e i s) (out_ok W H ln m)"
      by (rule safe_row_pixels [OF "1.prems"(1,2) order_refl "1.prems"(4,5)])
    then show ?thesis using False
      by (subst row_while.simps) (auto simp: out_ok_def row_ok_set_waitcnt elim!: safe_bind split: seg_out.split)
  qed
qed

lemma safe_row_loop:
  assumes "row_ok W H ln m s" and "0 < i" and "i \<le> stopidx" and "e \<le> W" and "length prev_row = 4 * W"
  shows "safe (row_loop ln prev_row waitmask 8 bpc_mask e run_index i stopidx s) (row_ok W H ln m)"
  using assms
proof (induction ln prev_row waitmask "8 :: nat" bpc_mask e run_index i stopidx s rule: row_loop.induct)
  case (1 ln prev_row waitmask bpc_mask e run_index i stopidx s)
  show ?case
  proof (subst row_loop.simps, rule safe_bind [OF safe_row_while [OF "1.prems"]])
    fix out assume out: "row_while ln prev_row waitmask 8 bpc_mask e run_index i stopidx s = Inr out" "out_ok W H ln m out"
    show "safe (case out of SegBreak i stopidx run_index s \<Rightarrow> row_loop ln prev_row waitmask 8 bpc_mask e run_index i stopidx s
       | SegReturn s \<Rightarrow> Inr s | SegGo i s \<Rightarrow> Inr s) (row_ok W H ln m)"
    proof (cases out)
      case (SegBreak i1 stopidx1 run1 s1)
      then show ?thesis using "1.hyps" [OF out(1) SegBreak] out(2) "1.prems" by (simp add: out_ok_def)
    qed (use out(2) in \<open>simp_all add: out_ok_def\<close>)
  qed
qed

lemma row_ok_wmidx: "row_ok W H ln m s \<Longrightarrow> wmidx (lane_state ln (qr_dec s)) < length BPPMASK"
  using lane_state_ok [of W H "qr_dec s" ln] by (simp add: row_ok_def state_ok_def length_BPPMASK)

lemma safe_row_seg:
  assumes ok: "row_ok W H ln m s" and e: "i < e" "e \<le> W" and prev: "length prev_row = 4 * W"
  shows "safe (row_seg ln prev_row i e 8 bpc_mask s) (row_ok W H ln m)"
proof -
  have W: "0 < W" using e by simp
  have start: "safe (if i = 0 then bindE (first_pixel ln prev_row bpc_mask s) (\<lambda>s. bindE (first_wait ln waitmask 8 s) (\<lambda>s. Inr (1, s)))
      else Inr (i, s)) (\<lambda>(i, s). row_ok W H ln m s \<and> 0 < i)" for waitmask
    using ok by (auto intro!: safe_bind [OF safe_first_pixel [OF ok W prev]] safe_bind [OF safe_first_wait [OF _ W]])
  show ?thesis
    unfolding row_seg_def
    apply (simp only: qnth_def row_ok_wmidx [OF ok] if_True bindE_simps)
    apply (rule safe_bind [OF start], clarify)
    apply (rule safe_row_loop; (assumption | simp add: e prev))
    done
qed

section \<open>Rows\<close>

definition safe_segment :: "nat \<Rightarrow> nat \<Rightarrow> lane \<Rightarrow> segment \<Rightarrow> bool" where
  "safe_segment W H ln seg \<longleftrightarrow>
     (\<forall>m pos e s. row_ok W H ln m s \<and> pos < e \<and> e \<le> W \<longrightarrow> safe (seg pos e s) (row_ok W H ln m))"

lemma safe_segmentD:
  "safe_segment W H ln seg \<Longrightarrow> row_ok W H ln m s \<Longrightarrow> pos < e \<Longrightarrow> e \<le> W \<Longrightarrow> safe (seg pos e s) (row_ok W H ln m)"
  unfolding safe_segment_def by blast

lemma safe_row0_segment: "safe_segment W H ln (row0_segment ln (row0_seg ln))"
  unfolding safe_segment_def row0_segment_def
  by (auto simp: qnth_def row_ok_wmidx intro: safe_row0_seg)

lemma safe_row_segment: "length prev_row = 4 * W \<Longrightarrow> safe_segment W H ln (\<lambda>pos e. row_seg ln prev_row pos e 8 bpc_mask)"
  unfolding safe_segment_def by (auto intro: safe_row_seg)

lemma safe_trigger: "safe (set_wm_trigger st) (\<lambda>st'. \<exists>t. st' = st\<lparr>wm_trigger := t\<rparr>)"
proof -
  have "length BESTTRIGTAB = 3" "length (BESTTRIGTAB ! 1) = 11" "DEFEVOL div 2 = 1" by code_simp+
  then show ?thesis by (auto simp: set_wm_trigger_def qnth_def)
qed

lemma safe_next_wm:
  assumes ok: "row_ok W H ln m s" and idx: "fst m < 6"
  shows "safe (next_wm ln s) (row_any W H)"
proof -
  have "state_ok (lane_state ln (qr_dec s))" "wmidx (lane_state ln (qr_dec s)) < 6" and d: "dec_ok W H (qr_dec s)"
    using ok idx lane_state_ok [of W H "qr_dec s" ln] by (auto simp: row_ok_def wm_def)
  then have "state_ok ((lane_state ln (qr_dec s))\<lparr>wmidx := Suc (wmidx (lane_state ln (qr_dec s))), wm_trigger := t, wmileft := l\<rparr>)" for t l
    by (simp add: state_ok_def)
  then show ?thesis
    unfolding next_wm_def Let_def using ok d
    by (intro safe_bind [OF safe_trigger]) (auto simp: row_ok_def row_any_def intro: dec_ok_set_lane)
qed

lemma safe_uncompress_while:
  assumes "safe_segment W H ln seg" and "row_any W H s" and "pos + width = W"
  shows "safe (uncompress_while ln seg pos width s)
    (\<lambda>(pos', width', s'). row_any W H s' \<and> pos' + width' = W \<and> (fst (wm ln (qr_dec s')) < 6 \<longrightarrow> width' < snd (wm ln (qr_dec s'))))"
  using assms
proof (induction ln seg pos width s rule: uncompress_while.induct)
  case (1 ln seg pos width s)
  let ?left = "wmileft (lane_state ln (qr_dec s))" and ?idx = "wmidx (lane_state ln (qr_dec s))"
  note ok = row_any_ok [OF "1.prems"(2), of ln]
  show ?case
  proof (cases "DEFWMIMAX > ?idx \<and> ?left \<le> width")
    case True
    have "safe (if ?left > 0 then seg pos (pos + ?left) s else Inr s) (row_ok W H ln (wm ln (qr_dec s)))"
      using safe_segmentD [OF "1.prems"(1) ok] "1.prems"(3) ok True by auto
    moreover have "fst (wm ln (qr_dec s)) < 6" using True by (simp add: DEFWMIMAX_def wm_def)
    ultimately show ?thesis
      apply (subst uncompress_while.simps, simp only: Let_def True if_True simp_thms)
      apply (erule safe_bind)
      apply (rule safe_bind [OF safe_next_wm], assumption, assumption)
      apply (rule "1.IH" [OF refl True]; (assumption | rule "1.prems"(1) | simp add: "1.prems"(3) True))
      done
  next
    case False
    then show ?thesis using "1.prems"(2,3)
      by (subst uncompress_while.simps) (auto simp: Let_def DEFWMIMAX_def wm_def)
  qed
qed

lemma safe_uncompress:
  assumes seg: "safe_segment W H ln seg" and ok: "row_any W H s"
  shows "safe (uncompress ln seg s) (row_any W H)"
proof -
  have last: "safe (let st = lane_state ln (qr_dec s) in
       if DEFWMIMAX > wmidx st then
         bindE (qsub (wmileft st) width) (\<lambda>left. Inr (s\<lparr>qr_dec := set_lane_state ln (st\<lparr>wmileft := left\<rparr>) (qr_dec s)\<rparr>))
       else Inr s) (row_any W H)"
    if s: "row_ok W H ln m s" "fst m < 6 \<longrightarrow> width < snd m" for width m s
  proof -
    let ?st = "lane_state ln (qr_dec s)"
    have "m = (wmidx ?st, wmileft ?st)" "state_ok (?st\<lparr>wmileft := l\<rparr>)" for l
      using s lane_state_ok [of W H "qr_dec s" ln] by (auto simp: row_ok_def wm_def state_ok_def)
    then show ?thesis
      using s by (auto simp: Let_def DEFWMIMAX_def qsub_def row_ok_def row_any_def intro: dec_ok_set_lane)
  qed
  have width: "0 + qd_width (qr_dec s) = W" using ok by (simp add: row_any_def dec_ok_def)
  show ?thesis
    unfolding uncompress_def
  proof (rule safe_bind [OF safe_uncompress_while [OF seg ok width]])
    fix v
    assume "case v of (pos, left, s1) \<Rightarrow> row_any W H s1 \<and> pos + left = W
      \<and> (fst (wm ln (qr_dec s1)) < 6 \<longrightarrow> left < snd (wm ln (qr_dec s1)))"
    then obtain pos left s1 where v: "v = (pos, left, s1)" and s1: "row_any W H s1"
      "fst (wm ln (qr_dec s1)) < 6 \<longrightarrow> left < snd (wm ln (qr_dec s1))" and "pos + left = W" by (cases v) auto
    then have go: "safe (seg pos (pos + left) s1) (row_ok W H ln (wm ln (qr_dec s1)))" if "0 < left"
      using safe_segmentD [OF seg row_any_ok [OF s1(1)], of pos "pos + left"] that by simp
    show "safe (case v of (pos, left, s) \<Rightarrow> if left > 0 then bindE (seg pos (pos + left) s) (\<lambda>s.
        let st = lane_state ln (qr_dec s) in
        if DEFWMIMAX > wmidx st then
          bindE (qsub (wmileft st) left) (\<lambda>left. Inr (s\<lparr>qr_dec := set_lane_state ln (st\<lparr>wmileft := left\<rparr>) (qr_dec s)\<rparr>))
        else Inr s)
      else Inr s) (row_any W H)"
      unfolding v prod.case
      by (split if_split, intro conjI impI safe_bind [OF go] last [OF _ s1(2)]) (simp_all add: s1(1))
  qed
qed

section \<open>The image\<close>

lemma row_any_set_zero:
  assumes "row_any W H s" and z: "unat z < 256" "c < 4"
  shows "row_any W H (s\<lparr>qr_dec := set_zero z c (qr_dec s)\<rparr>)"
proof -
  have "dec_ok W H (qr_dec s)" using assms(1) by (simp add: row_any_def)
  moreover from this have "chan_ok W ((qd_channels (qr_dec s) c)\<lparr>ch_zero := z\<rparr>)" using z by (simp add: dec_ok_def chan_ok_def)
  ultimately show ?thesis using assms(1) by (simp add: row_any_def set_zero_def dec_ok_set_channel)
qed

lemma safe_zero_from_row:
  assumes "row_any W H s" and "c < 4" and "0 < W"
  shows "safe (zero_from_row c s) (row_any W H)"
  unfolding zero_from_row_def
  by (rule safe_bind [OF row_ok_row [OF row_any_ok [OF assms(1)] assms(2,3)]]) (simp add: row_any_set_zero assms)

lemma clear_zero_ok: "row_any W H s \<Longrightarrow> c < 4 \<Longrightarrow> row_any W H (clear_zero c s)"
  unfolding clear_zero_def by (rule row_any_set_zero) simp_all

lemma safe_first_row:
  assumes "row_any W H s"
  shows "safe (first_row rgba s) (row_any W H)"
proof -
  have row: "safe (uncompress ln (row0_segment ln (row0_seg ln)) s1) (row_any W H)" if "row_any W H s1" for ln s1
    using safe_row0_segment that by (rule safe_uncompress)
  have "row_any W H (fold clear_zero [0, 1, 2] s)" using assms by (simp add: clear_zero_ok)
  then show ?thesis
    unfolding first_row_def quic_rgb32_uncompress_row0_def quic_four_uncompress_row0_def
      quic_rgb32_uncompress_row0_seg_def quic_four_uncompress_row0_seg_def
    by (rule safe_bind [OF row]) (simp add: row clear_zero_ok)
qed

lemma safe_next_row:
  assumes "row_any W H s" and W: "0 < W" and prev: "length prev_row = 4 * W"
  shows "safe (next_row rgba prev_row s) (row_any W H)"
proof -
  have row: "safe (uncompress ln (\<lambda>pos e. row_seg ln prev_row pos e 8 0xff) s1) (row_any W H)" if "row_any W H s1" for ln s1
    using safe_row_segment [OF prev] that by (rule safe_uncompress)
  have zeros: "safe (qfor [0, 1, 2] zero_from_row s) (row_any W H)"
    by (rule safe_qfor [OF safe_zero_from_row]) (use assms in auto)
  have four: "safe (bindE (zero_from_row 3 s1) (uncompress Four (\<lambda>pos e. row_seg Four prev_row pos e 8 0xff))) (row_any W H)" if "row_any W H s1" for s1
    by (rule safe_bind [OF safe_zero_from_row [OF that _ W]]) (simp_all add: row)
  show ?thesis
    unfolding next_row_def quic_rgb32_uncompress_row_def quic_four_uncompress_row_def
      quic_rgb32_uncompress_row_seg_def quic_four_uncompress_row_seg_def
    by (rule safe_bind [OF zeros], rule safe_bind [OF row]) (simp_all add: four)
qed

definition native_ok :: "nat \<Rightarrow> nat \<Rightarrow> quic_decoder \<times> bytes \<Rightarrow> bool" where
  "native_ok W H st \<longleftrightarrow> dec_ok W H (fst st) \<and> length (snd st) = H * (W * 4)"

lemma safe_on_row:
  assumes st: "native_ok W H st" and row: "row < H"
    and body: "\<And>s. row_any W H s \<Longrightarrow> safe (body s) (row_any W H)"
  shows "safe (on_row (W * 4) row body st) (native_ok W H)"
proof -
  obtain d buf where st': "st = (d, buf)" by (cases st)
  have d: "dec_ok W H d" and len: "length buf = H * (W * 4)" using st by (simp_all add: native_ok_def st')
  have "Suc row * (W * 4) \<le> H * (W * 4)" using row by (intro mult_right_mono) simp_all
  then have fits: "row * (W * 4) + W * 4 \<le> length buf" using len by simp
  let ?s = "\<lparr>qr_dec = d, qr_cur = take (W * 4) (drop (row * (W * 4)) buf), qr_last_bucket = 0\<rparr>"
  have "row_any W H ?s" using d fits by (simp add: row_any_def)
  note run = body [OF this]
  have "native_ok W H ((qr_dec s)\<lparr>qd_rows_completed := n\<rparr>,
      take (row * (W * 4)) buf @ qr_cur s @ drop (row * (W * 4) + W * 4) buf)" if "row_any W H s" for s n
    using that fits len by (auto simp: native_ok_def row_any_def dec_ok_def io_ok_def)
  then show ?thesis
    unfolding on_row_def st' Let_def using fits
    by simp (rule safe_bind [OF run], simp)
qed

lemma prev_row_length:
  assumes "native_ok W H (d, buf)" and "row < H" and "0 < row"
  shows "length (take (W * 4) (drop ((row - 1) * (W * 4)) buf)) = 4 * W"
proof -
  obtain k where k: "row = Suc k" using assms(3) by (cases row) auto
  have "Suc k * (W * 4) \<le> H * (W * 4)" using assms(2) k by (intro mult_right_mono) simp_all
  then show ?thesis using assms(1) k by (simp add: native_ok_def)
qed

lemma safe_decode_rows:
  assumes st: "native_ok W H st" and W: "0 < W" "0 < H"
  shows "safe (decode_rows rgba (W * 4) st) (native_ok W H)"
proof -
  let ?body = "\<lambda>row (d, buf). on_row (W * 4) row (next_row rgba (take (W * 4) (drop ((row - 1) * (W * 4)) buf))) (d, buf)"
  have later: "safe (?body row st) (native_ok W H)" if row: "row \<in> set [1..<H]" and ok: "native_ok W H st" for row st
  proof -
    obtain d buf where st': "st = (d, buf)" by (cases st)
    have r: "row < H" "0 < row" using row by auto
    have "safe (on_row (W * 4) row (next_row rgba (take (W * 4) (drop ((row - 1) * (W * 4)) buf))) (d, buf)) (native_ok W H)"
      using ok [unfolded st'] r(1) safe_next_row [OF _ W(1) prev_row_length [OF ok [unfolded st'] r]] by (rule safe_on_row)
    then show ?thesis by (simp add: st')
  qed
  have "safe (case st of (d, buf) \<Rightarrow> qfor [1..<qd_height d] ?body (d, buf)) (native_ok W H)" if ok: "native_ok W H st" for st
  proof -
    have "qd_height (fst st) = H" using ok by (simp add: native_ok_def dec_ok_def)
    then have "(case st of (d, buf) \<Rightarrow> qfor [1..<qd_height d] ?body (d, buf)) = qfor [1..<H] ?body st" by (cases st) simp
    then show ?thesis using safe_qfor [OF later ok] by (simp only:)
  qed
  then show ?thesis
    unfolding decode_rows_def by (intro safe_bind [OF safe_on_row [OF st W(2) safe_first_row]])
qed

section \<open>Construction and header\<close>

definition stat_ok :: "quic_family_stat \<Rightarrow> bool" where
  "stat_ok st \<longleftrightarrow> length (fs_buckets_ptrs st) = 256 \<and> list_all (\<lambda>p. p < 8) (fs_buckets_ptrs st) \<and> fs_n_buckets st = 8"

lemma model_8bpc: "(case QuicModel_new 8 of None \<Rightarrow> False | Some m \<Rightarrow> (case fill_model_structures m of None \<Rightarrow> False | Some st \<Rightarrow> stat_ok st))"
  by code_simp

lemma model_5bpc: "(case QuicModel_new 5 of None \<Rightarrow> False | Some m \<Rightarrow> fill_model_structures m \<noteq> None)"
  by code_simp

lemma make_zero_lut_eq: "make_zero_lut = LZEROES"
  by code_simp

definition base_ok :: "quic_decoder \<Rightarrow> bool" where
  "base_ok d \<longleftrightarrow> qd_family_8bpc d = family_8bpc \<and> qd_zero_lut d = LZEROES \<and> state_ok (qd_rgb_state d)
     \<and> (\<forall>c. stat_ok (ch_family_stat_8bpc (qd_channels d c)))"

lemma safe_CommonState_reset: "safe (CommonState_reset st) state_ok"
  unfolding CommonState_reset_def
  by (rule safe_bind [OF safe_trigger]) (use J_at [of 0] in \<open>auto simp: state_ok_def\<close>)

lemma safe_CommonState_new: "safe CommonState_new state_ok"
  unfolding CommonState_new_def by (rule safe_CommonState_reset)

lemma safe_QuicDecoder_new: "safe QuicDecoder_new base_ok"
proof -
  obtain m8 st8 where m8: "QuicModel_new 8 = Some m8" "fill_model_structures m8 = Some st8" "stat_ok st8"
    using model_8bpc by (auto split: option.splits)
  obtain m5 st5 where m5: "QuicModel_new 5 = Some m5" "fill_model_structures m5 = Some st5"
    using model_5bpc by (auto split: option.splits)
  have "safe (QuicChannel_new m8 m5) (\<lambda>ch. stat_ok (ch_family_stat_8bpc ch))"
    by (simp add: QuicChannel_new_def m8 m5) (rule safe_bind [OF safe_CommonState_new], simp add: m8)
  then have chan: "safe (bindE (QuicChannel_new m8 m5) (\<lambda>ch. Inr \<lparr>io_idx = 0, io_available_bits = 0, io_word = 0, io_next_word = 0,
      io_now = [], io_end = 0, qd_image_type = 0, qd_width = 0, qd_height = 0, qd_output_len = 0, qd_rows_completed = 0,
      qd_rgb_state = st, qd_channels = (\<lambda>_. ch), qd_family_8bpc = family_8bpc, qd_zero_lut = make_zero_lut\<rparr>)) base_ok"
    if "state_ok st" for st
    by (rule safe_bind) (simp add: base_ok_def that make_zero_lut_eq)
  show ?thesis
    unfolding QuicDecoder_new_def m8 m5 by simp (rule safe_bind [OF safe_CommonState_new], rule chan)
qed

definition same_header :: "quic_decoder \<Rightarrow> quic_decoder \<Rightarrow> bool" where
  "same_header d d' \<longleftrightarrow> qd_width d' = qd_width d \<and> qd_height d' = qd_height d \<and> qd_image_type d' = qd_image_type d"

lemma safe_eat32:
  assumes "io_ok d" and "base_ok d"
  shows "safe (decode_eat32bits d) (\<lambda>d'. io_ok d' \<and> base_ok d' \<and> same_header d d')"
proof -
  have eat: "safe (decode_eatbits 16 d) (\<lambda>d'. io_ok d' \<and> base_ok d' \<and> same_header d d')" if "io_ok d" "base_ok d" for d
    by (rule safe_conj [OF safe_eatbits]) (use that in \<open>auto simp: base_ok_def same_header_def eatbits_fields\<close>)
  show ?thesis
    unfolding decode_eat32bits_def
    by (rule safe_bind [OF eat [OF assms]], rule safe_mono [OF eat]) (auto simp: same_header_def)
qed

lemma safe_qfor_upto:
  assumes "\<And>i s. i < n \<Longrightarrow> P i s \<Longrightarrow> safe (body i s) (P (Suc i))"
  shows "k \<le> n \<Longrightarrow> P k s \<Longrightarrow> safe (qfor [k..<n] body s) (P n)"
proof (induction "n - k" arbitrary: k s)
  case (Suc m)
  then have "k < n" by simp
  then show ?case
    by (simp add: upt_conv_Cons, intro safe_bind [OF assms] Suc.hyps) (use Suc in auto)
qed simp

lemma safe_channel_reset:
  "stat_ok (ch_family_stat_8bpc ch) \<Longrightarrow> safe (QuicChannel_reset bpc W ch)
     (\<lambda>ch'. ch_family_stat_8bpc ch' = ch_family_stat_8bpc ch \<and> (bpc = 8 \<longrightarrow> chan_ok W ch'))"
  unfolding QuicChannel_reset_def Let_def
  by (auto simp: stat_ok_def chan_ok_def bucket_ok_def QuicBucket_reset_def list_all_length intro!: safe_bind [OF safe_CommonState_reset])

lemma safe_reset_channels:
  assumes "io_ok d" and "base_ok d"
  shows "safe (reset_channels bpc d) (\<lambda>d'. same_header d d' \<and> qd_output_len d' = qd_output_len d
     \<and> (bpc = 8 \<longrightarrow> dec_ok (qd_width d) (qd_height d) d'))"
proof -
  let ?P = "\<lambda>i d'. io_ok d' \<and> base_ok d' \<and> same_header d d' \<and> qd_output_len d' = qd_output_len d
    \<and> (bpc = 8 \<longrightarrow> (\<forall>c<i. chan_ok (qd_width d) (qd_channels d' c)))"
  have "safe (qfor [0..<4] (\<lambda>c d. bindE (QuicChannel_reset bpc (qd_width d) (qd_channels d c)) (\<lambda>ch.
       Inr (d\<lparr>qd_channels := (qd_channels d)(c := ch)\<rparr>))) d) (?P 4)"
  proof (rule safe_qfor_upto)
    fix i d' assume d': "?P i d'"
    have "safe (QuicChannel_reset bpc (qd_width d') (qd_channels d' i))
       (\<lambda>ch. stat_ok (ch_family_stat_8bpc ch) \<and> (bpc = 8 \<longrightarrow> chan_ok (qd_width d) ch))"
      by (rule safe_mono [OF safe_channel_reset]) (use d' in \<open>auto simp: base_ok_def same_header_def\<close>)
    then show "safe (bindE (QuicChannel_reset bpc (qd_width d') (qd_channels d' i)) (\<lambda>ch.
       Inr (d'\<lparr>qd_channels := (qd_channels d')(i := ch)\<rparr>))) (?P (Suc i))"
      by (rule safe_bind) (use d' in \<open>auto simp: base_ok_def same_header_def io_ok_def less_Suc_eq\<close>)
  qed (use assms in \<open>simp_all add: same_header_def\<close>)
  then show ?thesis
    unfolding reset_channels_def by (rule safe_mono) (auto simp: dec_ok_def base_ok_def same_header_def)
qed

definition begun :: "quic_decoder \<Rightarrow> bool" where
  "begun d \<longleftrightarrow> rgba_len (qd_width d) (qd_height d) = Some (qd_output_len d)
     \<and> (qd_image_type d \<in> {3, 4, 5} \<longrightarrow> dec_ok (qd_width d) (qd_height d) d)"

lemma safe_size:
  assumes "io_ok d" and "base_ok d"
  shows "safe (case rgba_len (qd_width d) (qd_height d) of None \<Rightarrow> Inl QuicFailed
     | Some output_len \<Rightarrow> reset_channels (quic_image_bpc (qd_image_type d)) (d\<lparr>qd_output_len := output_len\<rparr>)) begun"
proof (cases "rgba_len (qd_width d) (qd_height d)")
  case (Some output_len)
  have "io_ok (d\<lparr>qd_output_len := output_len\<rparr>)" "base_ok (d\<lparr>qd_output_len := output_len\<rparr>)"
    using assms by (simp_all add: io_ok_def base_ok_def)
  then show ?thesis using Some
    by (simp, intro safe_mono [OF safe_reset_channels]) (auto simp: begun_def same_header_def quic_image_bpc_def)
qed simp

lemma safe_begin:
  assumes "base_ok d"
  shows "safe (quic_decode_begin data d) begun"
proof -
  have upd: "io_ok (d\<lparr>qd_image_type := a\<rparr>) = io_ok d" "io_ok (d\<lparr>qd_width := b\<rparr>) = io_ok d" "io_ok (d\<lparr>qd_height := b\<rparr>) = io_ok d"
    "base_ok (d\<lparr>qd_image_type := a\<rparr>) = base_ok d" "base_ok (d\<lparr>qd_width := b\<rparr>) = base_ok d" "base_ok (d\<lparr>qd_height := b\<rparr>) = base_ok d"
    for d :: quic_decoder and a b by (simp_all add: io_ok_def base_ok_def)
  have reset: "safe (QuicDecoder_reset data d) (\<lambda>d. base_ok d \<and> io_end d = length (io_now d))"
    unfolding QuicDecoder_reset_def using assms
    by (intro safe_bind [OF safe_CommonState_reset]) (simp add: base_ok_def)
  have first: "safe (read_io_word d1) (\<lambda>d. base_ok d \<and> io_end d = length (io_now d))"
    if "base_ok d1" "io_end d1 = length (io_now d1)" for d1
    using that by (simp add: read_io_word_def base_ok_def)
  have start: "io_ok (d1\<lparr>io_word := w, io_available_bits := 0\<rparr>)" "base_ok (d1\<lparr>io_word := w, io_available_bits := 0\<rparr>)"
    if "base_ok d1" "io_end d1 = length (io_now d1)" for d1 w
    using that by (simp_all add: io_ok_def base_ok_def)
  show ?thesis
    unfolding quic_decode_begin_def Let_def
    apply (rule safe_bind [OF reset], elim conjE)
    apply (rule safe_bind [OF first], assumption, assumption, elim conjE)
    apply (rule safe_bind [OF safe_eat32 [OF start]]; (assumption | elim conjE))
    apply (split if_split, intro conjI impI, simp)
    apply (rule safe_bind [OF safe_eat32]; (assumption | elim conjE))
    apply (split if_split, intro conjI impI, simp)
    apply (rule safe_bind [OF safe_eat32]; (simp only: upd | elim conjE))
    apply (rule safe_bind [OF safe_eat32]; (simp only: upd | elim conjE))
    apply (rule safe_bind [OF safe_eat32]; (simp only: upd | elim conjE))
    apply (rule safe_size; assumption)
    done
qed

section \<open>The whole decoder\<close>

lemma length_rgba_pixels: "length (concat (map (\<lambda>k. rgba_pixel rgba native (4 * k)) ks)) = 4 * length ks"
  by (induction ks) (simp_all add: rgba_pixel_def)

lemma rgba_len_size:
  "rgba_len w h = Some n \<Longrightarrow> 0 < w \<and> 0 < h \<and> w < 2 ^ 32 \<and> h < 2 ^ 32 \<and> n = h * (w * 4)"
  by (auto simp: rgba_len_def Let_def MAX_IMAGE_DIMENSION_def mult_ac split: if_splits)

lemma safe_native:
  assumes "begun d" and "qd_image_type d \<in> {3, 4, 5}"
  shows "safe (QuicDecoder_quic_decode (qd_width d * 4) (d, replicate (qd_output_len d) 0)) (\<lambda>_. True)"
proof -
  let ?W = "qd_width d" and ?H = "qd_height d"
  have len: "rgba_len ?W ?H = Some (qd_output_len d)" and ok: "dec_ok ?W ?H d" using assms by (auto simp: begun_def)
  have "native_ok ?W ?H (d, replicate (qd_output_len d) 0)" using ok rgba_len_size [OF len] by (simp add: native_ok_def)
  then have "safe (decode_rows rgba (?W * 4) (d, replicate (qd_output_len d) 0)) (native_ok ?W ?H)" for rgba
    by (rule safe_decode_rows) (simp_all add: rgba_len_size [OF len])
  then have "safe (decode_rows rgba (?W * 4) (d, replicate (qd_output_len d) 0)) (\<lambda>_. True)" for rgba
    by (rule safe_mono) simp
  then show ?thesis
    using assms(2) by (auto simp: QuicDecoder_quic_decode_def QUIC_IMAGE_TYPE_RGB32_def QUIC_IMAGE_TYPE_RGB24_def QUIC_IMAGE_TYPE_RGBA_def)
qed

lemma begun_size:
  assumes "begun d" and "word_of_nat (qd_width d) = (width :: u32)" and "word_of_nat (qd_height d) = (height :: u32)"
  shows "rgba_len (unat width) (unat height) = Some (length (native_to_rgba rgba (qd_output_len d) native))"
proof -
  have len: "rgba_len (qd_width d) (qd_height d) = Some (qd_output_len d)" using assms(1) by (simp add: begun_def)
  have "unat width = qd_width d" "unat height = qd_height d" "4 * (qd_output_len d div 4) = qd_output_len d"
    using assms(2,3) rgba_len_size [OF len] by (auto simp: unsigned_of_nat take_bit_nat_eq_self)
  then show ?thesis using len by (simp add: native_to_rgba_def length_rgba_pixels)
qed

lemma safe_quic_decode:
  "safe (quic_decode data width height) (\<lambda>rgba. rgba_len (unat width) (unat height) = Some (length rgba))"
proof -
  have tail: "safe (if qd_image_type d \<noteq> QUIC_IMAGE_TYPE_RGB32 \<and> qd_image_type d \<noteq> QUIC_IMAGE_TYPE_RGB24
        \<and> qd_image_type d \<noteq> QUIC_IMAGE_TYPE_RGBA then Inl QuicFailed
     else if word_of_nat (qd_width d) \<noteq> width \<or> word_of_nat (qd_height d) \<noteq> height then Inl QuicFailed
     else let total_len = qd_output_len d; stride = qd_width d * 4 in
       bindE (QuicDecoder_quic_decode stride (d, replicate total_len 0)) (\<lambda>(_, native).
         Inr (native_to_rgba (qd_image_type d = QUIC_IMAGE_TYPE_RGBA) total_len native)))
     (\<lambda>rgba. rgba_len (unat width) (unat height) = Some (length rgba))" if begun: "begun d" for d
  proof (split if_split, intro conjI impI, simp, split if_split, intro conjI impI, simp)
    assume t: "\<not> (qd_image_type d \<noteq> QUIC_IMAGE_TYPE_RGB32 \<and> qd_image_type d \<noteq> QUIC_IMAGE_TYPE_RGB24
        \<and> qd_image_type d \<noteq> QUIC_IMAGE_TYPE_RGBA)"
      and size: "\<not> (word_of_nat (qd_width d) \<noteq> width \<or> word_of_nat (qd_height d) \<noteq> height)"
    have "safe (QuicDecoder_quic_decode (qd_width d * 4) (d, replicate (qd_output_len d) 0)) (\<lambda>_. True)"
      by (rule safe_native [OF begun]) (use t in \<open>auto simp: QUIC_IMAGE_TYPE_RGB32_def QUIC_IMAGE_TYPE_RGB24_def QUIC_IMAGE_TYPE_RGBA_def\<close>)
    then show "safe (let total_len = qd_output_len d; stride = qd_width d * 4 in
       bindE (QuicDecoder_quic_decode stride (d, replicate total_len 0)) (\<lambda>(_, native).
         Inr (native_to_rgba (qd_image_type d = QUIC_IMAGE_TYPE_RGBA) total_len native)))
      (\<lambda>rgba. rgba_len (unat width) (unat height) = Some (length rgba))"
      unfolding Let_def by (rule safe_bind) (use begun_size [OF begun] size in auto)
  qed
  show ?thesis
    unfolding quic_decode_def
    by (rule safe_bind [OF safe_QuicDecoder_new], rule safe_bind [OF safe_begin], assumption, rule tail)
qed

text \<open>C14: The QUIC decoder returns on every input, without a panic. Whatever the bytes of the image and the
  size the caller expects, it fails or returns an RGBA image of exactly the bytes that size takes: no index into a
  row, a bucket or a table is out of range, no shift reaches the word size, no subtraction goes below zero,
  and every loop ends.\<close>

theorem quic_decode_returns:
  "case quic_decode data width height of
     Inl e \<Rightarrow> e = QuicFailed
   | Inr rgba \<Rightarrow> rgba_len (unat width) (unat height) = Some (length rgba)"
  using safe_quic_decode [of data width height] by (simp add: safe_def)

end
