(* ===== verification/Jpeg.thy ===== *)
theory Jpeg
  imports Image
begin

text \<open>
  The JPEG decoder (\<open>shakenfist-spice-compression/src/jpeg.rs\<close>): the gate on the payload's marker, the bound on the
  frame's dimensions, the five backends, and the choice of one for the platform.

  A backend calls a crate or a library of the system. Each such call is a field of \<open>jpeg_libs\<close>, a function of the
  payload the object was made from, and it returns a value, fails (an \<open>Err\<close>, a \<open>None\<close>, a failed \<open>HRESULT\<close>) or panics.
  Calls are taken to come back. Warnings are left out, and so are the probe of VA-API at start, whose outcome is a
  parameter of the choice, and the initialisation of COM, which the decoder ignores the result of.
\<close>

section \<open>The code\<close>

datatype 'a ext = Returns 'a | Fails | Panics

primrec bindX :: "'a ext \<Rightarrow> ('a \<Rightarrow> 'b ext) \<Rightarrow> 'b ext" where
  "bindX (Returns a) f = f a"
| "bindX Fails f = Fails"
| "bindX Panics f = Panics"

definition of_option :: "'a option \<Rightarrow> 'a ext" where
  "of_option r = (case r of None \<Rightarrow> Fails | Some a \<Rightarrow> Returns a)"

text \<open>\<open>std::panic::catch_unwind\<close>, with the caught panic turned into a failure.\<close>

primrec catch_unwind :: "'a ext \<Rightarrow> 'a ext" where
  "catch_unwind (Returns a) = Returns a"
| "catch_unwind Fails = Fails"
| "catch_unwind Panics = Fails"

record decoded_jpeg =
  dj_rgba :: bytes
  dj_width :: u32
  dj_height :: u32

definition MAX_DECODED_RGBA_BYTES :: nat where "MAX_DECODED_RGBA_BYTES = MAX_IMAGE_PIXELS * 4"

definition validated_dimensions :: "nat \<Rightarrow> nat \<Rightarrow> (u32 \<times> u32 \<times> nat) option" where
  "validated_dimensions width height =
     (case rgba_len width height of
        None \<Rightarrow> None | Some len \<Rightarrow> Some (word_of_nat width, word_of_nat height, len))"

definition DecodedJpeg_zeroed :: "nat \<Rightarrow> nat \<Rightarrow> decoded_jpeg option" where
  "DecodedJpeg_zeroed width height =
     (case validated_dimensions width height of
        None \<Rightarrow> None
      | Some (w, h, len) \<Rightarrow> Some \<lparr>dj_rgba = replicate len 0, dj_width = w, dj_height = h\<rparr>)"

definition DecodedJpeg_from_rgba :: "nat \<Rightarrow> nat \<Rightarrow> bytes \<Rightarrow> decoded_jpeg option" where
  "DecodedJpeg_from_rgba width height rgba =
     (case validated_dimensions width height of
        None \<Rightarrow> None
      | Some (w, h, expected) \<Rightarrow>
          if length rgba \<noteq> expected then None else Some \<lparr>dj_rgba = rgba, dj_width = w, dj_height = h\<rparr>)"

definition is_jpeg_payload :: "bytes \<Rightarrow> bool" where
  "is_jpeg_payload data \<longleftrightarrow> take 2 data = [0xFF, 0xD8]"

datatype jpeg_pixel_format = RGB24 | L8 | OtherFormat

text \<open>
  The calls, in the order the backends make them. The calls of \<open>jpeg-decoder\<close> have the buffer limit first. A call that
  paints gives the bytes it writes, by their place in the buffer of the size it was told.
\<close>

record jpeg_libs =
  rs_read_info :: "nat \<Rightarrow> bytes \<Rightarrow> unit ext"
  rs_info :: "nat \<Rightarrow> bytes \<Rightarrow> (u16 \<times> u16 \<times> jpeg_pixel_format) ext"
  rs_decode :: "nat \<Rightarrow> bytes \<Rightarrow> bytes ext"
  moz_new_mem :: "bytes \<Rightarrow> (nat \<times> nat) ext"
  moz_rgba :: "bytes \<Rightarrow> unit ext"
  moz_read_scanlines :: "bytes \<Rightarrow> (u8 \<times> u8 \<times> u8 \<times> u8) list ext"
  moz_finish :: "bytes \<Rightarrow> unit ext"
  io_with_data :: "bytes \<Rightarrow> nat ext"
  io_image_at_index :: "bytes \<Rightarrow> (nat \<times> nat) ext"
  io_device_rgb :: "unit ext"
  io_bitmap_context :: "nat \<Rightarrow> nat \<Rightarrow> nat \<Rightarrow> unit ext"
  io_draw_image :: "bytes \<Rightarrow> (nat \<Rightarrow> u8) ext"
  wic_factory :: "unit ext"
  wic_create_stream :: "unit ext"
  wic_initialize_from_memory :: "bytes \<Rightarrow> unit ext"
  wic_create_decoder :: "bytes \<Rightarrow> unit ext"
  wic_get_frame :: "bytes \<Rightarrow> unit ext"
  wic_get_size :: "bytes \<Rightarrow> (u32 \<times> u32) ext"
  wic_create_converter :: "unit ext"
  wic_cast :: "bytes \<Rightarrow> unit ext"
  wic_initialize :: "bytes \<Rightarrow> unit ext"
  wic_copy_pixels :: "bytes \<Rightarrow> u32 \<Rightarrow> (nat \<Rightarrow> u8) ext"

definition paint :: "(nat \<Rightarrow> u8) \<Rightarrow> decoded_jpeg \<Rightarrow> decoded_jpeg" where
  "paint content d = d\<lparr>dj_rgba := map content [0..<length (dj_rgba d)]\<rparr>"

definition read_bounded_info :: "jpeg_libs \<Rightarrow> nat \<Rightarrow> bytes \<Rightarrow> (u16 \<times> u16 \<times> jpeg_pixel_format) ext" where
  "read_bounded_info jl limit data =
     bindX (rs_read_info jl limit data) (\<lambda>_.
     bindX (rs_info jl limit data) (\<lambda>(w, h, fmt).
     bindX (of_option (validated_dimensions (unat w) (unat h))) (\<lambda>_. Returns (w, h, fmt))))"

fun rgb24_to_rgba :: "bytes \<Rightarrow> bytes" where
  "rgb24_to_rgba (r # g # b # rest) = [r, g, b, 255] @ rgb24_to_rgba rest"
| "rgb24_to_rgba _ = []"

primrec format_to_rgba :: "jpeg_pixel_format \<Rightarrow> bytes \<Rightarrow> bytes option" where
  "format_to_rgba RGB24 pixels = Some (rgb24_to_rgba pixels)"
| "format_to_rgba L8 pixels = Some (concat (map (\<lambda>gray. [gray, gray, gray, 255]) pixels))"
| "format_to_rgba OtherFormat pixels = None"

definition JpegDecoderRsDecoder_decode :: "jpeg_libs \<Rightarrow> bytes \<Rightarrow> decoded_jpeg ext" where
  "JpegDecoderRsDecoder_decode jl data =
     (if \<not> is_jpeg_payload data then Fails
      else
        bindX (read_bounded_info jl MAX_DECODED_RGBA_BYTES data) (\<lambda>(w, h, fmt).
        bindX (rs_decode jl MAX_DECODED_RGBA_BYTES data) (\<lambda>pixels.
        bindX (of_option (format_to_rgba fmt pixels)) (\<lambda>rgba.
        of_option (DecodedJpeg_from_rgba (unat w) (unat h) rgba)))))"

definition MozJpegDecoder_decode :: "jpeg_libs \<Rightarrow> bytes \<Rightarrow> decoded_jpeg ext" where
  "MozJpegDecoder_decode jl data =
     (if \<not> is_jpeg_payload data then Fails
      else catch_unwind (
        bindX (moz_new_mem jl data) (\<lambda>(w, h).
        bindX (of_option (validated_dimensions w h)) (\<lambda>(width, height, _).
        bindX (moz_rgba jl data) (\<lambda>_.
        bindX (moz_read_scanlines jl data) (\<lambda>pixels.
        bindX (moz_finish jl data) (\<lambda>_.
        of_option (DecodedJpeg_from_rgba (unat width) (unat height)
          (concat (map (\<lambda>(r, g, b, a). [r, g, b, a]) pixels))))))))))"

definition VaapiDecoder_decode :: "jpeg_libs \<Rightarrow> bytes \<Rightarrow> decoded_jpeg ext" where
  "VaapiDecoder_decode jl data = MozJpegDecoder_decode jl data"

definition ImageIoDecoder_decode :: "jpeg_libs \<Rightarrow> bytes \<Rightarrow> decoded_jpeg ext" where
  "ImageIoDecoder_decode jl data =
     (if \<not> is_jpeg_payload data then Fails
      else
        bindX (io_with_data jl data) (\<lambda>count.
        if count = 0 then Fails
        else
          bindX (io_image_at_index jl data) (\<lambda>(width, height).
          bindX (of_option (DecodedJpeg_zeroed width height)) (\<lambda>decoded.
          bindX (io_device_rgb jl) (\<lambda>_.
          bindX (io_bitmap_context jl width height (width * 4)) (\<lambda>_.
          bindX (io_draw_image jl data) (\<lambda>content. Returns (paint content decoded))))))))"

definition WicDecoder_decode :: "jpeg_libs \<Rightarrow> bytes \<Rightarrow> decoded_jpeg ext" where
  "WicDecoder_decode jl data =
     (if \<not> is_jpeg_payload data then Fails
      else
        bindX (wic_factory jl) (\<lambda>_.
        bindX (wic_create_stream jl) (\<lambda>_.
        bindX (wic_initialize_from_memory jl data) (\<lambda>_.
        bindX (wic_create_decoder jl data) (\<lambda>_.
        bindX (wic_get_frame jl data) (\<lambda>_.
        bindX (wic_get_size jl data) (\<lambda>(width, height).
        bindX (of_option (DecodedJpeg_zeroed (unat width) (unat height))) (\<lambda>decoded.
        bindX (wic_create_converter jl) (\<lambda>_.
        bindX (wic_cast jl data) (\<lambda>_.
        bindX (wic_initialize jl data) (\<lambda>_.
        bindX (wic_copy_pixels jl data (word_of_nat (unat width * 4))) (\<lambda>content.
        Returns (paint content decoded)))))))))))))"

datatype jpeg_backend = JpegDecoderRs | MozJpeg | Vaapi | ImageIo | Wic

definition jpeg_decode :: "jpeg_libs \<Rightarrow> jpeg_backend \<Rightarrow> bytes \<Rightarrow> decoded_jpeg ext" where
  "jpeg_decode jl backend data =
     (case backend of
        JpegDecoderRs \<Rightarrow> JpegDecoderRsDecoder_decode jl data
      | MozJpeg \<Rightarrow> MozJpegDecoder_decode jl data
      | Vaapi \<Rightarrow> VaapiDecoder_decode jl data
      | ImageIo \<Rightarrow> ImageIoDecoder_decode jl data
      | Wic \<Rightarrow> WicDecoder_decode jl data)"

datatype target_os = MacOs | Windows | Linux | OtherOs

text \<open>The platform and the \<open>mozjpeg\<close> feature of the build, and whether the probe of VA-API succeeds.\<close>

definition best_for_platform :: "target_os \<Rightarrow> bool \<Rightarrow> bool \<Rightarrow> jpeg_backend" where
  "best_for_platform os mozjpeg vaapi =
     (if os = MacOs then ImageIo
      else if os = Windows then Wic
      else if os = Linux \<and> mozjpeg \<and> vaapi then Vaapi
      else if mozjpeg then MozJpeg else JpegDecoderRs)"

section \<open>Frames\<close>

text \<open>A frame whose buffer has four bytes per pixel, within the limits.\<close>

definition frame_ok :: "decoded_jpeg \<Rightarrow> bool" where
  "frame_ok f \<longleftrightarrow> rgba_len (unat (dj_width f)) (unat (dj_height f)) = Some (length (dj_rgba f))"

lemma bindX_iff:
  "bindX r f = Returns b \<longleftrightarrow> (\<exists>a. r = Returns a \<and> f a = Returns b)"
  "bindX r f = Panics \<longleftrightarrow> r = Panics \<or> (\<exists>a. r = Returns a \<and> f a = Panics)"
  by (cases r; simp)+

lemma of_option_iff [simp]: "of_option r = Returns a \<longleftrightarrow> r = Some a" "of_option r \<noteq> Panics"
  by (cases r; simp add: of_option_def)+

lemma catch_unwind_iff [simp]: "catch_unwind r = Returns a \<longleftrightarrow> r = Returns a" "catch_unwind r \<noteq> Panics"
  by (cases r; simp)+

lemma validated_dimensions_ok:
  "validated_dimensions w h = Some (w', h', n) \<Longrightarrow> rgba_len (unat w') (unat h') = Some n"
  by (auto simp: validated_dimensions_def rgba_len_Some unat_of_nat split: option.splits)

lemma from_rgba_ok: "DecodedJpeg_from_rgba w h rgba = Some f \<Longrightarrow> frame_ok f"
  using validated_dimensions_ok [of w h]
  by (auto simp: DecodedJpeg_from_rgba_def frame_ok_def split: option.splits if_splits)

lemma zeroed_ok: "DecodedJpeg_zeroed w h = Some f \<Longrightarrow> frame_ok f"
  by (auto simp: DecodedJpeg_zeroed_def frame_ok_def dest: validated_dimensions_ok split: option.splits)

lemma paint_ok [simp]: "frame_ok (paint content f) = frame_ok f"
  by (simp add: paint_def frame_ok_def)

lemmas backend_defs = JpegDecoderRsDecoder_decode_def MozJpegDecoder_decode_def VaapiDecoder_decode_def
  ImageIoDecoder_decode_def WicDecoder_decode_def

lemma jpeg_decode_ok: "jpeg_decode jl backend data = Returns f \<Longrightarrow> frame_ok f"
  by (cases backend) (auto simp: jpeg_decode_def backend_defs bindX_iff dest: from_rgba_ok zeroed_ok split: if_splits)

section \<open>Panics\<close>

text \<open>A call of the backend's library that panics on some payload.\<close>

definition library_panics :: "jpeg_libs \<Rightarrow> jpeg_backend \<Rightarrow> bool" where
  "library_panics jl backend \<longleftrightarrow> (\<exists>data. case backend of
     JpegDecoderRs \<Rightarrow> (\<exists>n. rs_read_info jl n data = Panics \<or> rs_info jl n data = Panics \<or> rs_decode jl n data = Panics)
   | ImageIo \<Rightarrow> io_with_data jl data = Panics \<or> io_image_at_index jl data = Panics \<or> io_device_rgb jl = Panics
       \<or> (\<exists>w h n. io_bitmap_context jl w h n = Panics) \<or> io_draw_image jl data = Panics
   | Wic \<Rightarrow> wic_factory jl = Panics \<or> wic_create_stream jl = Panics \<or> wic_initialize_from_memory jl data = Panics
       \<or> wic_create_decoder jl data = Panics \<or> wic_get_frame jl data = Panics \<or> wic_get_size jl data = Panics
       \<or> wic_create_converter jl = Panics \<or> wic_cast jl data = Panics \<or> wic_initialize jl data = Panics
       \<or> (\<exists>n. wic_copy_pixels jl data n = Panics)
   | _ \<Rightarrow> moz_new_mem jl data = Panics \<or> moz_rgba jl data = Panics \<or> moz_read_scanlines jl data = Panics
       \<or> moz_finish jl data = Panics)"

text \<open>Only a library's panic is a panic of the decoder, and the mozjpeg backend catches those.\<close>

lemma jpeg_decode_panics:
  assumes "jpeg_decode jl backend data = Panics"
  shows "backend \<notin> {MozJpeg, Vaapi} \<and> library_panics jl backend"
proof (cases backend)
  case JpegDecoderRs
  with assms show ?thesis
    by (auto simp: jpeg_decode_def backend_defs read_bounded_info_def bindX_iff library_panics_def split: if_splits)
next
  case ImageIo
  with assms show ?thesis
    by (auto simp: jpeg_decode_def backend_defs bindX_iff library_panics_def split: if_splits)
next
  case Wic
  with assms show ?thesis
    by (auto simp: jpeg_decode_def backend_defs bindX_iff library_panics_def split: if_splits)
qed (use assms in \<open>simp_all add: jpeg_decode_def backend_defs split: if_splits\<close>)

lemma best_for_linux: "best_for_platform Linux True vaapi \<in> {MozJpeg, Vaapi}"
  by (simp add: best_for_platform_def)

end
