(* ===== verification/Draw_Images.thy ===== *)
theory Draw_Images
  imports Draw_Handlers Glz Lz4 Quic_Safe Jpeg
begin

unbundle bit_operations_syntax

text \<open>
  The draws of the display channel that paint an image (\<open>shakenfist-spice-renderer/src/channels/display.rs\<close>):
  the dispatch on the image's encoding to the decoders of \<open>shakenfist-spice-compression\<close>, the image cache
  (\<open>image_cache.rs\<close>) and the GLZ dictionary that decoded images go to, and the handlers that find the image in
  their message, decode it and emit it.

  The zlib stream, the LZ4 block format, the libraries under the JPEG decoder and the recency lists are
  third-party code and fields of \<open>codecs\<close>. The GLZ dictionary is shared between the display channels; what the
  others do to it before each lock this channel takes is a function of \<open>codecs\<close> too. Warnings, the decode history and the verbose log
  have no effect on the draws and are left out.
\<close>

section \<open>State\<close>

record 'c image_cache =
  ic_inner :: "'c byte_lru"
  ic_first_eviction_logged :: bool

definition BoundedImageCache_new :: "('c, bytes) lru_ops \<Rightarrow> nat \<Rightarrow> 'c image_cache option" where
  "BoundedImageCache_new L cap =
     map_option (\<lambda>b. \<lparr>ic_inner = b, ic_first_eviction_logged = False\<rparr>) (ByteBoundedLru_new L cap)"

text \<open>\<open>None\<close> is an eviction loop that does not return, or that stops at its debug assertion.\<close>

definition ic_insert :: "('c, bytes) lru_ops \<Rightarrow> 'c image_cache \<Rightarrow> u64 \<Rightarrow> bytes \<Rightarrow> (insert_outcome \<times> 'c image_cache) option" where
  "ic_insert L ic key v =
     (case insert_recording_evicted L (ic_inner ic) key v of
        None \<Rightarrow> None
      | Some (outcome, _, inner) \<Rightarrow>
          Some (outcome, \<lparr>ic_inner = inner, ic_first_eviction_logged =
            (case outcome of InsertedAfterEviction _ _ \<Rightarrow> True | _ \<Rightarrow> ic_first_eviction_logged ic)\<rparr>))"

definition ic_get :: "('c, bytes) lru_ops \<Rightarrow> 'c image_cache \<Rightarrow> u64 \<Rightarrow> bytes option \<times> 'c image_cache" where
  "ic_get L ic key = (let (v, inner) = bl_get L (ic_inner ic) key in (v, ic\<lparr>ic_inner := inner\<rparr>))"

definition ic_remove :: "('c, bytes) lru_ops \<Rightarrow> 'c image_cache \<Rightarrow> u64 \<Rightarrow> bool \<times> 'c image_cache" where
  "ic_remove L ic key = (let (r, inner) = bl_remove L (ic_inner ic) key in (r, ic\<lparr>ic_inner := inner\<rparr>))"

definition ic_clear :: "('c, bytes) lru_ops \<Rightarrow> 'c image_cache \<Rightarrow> 'c image_cache" where
  "ic_clear L ic = ic\<lparr>ic_inner := bl_clear L (ic_inner ic)\<rparr>"

record ('c, 't) display_images =
  dc_channel_id :: u8
  dc_glz_dictionary :: "('c, 't) glz_dictionary"
  dc_image_cache :: "'c image_cache"

text \<open>
  \<open>cd_zlib\<close> gives the bytes a zlib stream inflates to and whether it is malformed after them.
  \<open>cd_others n\<close> is what the other channels do to the shared dictionary before the \<open>n\<close>-th lock that keeping an
  image takes: the images, the tombstones and the flag of \<open>insert\<close>, and the images for the window.
  \<open>cd_jpeg_backend\<close> is what \<open>best_for_platform\<close> gave when the channel was made.
\<close>

record ('c, 't) codecs =
  cd_lru :: "('c, bytes) lru_ops"
  cd_tombstones :: "('t, unit) lru_ops"
  cd_env :: "('c, 't) glz_env"
  cd_wakes :: "nat \<Rightarrow> nat"
  cd_others :: "('c, 't) glz_env"
  cd_lz4 :: lz4_block
  cd_zlib :: "bytes \<Rightarrow> bytes \<times> bool"
  cd_jpeg_libs :: jpeg_libs
  cd_jpeg_backend :: jpeg_backend

text \<open>\<open>DrawEnds\<close> is an error that ends the channel; \<open>DrawDiverges\<close> is a loop that does not come back.\<close>

datatype draw_error = DrawEnds | DrawPanic | DrawDiverges

section \<open>Decoding\<close>

definition BIT32 :: u8 where "BIT32 = 8"
definition FMT_RGBA :: u8 where "FMT_RGBA = 9"
definition TOP_DOWN :: u8 where "TOP_DOWN = push_bit 2 1"

definition bgr_pixel :: "u8 \<Rightarrow> bytes \<Rightarrow> nat \<Rightarrow> bytes" where
  "bgr_pixel fmt src_row si =
     [src_row ! (si + 2), src_row ! (si + 1), src_row ! si, if fmt = FMT_RGBA then src_row ! (si + 3) else 255]"

definition pixmap_row :: "u8 \<Rightarrow> nat \<Rightarrow> bytes \<Rightarrow> nat \<Rightarrow> bytes \<Rightarrow> bytes option" where
  "pixmap_row fmt width src_row dst_start rgba =
     for_each [0..<width] (\<lambda>x buf. write_slice buf (dst_start + x * 4) (bgr_pixel fmt src_row (x * 4))) rgba"

definition pixmap_rows :: "u8 \<Rightarrow> bool \<Rightarrow> nat \<Rightarrow> nat \<Rightarrow> nat \<Rightarrow> bytes \<Rightarrow> bytes \<Rightarrow> bytes option" where
  "pixmap_rows fmt top_down stride width height pixel_data rgba =
     for_each [0..<height]
       (\<lambda>y buf. let src_y = (if top_down then y else height - 1 - y) in
          case read_slice pixel_data (src_y * stride) (width * 4) of
            None \<Rightarrow> None | Some src_row \<Rightarrow> pixmap_row fmt width src_row (y * (width * 4)) buf) rgba"

definition decode_pixmap :: "u64 \<Rightarrow> bytes \<Rightarrow> draw_error + decompressed_image option" where
  "decode_pixmap image_id image_data =
     (case decode (bindP BitmapHeader_read (\<lambda>h. bindP get_remaining (\<lambda>n. bindP (read_bytes n) (\<lambda>d. retP (h, d))))) image_data of
        Inl _ \<Rightarrow> Inr None
      | Inr (header, pixel_data) \<Rightarrow>
          let fmt = bh_format header; width = unat (bh_x header); height = unat (bh_y header);
              stride = unat (bh_stride header); top_down = (bh_flags header AND TOP_DOWN \<noteq> 0) in
          if fmt \<noteq> BIT32 \<and> fmt \<noteq> FMT_RGBA then Inr None
          else case rgba_len width height of
            None \<Rightarrow> Inr None
          | Some expected_pixels \<Rightarrow>
          (case checked_mul stride height of
            None \<Rightarrow> Inr None
          | Some needed_bytes \<Rightarrow>
              if needed_bytes > length pixel_data then Inr None
              else if \<not> (case checked_mul width 4 of None \<Rightarrow> False | Some row_bytes \<Rightarrow> row_bytes \<le> stride) then Inr None
              else case pixmap_rows fmt top_down stride width height pixel_data (replicate expected_pixels 0) of
                None \<Rightarrow> Inl DrawPanic
              | Some rgba \<Rightarrow> Inr (DecompressedImage_new (bh_x header) (bh_y header) rgba image_id)))"

definition GLZ_STREAM_FIXED_OVERHEAD :: nat where "GLZ_STREAM_FIXED_OVERHEAD = 64"

definition glz_stream_limit :: "nat \<Rightarrow> nat \<Rightarrow> nat option" where
  "glz_stream_limit width height =
     (case rgba_len width height of
        None \<Rightarrow> None | Some rgba \<Rightarrow> Some (rgba + rgba div 4 + GLZ_STREAM_FIXED_OVERHEAD))"

datatype inflate_glz_error = DimensionsRefused | DeclaredTooLarge | ExceedsDeclared | SizeMismatch nat | Zlib

text \<open>At most \<open>n\<close> bytes of a stream, or its error when it comes first.\<close>

definition take_to_end :: "nat \<Rightarrow> bytes \<times> bool \<Rightarrow> bytes option" where
  "take_to_end n stream =
     (case stream of (out, malformed) \<Rightarrow>
        if n \<le> length out then Some (take n out) else if malformed then None else Some out)"

definition inflate_glz_stream :: "(bytes \<Rightarrow> bytes \<times> bool) \<Rightarrow> bytes \<Rightarrow> nat \<Rightarrow> nat \<Rightarrow> nat \<Rightarrow> inflate_glz_error + bytes" where
  "inflate_glz_stream zlib zlib_data declared_glz_size width height =
     (case glz_stream_limit width height of
        None \<Rightarrow> Inl DimensionsRefused
      | Some limit \<Rightarrow>
          if declared_glz_size > limit then Inl DeclaredTooLarge
          else case take_to_end (declared_glz_size + 1) (zlib zlib_data) of
            None \<Rightarrow> Inl Zlib
          | Some glz_data \<Rightarrow>
              if length glz_data > declared_glz_size then Inl ExceedsDeclared
              else if length glz_data \<noteq> declared_glz_size then Inl (SizeMismatch (length glz_data))
              else Inr glz_data)"

text \<open>
  A decode that fails before its first look at the dictionary leaves it; \<open>glz_fails_early\<close> below shows
  that no other failure is possible.
\<close>

definition decode_glz :: "('c, 't) codecs \<Rightarrow> bytes \<Rightarrow> ('c, 't) display_images
    \<Rightarrow> draw_error + (decompressed_image option \<times> ('c, 't) display_images)" where
  "decode_glz cd glz_data st =
     (case decompress_glz (cd_lru cd) (cd_tombstones cd) (cd_env cd) (cd_wakes cd) glz_data (dc_glz_dictionary st) of
        Inl LzPanic \<Rightarrow> Inl DrawPanic
      | Inl _ \<Rightarrow> Inr (None, st)
      | Inr (img, d) \<Rightarrow> Inr (Some img, st\<lparr>dc_glz_dictionary := d\<rparr>))"

definition decode_zlib_glz :: "('c, 't) codecs \<Rightarrow> image_descriptor \<Rightarrow> bytes \<Rightarrow> ('c, 't) display_images
    \<Rightarrow> draw_error + (decompressed_image option \<times> ('c, 't) display_images)" where
  "decode_zlib_glz cd img_desc image_data st =
     (if length image_data < 8 then Inr (None, st)
      else case (read_u32_le image_data 0, read_u32_le image_data 4) of
        (Some declared_glz_size, Some zlib_size) \<Rightarrow>
          (let zlib_data = take (min (unat zlib_size) (length image_data - 8)) (drop 8 image_data) in
           case inflate_glz_stream (cd_zlib cd) zlib_data (unat declared_glz_size)
               (unat (idsc_width img_desc)) (unat (idsc_height img_desc)) of
             Inl _ \<Rightarrow> Inr (None, st)
           | Inr glz_data \<Rightarrow> decode_glz cd glz_data st)
      | _ \<Rightarrow> Inl DrawPanic)"

definition decode_lz :: "bytes \<Rightarrow> draw_error + decompressed_image option" where
  "decode_lz image_data =
     (if length image_data < 4 then Inr None
      else case decompress_lz (drop 4 image_data) of
        Inl LzPanic \<Rightarrow> Inl DrawPanic | Inl _ \<Rightarrow> Inr None | Inr img \<Rightarrow> Inr (Some img))"

definition decode_lz4 :: "('c, 't) codecs \<Rightarrow> image_descriptor \<Rightarrow> bytes \<Rightarrow> draw_error + decompressed_image option" where
  "decode_lz4 cd img_desc image_data =
     (case decode BinaryData_read_data image_data of
        Inl _ \<Rightarrow> Inr None
      | Inr lz4_data \<Rightarrow>
          (case decompress_spice_lz4 (cd_lz4 cd) lz4_data (unat (idsc_width img_desc)) (unat (idsc_height img_desc)) of
             Inl Lz4Panic \<Rightarrow> Inl DrawPanic | Inl _ \<Rightarrow> Inr None | Inr img \<Rightarrow> Inr (Some img)))"

definition decode_from_cache :: "('c, 't) codecs \<Rightarrow> image_descriptor \<Rightarrow> ('c, 't) display_images
    \<Rightarrow> decompressed_image option \<times> ('c, 't) display_images" where
  "decode_from_cache cd img_desc st =
     (case ic_get (cd_lru cd) (dc_image_cache st) (idsc_image_id img_desc) of
        (None, ic) \<Rightarrow> (None, st\<lparr>dc_image_cache := ic\<rparr>)
      | (Some pixels, ic) \<Rightarrow>
          (if rgba_len (unat (idsc_width img_desc)) (unat (idsc_height img_desc)) = Some (length pixels)
           then DecompressedImage_new (idsc_width img_desc) (idsc_height img_desc) pixels (idsc_image_id img_desc)
           else None, st\<lparr>dc_image_cache := ic\<rparr>))"

definition decode_jpeg :: "('c, 't) codecs \<Rightarrow> image_descriptor \<Rightarrow> bytes \<Rightarrow> draw_error + decompressed_image option" where
  "decode_jpeg cd img_desc image_data =
     (case decode BinaryData_read_data image_data of
        Inl _ \<Rightarrow> Inr None
      | Inr jpeg_data \<Rightarrow>
          (case jpeg_decode (cd_jpeg_libs cd) (cd_jpeg_backend cd) jpeg_data of
             Panics \<Rightarrow> Inl DrawPanic
           | Fails \<Rightarrow> Inr None
           | Returns dec \<Rightarrow>
               Inr (DecompressedImage_new (dj_width dec) (dj_height dec) (dj_rgba dec) (idsc_image_id img_desc))))"

definition decode_quic :: "image_descriptor \<Rightarrow> bytes \<Rightarrow> draw_error + decompressed_image option" where
  "decode_quic img_desc image_data =
     (if length image_data < 4 then Inr None
      else case read_u32_le image_data 0 of
        None \<Rightarrow> Inl DrawPanic
      | Some data_size \<Rightarrow>
          (let quic_data = take (min (unat data_size) (length image_data - 4)) (drop 4 image_data) in
           case quic_decode quic_data (idsc_width img_desc) (idsc_height img_desc) of
             Inl QuicFailed \<Rightarrow> Inr None
           | Inl QuicPanic \<Rightarrow> Inl DrawPanic
           | Inl QuicDiverges \<Rightarrow> Inl DrawDiverges
           | Inr rgba \<Rightarrow> Inr (DecompressedImage_new (idsc_width img_desc) (idsc_height img_desc) rgba (idsc_image_id img_desc))))"

text \<open>A decoder that does not use the channel's state.\<close>

definition stateless :: "('c, 't) display_images \<Rightarrow> draw_error + decompressed_image option
    \<Rightarrow> draw_error + (decompressed_image option \<times> ('c, 't) display_images)" where
  "stateless st r = (case r of Inl e \<Rightarrow> Inl e | Inr img \<Rightarrow> Inr (img, st))"

definition decode_image :: "('c, 't) codecs \<Rightarrow> image_descriptor \<Rightarrow> bytes \<Rightarrow> ('c, 't) display_images
    \<Rightarrow> draw_error + (decompressed_image option \<times> ('c, 't) display_images)" where
  "decode_image cd img_desc image_data st =
     (case ImageType_from_u8 (idsc_image_type img_desc) of
        Some Pixmap \<Rightarrow> stateless st (decode_pixmap (idsc_image_id img_desc) image_data)
      | Some GlzRgb \<Rightarrow> if length image_data < 4 then Inr (None, st) else decode_glz cd (drop 4 image_data) st
      | Some LzRgb \<Rightarrow> stateless st (decode_lz image_data)
      | Some ZlibGlzRgb \<Rightarrow> decode_zlib_glz cd img_desc image_data st
      | Some image_type.Lz4 \<Rightarrow> stateless st (decode_lz4 cd img_desc image_data)
      | Some FromCache \<Rightarrow> Inr (decode_from_cache cd img_desc st)
      | Some FromCacheLossless \<Rightarrow> Inr (decode_from_cache cd img_desc st)
      | Some Jpeg \<Rightarrow> stateless st (decode_jpeg cd img_desc image_data)
      | Some image_type.Quic \<Rightarrow> stateless st (decode_quic img_desc image_data)
      | Some LzPalette \<Rightarrow> Inr (None, st)
      | Some SurfaceImage \<Rightarrow> Inr (None, st)
      | Some JpegAlpha \<Rightarrow> Inr (None, st)
      | None \<Rightarrow> Inr (None, st))"

section \<open>Keeping and emitting the image\<close>

definition IMAGE_FLAGS_CACHE_ME :: u8 where "IMAGE_FLAGS_CACHE_ME = push_bit 0 1"
definition IMAGE_FLAGS_CACHE_REPLACE_ME :: u8 where "IMAGE_FLAGS_CACHE_REPLACE_ME = push_bit 2 1"

definition is_glz :: "image_descriptor \<Rightarrow> bool" where
  "is_glz img_desc = (ImageType_from_u8 (idsc_image_type img_desc) \<in> {Some GlzRgb, Some ZlibGlzRgb})"

definition keep_glz :: "('c, 't) codecs \<Rightarrow> decompressed_image \<Rightarrow> ('c, 't) glz_dictionary \<Rightarrow> ('c, 't) glz_dictionary option" where
  "keep_glz cd img d =
     (case gd_insert (cd_lru cd) (cd_tombstones cd) (cd_others cd) d (di_image_id img) (di_pixels img) of
        None \<Rightarrow> None
      | Some d \<Rightarrow> Some (
          if di_win_head_dist img > 0
          then let oldest_valid = (if di_image_id img \<ge> ucast (di_win_head_dist img)
                                   then di_image_id img - ucast (di_win_head_dist img) else 0) in
               snd (evict_older_than (cd_lru cd) (cd_others cd 3 d) oldest_valid)
          else d))"

definition keep_image :: "('c, 't) codecs \<Rightarrow> image_descriptor \<Rightarrow> decompressed_image \<Rightarrow> ('c, 't) display_images
    \<Rightarrow> draw_error + ('c, 't) display_images" where
  "keep_image cd img_desc img st =
     (if is_glz img_desc then
        (case keep_glz cd img (dc_glz_dictionary st) of
           None \<Rightarrow> Inl DrawDiverges | Some d \<Rightarrow> Inr (st\<lparr>dc_glz_dictionary := d\<rparr>))
      else if idsc_flags img_desc AND (IMAGE_FLAGS_CACHE_ME OR IMAGE_FLAGS_CACHE_REPLACE_ME) \<noteq> 0 then
        (case ic_insert (cd_lru cd) (dc_image_cache st) (idsc_image_id img_desc) (di_pixels img) of
           None \<Rightarrow> Inl DrawDiverges | Some (_, ic) \<Rightarrow> Inr (st\<lparr>dc_image_cache := ic\<rparr>))
      else Inr st)"

definition decode_image_and_emit :: "('c, 't) codecs \<Rightarrow> draw_base \<Rightarrow> image_descriptor \<Rightarrow> bytes \<Rightarrow> rect \<Rightarrow> composite_mode
    \<Rightarrow> ('c, 't) display_images \<Rightarrow> draw_error + (channel_event list \<times> ('c, 't) display_images)" where
  "decode_image_and_emit cd base img_desc image_data src_area composite st =
     bindE (decode_image cd img_desc image_data st) (\<lambda>(decompressed, st).
     case decompressed of
       None \<Rightarrow> Inr ([], st)
     | Some img \<Rightarrow>
         bindE (keep_image cd img_desc img st) (\<lambda>st.
         case emit_image composite (dc_channel_id st) base src_area img
             (if is_glz img_desc then di_image_id img else idsc_image_id img_desc) of
           None \<Rightarrow> Inl DrawPanic
         | Some events \<Rightarrow> Inr (events, st)))"

section \<open>Finding the image\<close>

definition decode_copy_image_and_emit :: "('c, 't) codecs \<Rightarrow> bytes \<Rightarrow> draw_base \<Rightarrow> spice_copy \<Rightarrow> nat
    \<Rightarrow> ('c, 't) display_images \<Rightarrow> draw_error + (channel_event list \<times> ('c, 't) display_images)" where
  "decode_copy_image_and_emit cd payload base copy fixed_len st =
     (case src_bitmap_reader copy payload fixed_len of
        Inl _ \<Rightarrow> Inr ([], st)
      | Inr None \<Rightarrow> Inr ([], st)
      | Inr (Some region) \<Rightarrow>
          (case ImageDescriptor_read region of
             Inl _ \<Rightarrow> Inr ([], st)
           | Inr (img_desc, region) \<Rightarrow>
               (case read_bytes (remaining region) region of
                  Inl _ \<Rightarrow> Inl DrawEnds
                | Inr (image_data, _) \<Rightarrow>
                    decode_image_and_emit cd base img_desc image_data (cp_src_area copy) Overwrite st)))"

definition decode_image_at_offset_and_emit :: "('c, 't) codecs \<Rightarrow> bytes \<Rightarrow> draw_base \<Rightarrow> nat \<Rightarrow> rect \<Rightarrow> composite_mode
    \<Rightarrow> ('c, 't) display_images \<Rightarrow> draw_error + (channel_event list \<times> ('c, 't) display_images)" where
  "decode_image_at_offset_and_emit cd payload base src_bitmap_offset src_area composite st =
     (if src_bitmap_offset = 0 then Inr ([], st)
      else if length payload < src_bitmap_offset + 18 then Inr ([], st)
      else case decode ImageDescriptor_read (drop src_bitmap_offset payload) of
        Inl _ \<Rightarrow> Inl DrawEnds
      | Inr img_desc \<Rightarrow>
          decode_image_and_emit cd base img_desc (drop (src_bitmap_offset + 18) payload) src_area composite st)"

text \<open>An error of a message's reader ends the channel.\<close>

definition ends :: "io_error_kind + 'a \<Rightarrow> draw_error + 'a" where
  "ends r = (case r of Inl _ \<Rightarrow> Inl DrawEnds | Inr v \<Rightarrow> Inr v)"

definition handle_draw_copy :: "('c, 't) codecs \<Rightarrow> bytes \<Rightarrow> ('c, 't) display_images
    \<Rightarrow> draw_error + (channel_event list \<times> ('c, 't) display_images)" where
  "handle_draw_copy cd payload st =
     (if length payload < 21 then Inr ([], st)
      else case DrawBase_read (reader_new payload) of
        Inl _ \<Rightarrow> Inl DrawEnds
      | Inr (base, r) \<Rightarrow>
          (case SpiceCopy_read r of
             Inl _ \<Rightarrow> Inr ([], st)
           | Inr (copy, r) \<Rightarrow> decode_copy_image_and_emit cd payload base copy (position r) st))"

datatype blend_outcome = BlendPaint draw_base spice_copy nat | BlendSkipNonOpPut u16

definition decode_draw_blend :: "bytes \<Rightarrow> io_error_kind + blend_outcome" where
  "decode_draw_blend payload =
     io_result (bindE (DrawBase_read (reader_new payload)) (\<lambda>(base, r).
       bindE (SpiceCopy_read r) (\<lambda>(copy, r).
         Inr (if cp_rop_descriptor copy \<noteq> OP_PUT then BlendSkipNonOpPut (cp_rop_descriptor copy)
              else BlendPaint base copy (position r)))))"

definition handle_draw_blend :: "('c, 't) codecs \<Rightarrow> bytes \<Rightarrow> ('c, 't) display_images
    \<Rightarrow> draw_error + (channel_event list \<times> ('c, 't) display_images)" where
  "handle_draw_blend cd payload st =
     bindE (ends (decode_draw_blend payload)) (\<lambda>outcome. case outcome of
        BlendSkipNonOpPut _ \<Rightarrow> Inr ([], st)
      | BlendPaint base copy fixed_len \<Rightarrow> decode_copy_image_and_emit cd payload base copy fixed_len st)"

datatype opaque_outcome = OpaquePaint draw_base nat rect | OpaqueSkipNonOpPut u16

definition decode_draw_opaque :: "bytes \<Rightarrow> io_error_kind + opaque_outcome" where
  "decode_draw_opaque payload =
     bindE (read_draw_base payload) (\<lambda>(base, body).
     bindE (SpiceOpaque_read body) (\<lambda>(opaque, _).
       Inr (if op_rop_descriptor opaque \<noteq> OP_PUT then OpaqueSkipNonOpPut (op_rop_descriptor opaque)
            else OpaquePaint base (unat (op_src_bitmap opaque))
              \<lparr>rc_top = op_src_top opaque, rc_left = op_src_left opaque,
                rc_bottom = op_src_bottom opaque, rc_right = op_src_right opaque\<rparr>)))"

definition handle_draw_opaque :: "('c, 't) codecs \<Rightarrow> bytes \<Rightarrow> ('c, 't) display_images
    \<Rightarrow> draw_error + (channel_event list \<times> ('c, 't) display_images)" where
  "handle_draw_opaque cd payload st =
     bindE (ends (decode_draw_opaque payload)) (\<lambda>outcome. case outcome of
        OpaqueSkipNonOpPut _ \<Rightarrow> Inr ([], st)
      | OpaquePaint base off src_area \<Rightarrow> decode_image_at_offset_and_emit cd payload base off src_area Overwrite st)"

definition decode_draw_transparent :: "bytes \<Rightarrow> io_error_kind + (draw_base \<times> rgba \<times> nat \<times> rect)" where
  "decode_draw_transparent payload =
     bindE (read_draw_base payload) (\<lambda>(base, body).
     bindE (SpiceTransparent_read body) (\<lambda>tr.
       Inr (base, colour_bytes (tr_src_color tr), unat (tr_src_bitmap tr),
         \<lparr>rc_top = tr_src_top tr, rc_left = tr_src_left tr, rc_bottom = tr_src_bottom tr, rc_right = tr_src_right tr\<rparr>)))"

definition handle_draw_transparent :: "('c, 't) codecs \<Rightarrow> bytes \<Rightarrow> ('c, 't) display_images
    \<Rightarrow> draw_error + (channel_event list \<times> ('c, 't) display_images)" where
  "handle_draw_transparent cd payload st =
     bindE (ends (decode_draw_transparent payload)) (\<lambda>(base, chroma, off, src_area).
       decode_image_at_offset_and_emit cd payload base off src_area (ChromaKey chroma) st)"

datatype alpha_blend_outcome = AlphaBlendPaint draw_base u8 u16 nat rect | AlphaBlendSkipZeroAlpha

definition decode_draw_alpha_blend :: "bytes \<Rightarrow> io_error_kind + alpha_blend_outcome" where
  "decode_draw_alpha_blend payload =
     bindE (read_draw_base payload) (\<lambda>(base, body).
     bindE (SpiceAlphaBlend_read body) (\<lambda>ab.
       Inr (if ab_alpha ab = 0 then AlphaBlendSkipZeroAlpha
            else AlphaBlendPaint base (ab_alpha ab) (ab_alpha_flags ab) (unat (ab_src_bitmap ab))
              \<lparr>rc_top = ab_src_top ab, rc_left = ab_src_left ab, rc_bottom = ab_src_bottom ab, rc_right = ab_src_right ab\<rparr>)))"

definition handle_draw_alpha_blend :: "('c, 't) codecs \<Rightarrow> bytes \<Rightarrow> ('c, 't) display_images
    \<Rightarrow> draw_error + (channel_event list \<times> ('c, 't) display_images)" where
  "handle_draw_alpha_blend cd payload st =
     bindE (ends (decode_draw_alpha_blend payload)) (\<lambda>outcome. case outcome of
        AlphaBlendSkipZeroAlpha \<Rightarrow> Inr ([], st)
      | AlphaBlendPaint base alpha _ off src_area \<Rightarrow>
          decode_image_at_offset_and_emit cd payload base off src_area (AlphaBlend alpha) st)"

section \<open>Pixmaps\<close>

lemma for_each_cong: "(\<And>x s. x \<in> set xs \<Longrightarrow> f x s = g x s) \<Longrightarrow> for_each xs f s = for_each xs g s"
  by (induction xs arbitrary: s) (simp_all split: option.split)

lemma write_slice_repaints:
  assumes "length buf = 4 * n" and "k < n" and "length xs = 4"
  shows "\<exists>buf'. write_slice buf (4 * k) xs = Some buf' \<and> repaints n (\<lambda>b. b) {k} (\<lambda>_ _. pix 0 xs) buf buf'"
proof -
  have "length (copy_slice buf (4 * k) xs) = 4 * n" using length_copy_slice [of "4 * k" xs buf] assms by simp
  moreover have "pix j (copy_slice buf (4 * k) xs) = (if j \<in> {k} then pix 0 xs else pix j buf)" if "j < n" for j
    using pix_copy_slice [of xs 1 k buf j] assms that by (auto split: if_splits)
  ultimately show ?thesis using assms by (simp add: write_slice_def repaints_def)
qed

lemma bgr_pixel_slice:
  "si + 4 \<le> n \<Longrightarrow> i + n \<le> length data \<Longrightarrow> bgr_pixel fmt (take n (drop i data)) si = bgr_pixel fmt data (i + si)"
  by (simp add: bgr_pixel_def add.assoc)

lemma pixmap_rows_spec:
  assumes row: "width * 4 \<le> stride" and data: "stride * height \<le> length pixel_data"
  shows "\<exists>rgba. pixmap_rows fmt top_down stride width height pixel_data (replicate (width * height * 4) 0) = Some rgba
    \<and> length rgba = 4 * (width * height)
    \<and> (\<forall>x<width. \<forall>y<height. pix (y * width + x) rgba
        = bgr_pixel fmt pixel_data ((if top_down then y else height - 1 - y) * stride + x * 4))"
proof -
  define sy where "sy y = (if top_down then y else height - 1 - y)" for y
  define at where "at y x = bgr_pixel fmt pixel_data (sy y * stride + x * 4)" for y x
  have fits: "sy y * stride + width * 4 \<le> length pixel_data" if "y < height" for y
  proof -
    have "Suc (sy y) * stride \<le> height * stride" using that by (intro mult_right_mono) (auto simp: sy_def)
    then show ?thesis using row data by (simp add: mult.commute)
  qed
  have "pixmap_rows fmt top_down stride width height pixel_data rgba
    = for_each [0..<height] (\<lambda>y. for_each [0..<width] (\<lambda>x buf. write_slice buf (4 * (y * width + x)) (at y x))) rgba" for rgba
    unfolding pixmap_rows_def
  proof (rule for_each_cong)
    fix y s assume "y \<in> set [0..<height]"
    then have "read_slice pixel_data (sy y * stride) (width * 4) = Some (take (width * 4) (drop (sy y * stride) pixel_data))"
      using fits by (simp add: read_slice_def)
    moreover have "pixmap_row fmt width (take (width * 4) (drop (sy y * stride) pixel_data)) (y * (width * 4)) s
      = for_each [0..<width] (\<lambda>x buf. write_slice buf (4 * (y * width + x)) (at y x)) s"
      unfolding pixmap_row_def
    proof (rule for_each_cong)
      fix x buf assume "x \<in> set [0..<width]"
      then have "bgr_pixel fmt (take (width * 4) (drop (sy y * stride) pixel_data)) (x * 4) = at y x"
        unfolding at_def using fits [of y] \<open>y \<in> set [0..<height]\<close> by (intro bgr_pixel_slice) auto
      moreover have "y * (width * 4) + x * 4 = 4 * (y * width + x)" by simp
      ultimately show "write_slice buf (y * (width * 4) + x * 4) (bgr_pixel fmt (take (width * 4) (drop (sy y * stride) pixel_data)) (x * 4))
        = write_slice buf (4 * (y * width + x)) (at y x)" by (simp only:)
    qed
    ultimately show "(let src_y = if top_down then y else height - 1 - y in
        case read_slice pixel_data (src_y * stride) (width * 4) of None \<Rightarrow> None
        | Some src_row \<Rightarrow> pixmap_row fmt width src_row (y * (width * 4)) s)
      = for_each [0..<width] (\<lambda>x buf. write_slice buf (4 * (y * width + x)) (at y x)) s"
      by (simp add: Let_def sy_def [symmetric])
  qed
  moreover have "\<exists>s'. for_each [0..<height] (\<lambda>y. for_each [0..<width] (\<lambda>x buf. write_slice buf (4 * (y * width + x)) (at y x)))
        (replicate (width * height * 4) 0) = Some s' \<and> length s' = 4 * (width * height)
    \<and> (\<forall>y\<in>set [0..<height]. \<forall>x\<in>set [0..<width]. y * width + x < width * height \<longrightarrow> pix (y * width + x) s' = at y x)
    \<and> (\<forall>j<width * height. (\<forall>y\<in>set [0..<height]. \<forall>x\<in>set [0..<width]. j \<noteq> y * width + x)
        \<longrightarrow> pix j s' = pix j (replicate (width * height * 4) 0))"
  proof (rule grid_loop [where buf = "\<lambda>b. b" and k = "\<lambda>y x. y * width + x" and G = "\<lambda>y x _. at y x"])
    fix y x and s :: bytes assume "y \<in> set [0..<height]" "x \<in> set [0..<width]" "length s = 4 * (width * height)"
    then have "\<exists>s'. write_slice s (4 * (y * width + x)) (at y x) = Some s'
      \<and> repaints (width * height) (\<lambda>b. b) {y * width + x} (\<lambda>_ _. pix 0 (at y x)) s s'"
      by (intro write_slice_repaints index_lt) (auto simp: at_def bgr_pixel_def)
    moreover have "pix 0 (at y x) = at y x" by (simp add: at_def bgr_pixel_def pix_def)
    ultimately show "\<exists>s'. write_slice s (4 * (y * width + x)) (at y x) = Some s'
      \<and> repaints (width * height) (\<lambda>b. b) {y * width + x} (\<lambda>_ _. at y x) s s'" by (simp only:)
  next
    fix y x y' x' assume "x \<in> set [0..<width]" "x' \<in> set [0..<width]" "y * width + x = y' * width + x'"
    then show "y = y' \<and> x = x'" by (intro index_inj) auto
  qed simp_all
  ultimately show ?thesis using index_lt [of _ width _ height] by (fastforce simp: at_def sy_def)
qed

lemma decode_pixmap_eq:
  assumes "decode (bindP BitmapHeader_read (\<lambda>h. bindP get_remaining (\<lambda>n. bindP (read_bytes n) (\<lambda>d. retP (h, d))))) image_data
      = Inr (header, pixel_data)"
    and "bh_format header = BIT32 \<or> bh_format header = FMT_RGBA"
    and "rgba_len (unat (bh_x header)) (unat (bh_y header)) \<noteq> None"
    and "unat (bh_x header) * 4 \<le> unat (bh_stride header)"
    and "unat (bh_stride header) * unat (bh_y header) \<le> length pixel_data" and "length pixel_data \<le> USIZE_MAX"
  shows "\<exists>rgba. decode_pixmap image_id image_data = Inr (Some \<lparr>di_width = bh_x header, di_height = bh_y header, di_pixels = rgba,
        di_image_id = image_id, di_win_head_dist = 0\<rparr>)
    \<and> length rgba = 4 * (unat (bh_x header) * unat (bh_y header))
    \<and> (\<forall>x<unat (bh_x header). \<forall>y<unat (bh_y header). pix (y * unat (bh_x header) + x) rgba
        = bgr_pixel (bh_format header) pixel_data
            ((if bh_flags header AND TOP_DOWN \<noteq> 0 then y else unat (bh_y header) - 1 - y) * unat (bh_stride header) + x * 4))"
proof -
  let ?w = "unat (bh_x header)" and ?h = "unat (bh_y header)" and ?stride = "unat (bh_stride header)"
  have len: "rgba_len ?w ?h = Some (?w * ?h * 4)" using assms(3) rgba_len_Some by fastforce
  obtain rgba where rgba: "pixmap_rows (bh_format header) (bh_flags header AND TOP_DOWN \<noteq> 0) ?stride ?w ?h pixel_data
      (replicate (?w * ?h * 4) 0) = Some rgba" "length rgba = 4 * (?w * ?h)"
    and px: "\<forall>x<?w. \<forall>y<?h. pix (y * ?w + x) rgba
        = bgr_pixel (bh_format header) pixel_data ((if bh_flags header AND TOP_DOWN \<noteq> 0 then y else ?h - 1 - y) * ?stride + x * 4)"
    using pixmap_rows_spec [OF assms(4,5), of "bh_format header" "bh_flags header AND TOP_DOWN \<noteq> 0"] by blast
  have "?w * 4 \<le> USIZE_MAX" "?stride * ?h \<le> USIZE_MAX"
    using assms(5,6) u32_lt [of "bh_x header"] by (auto simp: USIZE_MAX_def)
  then have "decode_pixmap image_id image_data = Inr (DecompressedImage_new (bh_x header) (bh_y header) rgba image_id)"
    using assms(1,2,4,5) len rgba(1) by (auto simp: decode_pixmap_def Let_def checked_mul_def)
  then show ?thesis using len rgba(2) px by (simp add: DecompressedImage_new_def DecompressedImage_new_glz_def mult.commute)
qed

section \<open>Every decoded image is well formed\<close>

lemma new_image_ok: "DecompressedImage_new w h p i = Some im \<Longrightarrow> image_ok im"
  unfolding DecompressedImage_new_def by (rule DecompressedImage_new_ok)

lemma lz_image_ok: "decompress_lz data = Inr im \<Longrightarrow> image_ok im"
  by (auto simp: decompress_lz_def lz_finish_def Let_def dest: new_image_ok split: if_splits option.splits sum.splits)

lemma lz4_image_ok: "decompress_spice_lz4 lz4 data w h = Inr im \<Longrightarrow> image_ok im"
  by (auto simp: decompress_spice_lz4_def Let_def bindE_eq_Inr dest: new_image_ok split: if_splits option.splits)

lemma lz4_no_panic: "lz4_contract lz4 dec \<Longrightarrow> decompress_spice_lz4 lz4 data w h \<noteq> Inl Lz4Panic"
  using lz4_loop_no_panic [of lz4 dec 0]
  by (auto simp: decompress_spice_lz4_def Let_def bindE_def split: option.splits sum.splits if_splits)

lemma glz_image_ok: "decompress_glz L T env wakes data d = Inr (im, d') \<Longrightarrow> image_ok im"
  by (auto simp: decompress_glz_def glz_finish_def Let_def dest: DecompressedImage_new_ok
      split: if_splits option.splits sum.splits)

lemma glz_self_error: "glz_self sz po len s = Inl e \<Longrightarrow> e = LzPanic"
  by (auto simp: glz_self_def Let_def dest: lz_copy_error split: if_splits)

lemma glz_step_error: "glz_step L T env wakes i data sz s g = Inl e \<Longrightarrow> e = LzPanic"
  by (auto simp: glz_step_def Let_def dest: glz_self_error split: if_splits option.splits sum.splits prod.splits)

lemma glz_loop_error: "glz_loop L T env wakes i data sz s g = Inl e \<Longrightarrow> e = LzPanic"
proof (induction L T env wakes i data sz s g rule: glz_loop.induct)
  case (1 L T env wakes i data sz s g)
  show ?case
  proof (cases "glz_step L T env wakes i data sz s g")
    case (Inl e')
    then show ?thesis using "1.prems" glz_step_error [OF Inl] by (subst (asm) glz_loop.simps) (auto split: if_splits)
  next
    case (Inr r)
    obtain b s' g' where r: "r = (b, s', g')" by (cases r)
    show ?thesis
      using "1.prems" "1.IH" [OF _ Inr r [symmetric] _ refl] Inr r by (subst (asm) glz_loop.simps) (auto split: if_splits bool.splits)
  qed
qed

lemma glz_finish_total:
  assumes "rgba_len (unat w) (unat h) = Some sz" and "length out = sz"
  shows "\<exists>im. glz_finish w h td i d out = Inr im"
  using assms lz_finish_ok [OF assms, of td]
  by (auto simp: glz_finish_def lz_finish_def DecompressedImage_new_def DecompressedImage_new_glz_def Let_def split: if_splits option.splits)

text \<open>A GLZ decode that fails, and does not panic, fails for every state of the dictionary: it has not looked.\<close>

lemma glz_fails_early:
  assumes "decompress_glz L T env wakes data d = Inl e" and "e \<noteq> LzPanic"
  shows "decompress_glz L T env' wakes' data d' = Inl e"
proof -
  have loop: "glz_finish w h td i wd (lz_out s') \<noteq> Inl e'"
    if "rgba_len (unat w) (unat h) = Some sz"
      "glz_loop L T env wakes i data sz \<lparr>lz_out = replicate sz 0, lz_idx = 0, lz_off = 33\<rparr> g = Inr (s', g')" for w h sz i wd s' g g' td e'
    using glz_finish_total [OF that(1), of "lz_out s'" td i wd] length_glz_loop [OF that(2)] by auto
  show ?thesis
    using assms loop unfolding decompress_glz_def Let_def
    by (auto split: if_splits option.splits sum.splits prod.splits dest: glz_loop_error)
qed

lemma inflated_image: "decode_zlib_glz cd img_desc image_data st = r \<Longrightarrow>
    r = Inr (None, st) \<or> (\<exists>glz_data. r = decode_glz cd glz_data st)"
  by (auto simp: decode_zlib_glz_def read_u32_le_def Let_def split: if_splits sum.splits)

definition typed_result :: "bool \<Rightarrow> draw_error + (decompressed_image option \<times> 's) \<Rightarrow> bool" where
  "typed_result may_panic r =
     (case r of Inl e \<Rightarrow> e = DrawPanic \<and> may_panic | Inr (None, _) \<Rightarrow> True | Inr (Some img, _) \<Rightarrow> image_ok img)"

lemma typed_simps [simp]:
  "typed_result b (Inr (None, st))" "typed_result b (Inr (Some img, st)) \<longleftrightarrow> image_ok img"
  "typed_result b (Inl e) \<longleftrightarrow> e = DrawPanic \<and> b"
  by (simp_all add: typed_result_def)

lemma typed_opt: "(\<And>img. r = Some img \<Longrightarrow> image_ok img) \<Longrightarrow> typed_result b (Inr (r, st))"
  by (cases r) simp_all

lemma typed_glz: "typed_result True (decode_glz cd data st)"
  by (auto simp: decode_glz_def split: sum.splits lz_error.splits dest: glz_image_ok)

lemma typed_zlib_glz: "typed_result True (decode_zlib_glz cd img_desc data st)"
  using inflated_image [OF refl, of cd img_desc data st] typed_glz by (metis typed_simps(1))

lemma typed_lz: "typed_result True (stateless st (decode_lz data))"
  by (auto simp: stateless_def decode_lz_def split: sum.splits lz_error.splits dest: lz_image_ok)

lemma typed_lz4: "lz4_contract (cd_lz4 cd) dec \<Longrightarrow> typed_result b (stateless st (decode_lz4 cd img_desc data))"
  by (auto simp: stateless_def decode_lz4_def lz4_no_panic split: sum.splits lz4_error.splits dest: lz4_image_ok)

lemma typed_quic: "typed_result b (stateless st (decode_quic img_desc data))"
proof (cases "length data < 4")
  case False
  define q where "q = take (min (unat (le_word [data ! 0, data ! 1, data ! 2, data ! 3] :: u32)) (length data - 4)) (drop 4 data)"
  have "decode_quic img_desc data = (case quic_decode q (idsc_width img_desc) (idsc_height img_desc) of
      Inl QuicFailed \<Rightarrow> Inr None | Inl QuicPanic \<Rightarrow> Inl DrawPanic | Inl QuicDiverges \<Rightarrow> Inl DrawDiverges
    | Inr rgba \<Rightarrow> Inr (DecompressedImage_new (idsc_width img_desc) (idsc_height img_desc) rgba (idsc_image_id img_desc)))"
    using False by (simp add: decode_quic_def read_u32_le_def Let_def q_def numeral_2_eq_2)
  then show ?thesis
    using safe_quic_decode [of q "idsc_width img_desc" "idsc_height img_desc"]
    by (auto simp: safe_def stateless_def intro!: typed_opt dest: new_image_ok split: sum.splits)
qed (simp add: stateless_def decode_quic_def)

lemma typed_pixmap: "typed_result b (stateless st (decode_pixmap i data))"
proof (cases "decode (bindP BitmapHeader_read (\<lambda>h. bindP get_remaining (\<lambda>n. bindP (read_bytes n) (\<lambda>d. retP (h, d))))) data")
  case (Inr hd)
  obtain h px where hd: "hd = (h, px)" by (cases hd)
  let ?w = "unat (bh_x h)" and ?h = "unat (bh_y h)" and ?s = "unat (bh_stride h)"
  have total: "\<exists>rgba. pixmap_rows fmt td ?s ?w ?h px (replicate n 0) = Some rgba"
    if "rgba_len ?w ?h = Some n" "\<not> length px < ?s * ?h" "?w * 4 \<le> ?s" for n fmt td
    using pixmap_rows_spec [of ?w ?s ?h px fmt td] that by (auto simp: rgba_len_Some)
  show ?thesis
  proof (cases "rgba_len ?w ?h")
    case (Some n)
    show ?thesis
    proof (cases "\<not> length px < ?s * ?h \<and> ?w * 4 \<le> ?s")
      case True
      then obtain rgba where "pixmap_rows (bh_format h) (bh_flags h AND TOP_DOWN \<noteq> 0) ?s ?w ?h px (replicate n 0) = Some rgba"
        using total [OF Some] by blast
      then show ?thesis
        using Inr Some unfolding hd
        by (auto simp: stateless_def decode_pixmap_def Let_def checked_mul_def intro!: typed_opt dest: new_image_ok)
    qed (use Inr Some hd in \<open>auto simp: stateless_def decode_pixmap_def Let_def checked_mul_def\<close>)
  qed (use Inr hd in \<open>auto simp: stateless_def decode_pixmap_def Let_def\<close>)
qed (simp add: stateless_def decode_pixmap_def)

lemma typed_from_cache: "typed_result b (Inr (decode_from_cache cd img_desc st))"
  by (auto simp: decode_from_cache_def intro!: typed_opt dest: new_image_ok split: option.splits prod.splits if_splits)

text \<open>A JPEG image whose backend calls a library that panics, and does not catch it.\<close>

definition jpeg_panics :: "('c, 't) codecs \<Rightarrow> image_descriptor \<Rightarrow> bool" where
  "jpeg_panics cd img_desc \<longleftrightarrow> ImageType_from_u8 (idsc_image_type img_desc) = Some Jpeg
     \<and> cd_jpeg_backend cd \<notin> {MozJpeg, Vaapi} \<and> library_panics (cd_jpeg_libs cd) (cd_jpeg_backend cd)"

lemma typed_jpeg:
  assumes "ImageType_from_u8 (idsc_image_type img_desc) = Some Jpeg"
  shows "typed_result (jpeg_panics cd img_desc) (stateless st (decode_jpeg cd img_desc data))"
  using assms jpeg_decode_panics [of "cd_jpeg_libs cd" "cd_jpeg_backend cd"]
  by (auto simp: stateless_def decode_jpeg_def jpeg_panics_def intro!: typed_opt dest: new_image_ok split: ext.splits sum.splits)

definition lz_family :: "image_descriptor \<Rightarrow> bool" where
  "lz_family img_desc = (ImageType_from_u8 (idsc_image_type img_desc) \<in> {Some LzRgb, Some GlzRgb, Some ZlibGlzRgb})"

lemma decode_image_result:
  assumes "lz4_contract (cd_lz4 cd) dec"
  shows "typed_result (lz_family img_desc \<or> jpeg_panics cd img_desc) (decode_image cd img_desc image_data st)"
proof (cases "ImageType_from_u8 (idsc_image_type img_desc) = Some Jpeg")
  case True
  with typed_jpeg [OF True, of cd st image_data] show ?thesis by (simp add: decode_image_def lz_family_def)
next
  case False
  then show ?thesis unfolding decode_image_def lz_family_def
    by (cases "ImageType_from_u8 (idsc_image_type img_desc)")
      (auto simp: typed_glz typed_zlib_glz typed_lz typed_lz4 [OF assms] typed_quic typed_pixmap typed_from_cache
        split: image_type.split)
qed

section \<open>Every decoded image is emitted\<close>

lemma part_event_total:
  assumes "length p = 4 * (unat w * unat h)" and "part_of dl dt w h c"
  shows "\<exists>e. image_event_at composite key dl dt w p i c = Some e"
proof -
  obtain il it ir ib where c: "c = (il, it, ir, ib)" by (metis prod_cases4)
  have le: "unat dl \<le> unat il" "unat il < unat ir" "unat dt \<le> unat it" "unat it < unat ib"
    using assms(2) by (simp_all add: c part_of_def word_le_nat_alt word_less_nat_alt)
  then have u: "unat (il - dl) = unat il - unat dl" "unat (it - dt) = unat it - unat dt"
      "unat (ir - il) = unat ir - unat il" "unat (ib - it) = unat ib - unat it" by (simp_all add: unat_sub_if')
  have "unat (il - dl) + unat (ir - il) \<le> unat w" "unat (it - dt) + unat (ib - it) \<le> unat h"
    using le assms(2) unfolding u by (simp_all add: c part_of_def)
  from sub_image_spec [OF assms(1) this] show ?thesis by (auto simp: c image_event_at_def Let_def)
qed

lemma emit_parts_total: "(\<And>c. c \<in> set cs \<Longrightarrow> \<exists>e. ev c = Some e) \<Longrightarrow> \<exists>es. emit_parts ev cs = Some es"
proof (induction cs)
  case (Cons c cs)
  from Cons.prems [of c] obtain e where "ev c = Some e" by auto
  moreover from Cons obtain es where "emit_parts ev cs = Some es" by auto
  ultimately show ?case by simp
qed simp

lemma emit_image_total:
  assumes "image_ok img"
  shows "\<exists>es. emit_image composite ch base src_area img i = Some es"
proof -
  have len: "length (di_pixels img) = 4 * (unat (di_width img) * unat (di_height img))"
    using assms by (simp add: image_ok_def rgba_len_Some)
  from crop_image_spec [OF len, of "ltrb src_area"] obtain w h p where
    p: "crop_image (ltrb src_area) (di_width img, di_height img, di_pixels img) = Some (w, h, p)"
      "length p = 4 * (unat w * unat h)" by auto
  let ?dest = "image_dest base w h"
  have "\<exists>es. emit_parts (image_event_at composite (ch, db_surface_id base) (rc_left (db_bbox base)) (rc_top (db_bbox base)) w p i) clip
      = Some es" if "event_clip base ?dest = Some clip" for clip
    using part_event_total [OF p(2)] event_clip_parts(1) [OF that] by (intro emit_parts_total) blast
  then show ?thesis
    unfolding emit_image_def p(1) by (auto simp: image_dest_def ltrb_def Let_def split: option.splits)
qed

definition cache_ok :: "('c, 't) codecs \<Rightarrow> ('c, 't) display_images \<Rightarrow> bool" where
  "cache_ok cd st \<longleftrightarrow> lru_inv (cd_lru cd) (ic_inner (dc_image_cache st)) \<and> bl_max_entries (ic_inner (dc_image_cache st)) < 2 ^ 32 - 1"

lemma ic_insert_ok:
  assumes L: "lru_laws None L" and inv: "lru_inv L (ic_inner ic)" "bl_max_entries (ic_inner ic) < 2 ^ 32 - 1"
  shows "\<exists>out ic'. ic_insert L ic key v = Some (out, ic') \<and> lru_inv L (ic_inner ic')
    \<and> bl_cap_bytes (ic_inner ic') = bl_cap_bytes (ic_inner ic)
    \<and> bl_max_entries (ic_inner ic') = bl_max_entries (ic_inner ic)
    \<and> (length v \<le> bl_cap_bytes (ic_inner ic) \<longrightarrow> map_of (entries L (ic_inner ic')) key = Some v)"
proof (cases "length v \<le> bl_cap_bytes (ic_inner ic)")
  case True
  define xs where "xs = (key, v) # without key (entries L (ic_inner ic))"
  define m where "m = kept (bl_cap_bytes (ic_inner ic)) (bl_max_entries (ic_inner ic)) xs (length xs)"
  from insert_spec [OF L inv True, of key] obtain out ks b' where
    b': "insert_recording_evicted L (ic_inner ic) key v = Some (out, ks, b')" "entries L b' = take m xs" "lru_inv L b'" "1 \<le> m"
      "bl_cap_bytes b' = bl_cap_bytes (ic_inner ic)" "bl_max_entries b' = bl_max_entries (ic_inner ic)"
    unfolding xs_def [symmetric] m_def [symmetric] by blast
  have "map_of (entries L b') key = Some v" using b'(2,4) by (cases m) (simp_all add: xs_def)
  then show ?thesis using b' by (simp add: ic_insert_def)
next
  case False
  then have "insert_recording_evicted L (ic_inner ic) key v = Some (Refused EntryLargerThanCap, [], ic_inner ic)"
    by (simp add: insert_recording_evicted_def)
  then show ?thesis using False inv by (simp add: ic_insert_def)
qed

lemma ic_get_ok:
  assumes "lru_laws None L" and "lru_inv L (ic_inner ic)"
  shows "fst (ic_get L ic key) = map_of (entries L (ic_inner ic)) key \<and> lru_inv L (ic_inner (snd (ic_get L ic key)))
    \<and> bl_max_entries (ic_inner (snd (ic_get L ic key))) = bl_max_entries (ic_inner ic)"
  using get_spec [OF assms, of key] by (auto simp: ic_get_def split: prod.split)

lemma decode_image_cache:
  assumes "lru_laws None (cd_lru cd)" and "cache_ok cd st" and "decode_image cd img_desc image_data st = Inr (r, st')"
  shows "cache_ok cd st' \<and> dc_channel_id st' = dc_channel_id st"
  using assms ic_get_ok [OF assms(1), of "dc_image_cache st" "idsc_image_id img_desc"]
  unfolding decode_image_def
  by (auto simp: cache_ok_def stateless_def decode_from_cache_def decode_glz_def decode_zlib_glz_def Let_def
      split: option.splits image_type.splits if_splits sum.splits prod.splits lz_error.splits)

lemma keep_image_cache:
  assumes "lru_laws None (cd_lru cd)" and "cache_ok cd st" and "\<not> is_glz img_desc"
  shows "\<exists>st'. keep_image cd img_desc img st = Inr st' \<and> cache_ok cd st' \<and> dc_channel_id st' = dc_channel_id st"
  using assms ic_insert_ok [OF assms(1), of "dc_image_cache st" "idsc_image_id img_desc" "di_pixels img"]
  by (auto simp: keep_image_def cache_ok_def)

lemma not_glz: "\<not> lz_family img_desc \<Longrightarrow> \<not> is_glz img_desc"
  by (auto simp: lz_family_def is_glz_def)

lemma image_draw_total:
  assumes "lz4_contract (cd_lz4 cd) dec" and L: "lru_laws None (cd_lru cd)" and ok: "cache_ok cd st" and lz: "\<not> lz_family img_desc"
    and jpeg: "\<not> jpeg_panics cd img_desc"
  shows "\<exists>es st'. decode_image_and_emit cd base img_desc image_data src_area composite st = Inr (es, st') \<and> cache_ok cd st'
    \<and> dc_channel_id st' = dc_channel_id st"
proof -
  note typed = decode_image_result [OF assms(1), of img_desc image_data st]
  from typed lz jpeg obtain r st1 where r: "decode_image cd img_desc image_data st = Inr (r, st1)"
    by (auto simp: typed_result_def split: sum.splits)
  note ok1 = decode_image_cache [OF L ok r]
  show ?thesis
  proof (cases r)
    case (Some img)
    then have "image_ok img" using typed r by simp
    from keep_image_cache [OF L conjunct1 [OF ok1] not_glz [OF lz], of img]
    obtain st2 where "keep_image cd img_desc img st1 = Inr st2" "cache_ok cd st2" "dc_channel_id st2 = dc_channel_id st1" by blast
    moreover obtain es where "emit_image composite (dc_channel_id st2) base src_area img (idsc_image_id img_desc) = Some es"
      using emit_image_total [OF \<open>image_ok img\<close>] by blast
    ultimately show ?thesis
      using r Some ok1 not_glz [OF lz] by (simp add: decode_image_and_emit_def bindE_simps)
  qed (use r ok1 in \<open>simp add: decode_image_and_emit_def bindE_simps\<close>)
qed

section \<open>A draw's message\<close>

text \<open>The handler of DRAW_COPY finds the image that the builder of the message put in it, whatever its encoding.\<close>

lemma draw_copy_image:
  assumes ok: "DrawCopy_ok v" and im: "dcp_src_bitmap v = Some im"
  shows "handle_draw_copy cd (DrawCopy_write v) st
    = decode_image_and_emit cd (dcp_base v) (si_descriptor im) (drop 18 (SpiceImage_write im)) (dcp_src_area v) Overwrite st"
proof -
  define base msk where "base = DrawBase_write (dcp_base v)" and "msk = q_bitmap (dcp_mask v)"
  define f where "f = length base + 36"
  define so mo where "so = image_offset f (Some im)" and "mo = image_offset (f + length (SpiceImage_write im)) msk"
  define cp where "cp = copy_part v so mo"
  define pre where "pre = base @ SpiceCopy_write cp"
  have f: "length pre = f" by (simp add: pre_def f_def spice_copy.length_wr)
  have w: "DrawCopy_write v = pre @ SpiceImage_write im @ image_bytes msk"
    using DrawCopy_write_eq [of v] im by (simp add: pre_def cp_def so_def mo_def f_def base_def msk_def image_bytes_def)
  have clip: "Clip_ok (db_clip (dcp_base v))" and len: "f + length (SpiceImage_write im) + length (image_bytes msk) < 2 ^ 32"
    using ok f by (simp_all add: DrawCopy_ok_def w)
  have u: "unat (word_of_nat n :: u32) = n" if "n \<le> f + length (SpiceImage_write im)" for n using that len by (simp add: unat_of_nat)
  have so: "unat so = length pre" "so \<noteq> 0" using u [of f] f by (auto simp: so_def image_offset_def f_def)
  have mo: "msk = None \<Longrightarrow> mo = 0" "msk \<noteq> None \<Longrightarrow> unat mo = length pre + length (SpiceImage_write im)"
    using u [OF order_refl] f by (auto simp: mo_def image_offset_def simp del: of_nat_add)
  have "pointee (pre @ SpiceImage_write im @ image_bytes msk) f so [so, mo] = Inr (Some (reader_new (SpiceImage_write im)))"
    by (rule pointee_exact [OF so]) (use f so mo len in \<open>cases msk; auto simp: image_bytes_def USIZE_MAX_def\<close>)+
  then have src: "src_bitmap_reader cp (DrawCopy_write v) f = Inr (Some (at [] (SpiceImage_write im)))"
    by (simp add: src_bitmap_reader_def w copy_pointers_def cp_def copy_part_def reader_new_at)
  have rd: "DrawBase_read (reader_new (DrawCopy_write v)) = Inr (dcp_base v, at base (SpiceCopy_write cp @ SpiceImage_write im @ image_bytes msk))"
    "SpiceCopy_read (at base (SpiceCopy_write cp @ SpiceImage_write im @ image_bytes msk)) = Inr (cp, at pre (SpiceImage_write im @ image_bytes msk))"
    using draw_base.roundtrip [OF clip, of "[]" "SpiceCopy_write cp @ SpiceImage_write im @ image_bytes msk"]
    by (simp_all add: w reader_new_at pre_def base_def SpiceCopy_iff)
  have "handle_draw_copy cd (DrawCopy_write v) st = decode_copy_image_and_emit cd (DrawCopy_write v) (dcp_base v) cp f st"
  proof -
    have "\<not> length (DrawCopy_write v) < 21" by (simp add: w f f_def)
    moreover have "position (at pre (SpiceImage_write im @ image_bytes msk)) = f" using f by (simp add: position_def)
    ultimately show ?thesis by (simp add: handle_draw_copy_def rd)
  qed
  moreover have "cp_src_area cp = dcp_src_area v" by (simp add: cp_def copy_part_def)
  moreover obtain data where "SpiceImage_write im = ImageDescriptor_write (si_descriptor im) @ data"
    by (simp add: SpiceImage_write_def)
  ultimately show ?thesis
    using src by (simp add: decode_copy_image_and_emit_def read_bytes_at image_descriptor.length_wr)
qed

lemma crop_area_fits:
  assumes "crop_area src w h = (a, c, n, k)" shows "a + n \<le> unat w" "c + k \<le> unat h"
  using assms by (auto simp: crop_area_def Let_def split: prod.splits if_splits)

lemma image_dest_offset:
  "(x, y) \<in> nat_box (image_dest base w h) \<Longrightarrow> x - unat (rc_left (db_bbox base)) < unat w \<and> y - unat (rc_top (db_bbox base)) < unat h"
  using saturating_add32_le [of "rc_left (db_bbox base)" w] saturating_add32_le [of "rc_top (db_bbox base)" h]
  by (auto simp: nat_box_def image_dest_def)

lemma drawn_box_cong:
  "drawn_box base dest val s s' \<Longrightarrow> (\<And>x y. (x, y) \<in> nat_box dest \<Longrightarrow> val x y = val' x y) \<Longrightarrow> drawn_box base dest val' s s'"
  by (simp add: drawn_box_def)

text \<open>The row of a bitmap's data that holds row \<open>y\<close> of the image.\<close>

definition bitmap_row :: "bitmap_header \<Rightarrow> nat \<Rightarrow> nat" where
  "bitmap_row h y = (if bh_flags h AND TOP_DOWN \<noteq> 0 then y else unat (bh_y h) - 1 - y)"

text \<open>A bitmap the client can show: 32 bits per pixel, of a size it accepts, with rows that hold the width.\<close>

definition bitmap_shown :: "bitmap_payload \<Rightarrow> bool" where
  "bitmap_shown b \<longleftrightarrow> bh_format (bm_header b) \<in> {BIT32, FMT_RGBA}
     \<and> rgba_len (unat (bh_x (bm_header b))) (unat (bh_y (bm_header b))) \<noteq> None
     \<and> unat (bh_x (bm_header b)) * 4 \<le> unat (bh_stride (bm_header b))"

lemma decode_shown_bitmap:
  assumes im: "SpiceImage_ok im" "si_payload im = IBitmap b" and b: "bitmap_shown b"
  shows "\<exists>img. decode_image cd (si_descriptor im) (drop 18 (SpiceImage_write im)) st = Inr (Some img, st)
    \<and> di_width img = bh_x (bm_header b) \<and> di_height img = bh_y (bm_header b) \<and> image_ok img
    \<and> (\<forall>x<unat (di_width img). \<forall>y<unat (di_height img). pix (y * unat (di_width img) + x) (di_pixels img)
        = bgr_pixel (bh_format (bm_header b)) (bm_data b) (bitmap_row (bm_header b) y * unat (bh_stride (bm_header b)) + x * 4))"
proof -
  let ?h = "bm_header b"
  have ok: "BitmapHeader_ok ?h" "length (bm_data b) = unat (bh_stride ?h) * unat (bh_y ?h)" "length (bm_data b) \<le> USIZE_MAX"
    and t: "ImageType_from_u8 (idsc_image_type (si_descriptor im)) = Some Pixmap"
    using im by (auto simp: SpiceImage_ok_def BitmapPayload_ok_def BitmapHeader_data_len_def matches_type_def Let_def
        split: option.splits image_type.splits if_splits)
  have data: "drop 18 (SpiceImage_write im) = BitmapHeader_write ?h @ bm_data b"
    using im by (simp add: SpiceImage_write_def BitmapPayload_write_def image_descriptor.length_wr)
  have "decode (bindP BitmapHeader_read (\<lambda>h. bindP get_remaining (\<lambda>n. bindP (read_bytes n) (\<lambda>d. retP (h, d)))))
      (BitmapHeader_write ?h @ bm_data b) = Inr (?h, bm_data b)"
    using BitmapHeader_forward [OF ok(1), of "[]" "bm_data b"] by (simp add: decode_def reader_new_at read_bytes_at)
  from decode_pixmap_eq [OF this, of "idsc_image_id (si_descriptor im)"] b ok(2,3) obtain rgba where
    rgba: "decode_pixmap (idsc_image_id (si_descriptor im)) (BitmapHeader_write ?h @ bm_data b)
        = Inr (Some \<lparr>di_width = bh_x ?h, di_height = bh_y ?h, di_pixels = rgba, di_image_id = idsc_image_id (si_descriptor im), di_win_head_dist = 0\<rparr>)"
      "length rgba = 4 * (unat (bh_x ?h) * unat (bh_y ?h))"
      "\<forall>x<unat (bh_x ?h). \<forall>y<unat (bh_y ?h). pix (y * unat (bh_x ?h) + x) rgba
        = bgr_pixel (bh_format ?h) (bm_data b) (bitmap_row ?h y * unat (bh_stride ?h) + x * 4)"
    unfolding bitmap_shown_def bitmap_row_def by auto
  have "rgba_len (unat (bh_x ?h)) (unat (bh_y ?h)) = Some (length rgba)"
    using b rgba(2) rgba_len_Some by (fastforce simp: bitmap_shown_def)
  then show ?thesis
    using rgba t by (simp add: decode_image_def data stateless_def image_ok_def)
qed

lemma decoded_image_drawn:
  assumes dec: "decode_image cd img_desc image_data st = Inr (Some img, st1)" "image_ok img" "\<not> is_glz img_desc"
    and cache: "lru_laws None (cd_lru cd)" "cache_ok cd st"
    and surf: "surf_ok s" "m (dc_channel_id st, db_surface_id base) = Some s"
    and crop: "crop_area (ltrb src_area) (di_width img) (di_height img) = (a, c, unat w, unat h)"
    and fit: "\<And>n. clip_area (db_clip base) (image_dest base w h) \<noteq> TooComplex n"
  shows "\<exists>es st' s'. decode_image_and_emit cd base img_desc image_data src_area Overwrite st = Inr (es, st') \<and> cache_ok cd st'
    \<and> apply_events m es = Some (m((dc_channel_id st, db_surface_id base) \<mapsto> s'))
    \<and> drawn_box base (image_dest base w h)
        (\<lambda>x y. pix ((c + (y - unat (rc_top (db_bbox base)))) * unat (di_width img)
                 + (a + (x - unat (rc_left (db_bbox base))))) (di_pixels img)) s s'"
proof -
  note ok1 = decode_image_cache [OF cache dec(1)]
  from keep_image_cache [OF cache(1) conjunct1 [OF ok1] dec(3), of img]
  obtain st2 where st2: "keep_image cd img_desc img st1 = Inr st2" "cache_ok cd st2" "dc_channel_id st2 = dc_channel_id st"
    using ok1 by auto
  have len: "length (di_pixels img) = 4 * (unat (di_width img) * unat (di_height img))"
    using dec(2) by (simp add: image_ok_def rgba_len_Some)
  from emit_image_drawn [of s m "dc_channel_id st" base, OF surf len crop fit, of "idsc_image_id img_desc"]
  show ?thesis using dec(1,3) st2 by (auto simp: decode_image_and_emit_def bindE_simps)
qed

section \<open>Properties\<close>

text \<open>C22: Whatever the bytes of an image and whatever its encoding, decoding it gives no image, or an image whose pixel
  buffer has exactly four bytes for each of its width times height pixels, both within the client's limits. Decoding can
  panic only in the LZ family's decoders, or when a JPEG image is decoded by the pure-Rust, ImageIO or WIC backend and
  one of the calls into that backend's library panics; a panic inside mozjpeg is caught, so the backends of a Linux build
  with the \<open>mozjpeg\<close> feature never end the client, and a bitmap, QUIC, LZ4 or cached image never does. No decoder's own
  loop runs forever. The LZ4 block decoder is assumed to write only the space it is given, and calls into the JPEG
  libraries and zlib to come back.\<close>

theorem decode_image_typed:
  assumes "lz4_contract (cd_lz4 cd) dec"
  shows "case decode_image cd img_desc image_data st of
      Inl e \<Rightarrow> e = DrawPanic
        \<and> (ImageType_from_u8 (idsc_image_type img_desc) \<in> {Some LzRgb, Some GlzRgb, Some ZlibGlzRgb}
          \<or> ImageType_from_u8 (idsc_image_type img_desc) = Some Jpeg
            \<and> cd_jpeg_backend cd \<in> {JpegDecoderRs, ImageIo, Wic} \<and> library_panics (cd_jpeg_libs cd) (cd_jpeg_backend cd))
    | Inr (None, _) \<Rightarrow> True
    | Inr (Some img, _) \<Rightarrow> rgba_len (unat (di_width img)) (unat (di_height img)) = Some (length (di_pixels img))"
proof -
  have "cd_jpeg_backend cd \<in> {JpegDecoderRs, ImageIo, Wic} \<longleftrightarrow> cd_jpeg_backend cd \<notin> {MozJpeg, Vaapi}"
    by (cases "cd_jpeg_backend cd") simp_all
  then show ?thesis
    using decode_image_result [OF assms, of img_desc image_data st]
    by (auto simp: typed_result_def lz_family_def jpeg_panics_def image_ok_def split: sum.splits option.splits)
qed

text \<open>Libraries that decode one frame of one grey pixel, and a mozjpeg that panics.\<close>

definition demo_jpeg_libs :: jpeg_libs where
  "demo_jpeg_libs =
     \<lparr>rs_read_info = (\<lambda>_ _. Returns ()), rs_info = (\<lambda>_ _. Returns (1, 1, L8)), rs_decode = (\<lambda>_ _. Returns [77]),
      moz_new_mem = (\<lambda>_. Panics), moz_rgba = (\<lambda>_. Panics), moz_read_scanlines = (\<lambda>_. Panics), moz_finish = (\<lambda>_. Panics),
      io_with_data = (\<lambda>_. Fails), io_image_at_index = (\<lambda>_. Fails), io_device_rgb = Fails, io_bitmap_context = (\<lambda>_ _ _. Fails),
      io_draw_image = (\<lambda>_. Fails), wic_factory = Fails, wic_create_stream = Fails, wic_initialize_from_memory = (\<lambda>_. Fails),
      wic_create_decoder = (\<lambda>_. Fails), wic_get_frame = (\<lambda>_. Fails), wic_get_size = (\<lambda>_. Fails), wic_create_converter = Fails,
      wic_cast = (\<lambda>_. Fails), wic_initialize = (\<lambda>_. Fails), wic_copy_pixels = (\<lambda>_ _. Fails)\<rparr>"

definition demo_codecs :: "((u64 \<times> bytes) list, (u64 \<times> unit) list) codecs" where
  "demo_codecs = \<lparr>cd_lru = list_lru None, cd_tombstones = list_lru (Some 4), cd_env = (\<lambda>_ d. d), cd_wakes = (\<lambda>_. 0),
     cd_others = (\<lambda>_ d. d), cd_lz4 = literal_lz4, cd_zlib = (\<lambda>_. ([], True)), cd_jpeg_libs = demo_jpeg_libs,
     cd_jpeg_backend = best_for_platform Linux True False\<rparr>"

definition demo_images :: "((u64 \<times> bytes) list, (u64 \<times> unit) list) display_images" where
  "demo_images =
     (let empty_cache = \<lparr>bl_inner = [], bl_bytes = 0, bl_cap_bytes = 4096, bl_max_entries = 42,
            bl_evictions_total = 0, bl_evicted_bytes_total = 0\<rparr> in
      \<lparr>dc_channel_id = 7,
       dc_glz_dictionary = \<lparr>gd_images = empty_cache, gd_evicted_ids = [], gd_first_eviction_logged = False\<rparr>,
       dc_image_cache = \<lparr>ic_inner = empty_cache, ic_first_eviction_logged = False\<rparr>\<rparr>)"

lemma demo_images_ok: "lru_laws None (cd_lru demo_codecs)" "cache_ok demo_codecs demo_images" "lz4_contract (cd_lz4 demo_codecs) literal_block"
  by (simp_all add: demo_codecs_def list_lru_laws literal_lz4_contract,
      simp add: cache_ok_def demo_images_def demo_codecs_def lru_inv_def fits_def list_lru_def Let_def)

text \<open>A JPEG image on which mozjpeg panics.\<close>

theorem decode_image_typed_witness:
  "lz4_contract (cd_lz4 demo_codecs) literal_block \<and> library_panics (cd_jpeg_libs demo_codecs) (cd_jpeg_backend demo_codecs)
   \<and> (\<exists>r. decode_image demo_codecs \<lparr>idsc_image_id = 1, idsc_image_type = 105, idsc_flags = 0, idsc_width = 1, idsc_height = 1\<rparr>
        [2, 0, 0, 0, 0xFF, 0xD8] demo_images = Inr r)"
proof -
  let ?d = "\<lparr>idsc_image_id = 1, idsc_image_type = 105, idsc_flags = 0, idsc_width = 1, idsc_height = 1\<rparr>"
  have "ImageType_from_u8 (idsc_image_type ?d) = Some Jpeg" by (simp add: ImageType_from_u8_def)
  moreover have "cd_jpeg_backend demo_codecs = MozJpeg" "library_panics (cd_jpeg_libs demo_codecs) MozJpeg"
    by (simp_all add: demo_codecs_def best_for_platform_def library_panics_def demo_jpeg_libs_def)
  ultimately show ?thesis
    using decode_image_typed [OF demo_images_ok(3), of ?d "[2, 0, 0, 0, 0xFF, 0xD8]" demo_images] demo_images_ok(3)
    by (auto split: sum.splits)
qed

text \<open>C21: A DRAW_COPY whose message carries a 32-bit bitmap paints exactly that bitmap. From the bytes of the message, the
  handler finds the image behind the fixed part, reads its header, converts each pixel from the server's blue-green-red
  order, turns a bottom-up bitmap over, skips the padding of the rows, crops to the source rectangle and emits events; applied
  to the surface, they give each pixel of the destination that the clip allows the bitmap's pixel at the same place, and leave
  every other pixel as it was. No step panics and the image cache stays well formed. Only a clip beyond the rectangle
  limit, for which nothing is emitted, is excepted.\<close>

theorem draw_copy_bitmap_exact:
  assumes "DrawCopy_ok v" and "dcp_src_bitmap v = Some im" and "si_payload im = IBitmap b" and "bitmap_shown b"
    and "lru_laws None (cd_lru cd)" and "cache_ok cd st"
    and "surf_ok s" and "m (dc_channel_id st, db_surface_id (dcp_base v)) = Some s"
    and crop: "crop_area (ltrb (dcp_src_area v)) (bh_x (bm_header b)) (bh_y (bm_header b)) = (a, c, unat w, unat h)"
    and "\<And>n. clip_area (db_clip (dcp_base v)) (image_dest (dcp_base v) w h) \<noteq> TooComplex n"
  shows "\<exists>es st' s'. handle_draw_copy cd (DrawCopy_write v) st = Inr (es, st') \<and> cache_ok cd st'
    \<and> apply_events m es = Some (m((dc_channel_id st, db_surface_id (dcp_base v)) \<mapsto> s'))
    \<and> drawn_box (dcp_base v) (image_dest (dcp_base v) w h)
        (\<lambda>x y. bgr_pixel (bh_format (bm_header b)) (bm_data b)
           (bitmap_row (bm_header b) (c + (y - unat (rc_top (db_bbox (dcp_base v))))) * unat (bh_stride (bm_header b))
             + (a + (x - unat (rc_left (db_bbox (dcp_base v))))) * 4)) s s'"
proof -
  have im: "SpiceImage_ok im" using assms(1,2) by (simp add: DrawCopy_ok_def copy_image_ok_def)
  have glz: "\<not> is_glz (si_descriptor im)"
    using im assms(3) by (auto simp: is_glz_def SpiceImage_ok_def matches_type_def)
  from decode_shown_bitmap [OF im assms(3,4)] obtain img where
    img: "decode_image cd (si_descriptor im) (drop 18 (SpiceImage_write im)) st = Inr (Some img, st)"
      "di_width img = bh_x (bm_header b)" "di_height img = bh_y (bm_header b)" "image_ok img"
    and px: "\<forall>x<unat (di_width img). \<forall>y<unat (di_height img). pix (y * unat (di_width img) + x) (di_pixels img)
        = bgr_pixel (bh_format (bm_header b)) (bm_data b) (bitmap_row (bm_header b) y * unat (bh_stride (bm_header b)) + x * 4)"
    by blast
  note cr = crop [folded img(2,3)]
  from decoded_image_drawn [of cd "si_descriptor im" _ st img st s m "dcp_base v", OF img(1,4) glz assms(5-8) cr assms(10)]
  obtain es st' s' where es: "decode_image_and_emit cd (dcp_base v) (si_descriptor im) (drop 18 (SpiceImage_write im)) (dcp_src_area v) Overwrite st = Inr (es, st')"
      "cache_ok cd st'" "apply_events m es = Some (m((dc_channel_id st, db_surface_id (dcp_base v)) \<mapsto> s'))"
    and drawn: "drawn_box (dcp_base v) (image_dest (dcp_base v) w h)
        (\<lambda>x y. pix ((c + (y - unat (rc_top (db_bbox (dcp_base v))))) * unat (di_width img)
                 + (a + (x - unat (rc_left (db_bbox (dcp_base v)))))) (di_pixels img)) s s'" by blast
  have "drawn_box (dcp_base v) (image_dest (dcp_base v) w h)
        (\<lambda>x y. bgr_pixel (bh_format (bm_header b)) (bm_data b)
           (bitmap_row (bm_header b) (c + (y - unat (rc_top (db_bbox (dcp_base v))))) * unat (bh_stride (bm_header b))
             + (a + (x - unat (rc_left (db_bbox (dcp_base v))))) * 4)) s s'"
  proof (rule drawn_box_cong [OF drawn])
    fix x y assume "(x, y) \<in> nat_box (image_dest (dcp_base v) w h)"
    from image_dest_offset [OF this] crop_area_fits [OF cr] show "pix ((c + (y - unat (rc_top (db_bbox (dcp_base v))))) * unat (di_width img)
                 + (a + (x - unat (rc_left (db_bbox (dcp_base v)))))) (di_pixels img) = bgr_pixel (bh_format (bm_header b)) (bm_data b)
           (bitmap_row (bm_header b) (c + (y - unat (rc_top (db_bbox (dcp_base v))))) * unat (bh_stride (bm_header b))
             + (a + (x - unat (rc_left (db_bbox (dcp_base v))))) * 4)"
      by (intro px [rule_format]) linarith+
  qed
  then show ?thesis using es unfolding draw_copy_image [OF assms(1,2)] by blast
qed

definition demo_bitmap :: bitmap_payload where
  "demo_bitmap = \<lparr>bm_header = \<lparr>bh_format = BIT32, bh_flags = 0, bh_x = 2, bh_y = 2, bh_stride = 12, bh_palette = PalNone\<rparr>,
     bm_data = [1, 2, 3, 0, 4, 5, 6, 0, 99, 99, 99, 99, 7, 8, 9, 0, 10, 11, 12, 0, 99, 99, 99, 99]\<rparr>"

definition demo_image :: spice_image where
  "demo_image = \<lparr>si_descriptor = \<lparr>idsc_image_id = 5, idsc_image_type = 0, idsc_flags = 1, idsc_width = 2, idsc_height = 2\<rparr>,
     si_payload = IBitmap demo_bitmap\<rparr>"

definition demo_draw :: draw_copy where
  "demo_draw =
     \<lparr>dcp_base = \<lparr>db_surface_id = 0,
        db_bbox = \<lparr>rc_top = 0, rc_left = 0, rc_bottom = 2, rc_right = 2\<rparr>, db_clip = Clip_none\<rparr>,
      dcp_src_bitmap = Some demo_image,
      dcp_src_area = \<lparr>rc_top = 0, rc_left = 0, rc_bottom = 2, rc_right = 2\<rparr>,
      dcp_rop_descriptor = 8, dcp_scale_mode = 0,
      dcp_mask = \<lparr>q_flags = 0, q_pos = \<lparr>pt_x = 0, pt_y = 0\<rparr>, q_bitmap = None\<rparr>\<rparr>"

lemma demo_bitmap_shown: "bitmap_shown demo_bitmap"
  by (simp add: bitmap_shown_def demo_bitmap_def rgba_len_def Let_def MAX_IMAGE_DIMENSION_def MAX_IMAGE_PIXELS_def)

lemma demo_draw_ok: "DrawCopy_ok demo_draw"
  by (simp add: DrawCopy_ok_def DrawCopy_write_eq image_bytes_def spice_copy.length_wr demo_draw_def demo_image_def demo_bitmap_def
      Clip_ok_def Clip_none_def copy_image_ok_def SpiceImage_ok_def matches_type_def ImageType_from_u8_def SpiceImage_write_def
      image_descriptor.length_wr BitmapPayload_write_def BitmapPayload_ok_def BitmapHeader_ok_def BitmapHeader_data_len_def
      BitmapHeader_write_def PAL_FROM_CACHE_def USIZE_MAX_def DrawBase_write_def Clip_write_def rect.length_wr)

theorem draw_copy_bitmap_exact_witness:
  "\<exists>es st' s'. handle_draw_copy demo_codecs (DrawCopy_write demo_draw) demo_images = Inr (es, st')
    \<and> apply_events [(7, 0) \<mapsto> three_rows] es = Some [(7, 0) \<mapsto> s']
    \<and> px s' 0 0 = [9, 8, 7, 255] \<and> px s' 1 1 = [6, 5, 4, 255] \<and> px s' 0 2 = px three_rows 0 2"
proof -
  let ?base = "dcp_base demo_draw" and ?h = "bm_header demo_bitmap"
  have src: "dcp_src_bitmap demo_draw = Some demo_image" "si_payload demo_image = IBitmap demo_bitmap"
    by (simp_all add: demo_draw_def demo_image_def)
  have ok: "surf_ok three_rows" by (simp add: surf_ok_def three_rows_def)
  have key: "(dc_channel_id demo_images, db_surface_id ?base) = (7, 0)" by (simp add: demo_images_def demo_draw_def Let_def)
  have crop: "crop_area (ltrb (dcp_src_area demo_draw)) (bh_x ?h) (bh_y ?h) = (0, 0, unat (2 :: u32), unat (2 :: u32))"
    by (simp add: crop_area_def ltrb_def Let_def demo_draw_def demo_bitmap_def)
  have clip: "clip_area (db_clip ?base) (image_dest ?base 2 2) = Whole"
    by (simp add: clip_area_def demo_draw_def Clip_none_def CLIP_RECTS_def)
  from draw_copy_bitmap_exact [OF demo_draw_ok src demo_bitmap_shown demo_images_ok(1,2) ok, of "[(7, 0) \<mapsto> three_rows]" 0 0 2 2] crop clip
  obtain es st' s' where es: "handle_draw_copy demo_codecs (DrawCopy_write demo_draw) demo_images = Inr (es, st')"
      "apply_events [(7, 0) \<mapsto> three_rows] es = Some [(7, 0) \<mapsto> three_rows, (7, 0) \<mapsto> s']"
    and px: "drawn_box ?base (image_dest ?base 2 2) (\<lambda>x y. bgr_pixel (bh_format ?h) (bm_data demo_bitmap)
           (bitmap_row ?h (0 + (y - unat (rc_top (db_bbox ?base)))) * unat (bh_stride ?h)
             + (0 + (x - unat (rc_left (db_bbox ?base)))) * 4)) three_rows s'"
    unfolding key by auto
  have "px s' 0 0 = [9, 8, 7, 255]" "px s' 1 1 = [6, 5, 4, 255]" "px s' 0 2 = px three_rows 0 2"
    using px [unfolded drawn_box_def, rule_format, of 0 0] px [unfolded drawn_box_def, rule_format, of 1 1]
      px [unfolded drawn_box_def, rule_format, of 0 2]
    by (simp_all add: demo_draw_def demo_bitmap_def image_dest_def saturating_add32_def nat_box_def clip_allows_def
        Clip_none_def CLIP_RECTS_def bitmap_row_def bgr_pixel_def BIT32_def FMT_RGBA_def TOP_DOWN_def)
  with es show ?thesis by auto
qed

text \<open>C23: An image drawn with the flag that asks the client to cache it, and small enough for the cache, can be drawn again by
  its id alone: a later draw of the same box from the cache emits exactly the events of the first draw, whatever the encoding
  the image first came in and whatever bytes follow the second descriptor.\<close>

theorem cached_image_redrawn:
  assumes "lz4_contract (cd_lz4 cd) dec" and "lru_laws None (cd_lru cd)" and "cache_ok cd st"
    and "\<not> is_glz d1" and "idsc_flags d1 AND (IMAGE_FLAGS_CACHE_ME OR IMAGE_FLAGS_CACHE_REPLACE_ME) \<noteq> 0"
    and dec: "decode_image cd d1 image_data st = Inr (Some img, st1)"
    and fit: "length (di_pixels img) \<le> bl_cap_bytes (ic_inner (dc_image_cache st1))"
    and d2: "ImageType_from_u8 (idsc_image_type d2) \<in> {Some FromCache, Some FromCacheLossless}"
      "idsc_image_id d2 = idsc_image_id d1" "idsc_width d2 = di_width img" "idsc_height d2 = di_height img"
  shows "\<exists>es st2 st3. decode_image_and_emit cd base d1 image_data src_area composite st = Inr (es, st2)
    \<and> decode_image_and_emit cd base d2 other_data src_area composite st2 = Inr (es, st3)"
proof -
  have "image_ok img" using decode_image_result [OF assms(1), of d1 image_data st] dec by simp
  then have len: "rgba_len (unat (di_width img)) (unat (di_height img)) = Some (length (di_pixels img))" by (simp add: image_ok_def)
  note ok1 = decode_image_cache [OF assms(2,3) dec]
  from ok1 ic_insert_ok [OF assms(2), of "dc_image_cache st1" "idsc_image_id d1" "di_pixels img"] fit obtain ic where
    ic: "keep_image cd d1 img st1 = Inr (st1\<lparr>dc_image_cache := ic\<rparr>)" "cache_ok cd (st1\<lparr>dc_image_cache := ic\<rparr>)"
      "map_of (entries (cd_lru cd) (ic_inner ic)) (idsc_image_id d1) = Some (di_pixels img)"
    using assms(4,5) by (auto simp: keep_image_def cache_ok_def)
  let ?img2 = "\<lparr>di_width = di_width img, di_height = di_height img, di_pixels = di_pixels img,
    di_image_id = idsc_image_id d1, di_win_head_dist = 0\<rparr>"
  have new: "DecompressedImage_new (di_width img) (di_height img) (di_pixels img) (idsc_image_id d1) = Some ?img2"
    using len by (simp add: DecompressedImage_new_def DecompressedImage_new_glz_def)
  obtain st2 where dec2: "decode_image cd d2 other_data (st1\<lparr>dc_image_cache := ic\<rparr>) = Inr (Some ?img2, st2)"
    using d2 ic(3) ic_get_ok [OF assms(2), of ic "idsc_image_id d1"] ic(2) len new
    by (cases "ic_get (cd_lru cd) ic (idsc_image_id d1)") (auto simp: decode_image_def decode_from_cache_def cache_ok_def)
  note ok2 = decode_image_cache [OF assms(2) ic(2) dec2]
  have glz2: "\<not> is_glz d2" using d2(1) by (auto simp: is_glz_def)
  from keep_image_cache [OF assms(2) conjunct1 [OF ok2] glz2, of ?img2] obtain st3 where
    st3: "keep_image cd d2 ?img2 st2 = Inr st3" "dc_channel_id st3 = dc_channel_id st1" using ok2 by auto
  obtain es where es: "emit_image composite (dc_channel_id st1) base src_area img (idsc_image_id d1) = Some es"
    using emit_image_total [OF \<open>image_ok img\<close>] by blast
  then have "emit_image composite (dc_channel_id st1) base src_area ?img2 (idsc_image_id d1) = Some es"
    by (simp add: emit_image_def)
  with es dec dec2 ic(1) st3 d2(2) assms(4) glz2 show ?thesis
    by (auto simp: decode_image_and_emit_def bindE_simps)
qed

theorem cached_image_redrawn_witness:
  "\<exists>es st2 st3. decode_image_and_emit demo_codecs (dcp_base demo_draw) (si_descriptor demo_image) (drop 18 (SpiceImage_write demo_image))
      (dcp_src_area demo_draw) Overwrite demo_images = Inr (es, st2)
    \<and> decode_image_and_emit demo_codecs (dcp_base demo_draw)
        \<lparr>idsc_image_id = 5, idsc_image_type = 103, idsc_flags = 0, idsc_width = 2, idsc_height = 2\<rparr> []
        (dcp_src_area demo_draw) Overwrite st2 = Inr (es, st3)"
proof -
  have im: "SpiceImage_ok demo_image" "si_payload demo_image = IBitmap demo_bitmap"
    using demo_draw_ok by (simp_all add: DrawCopy_ok_def copy_image_ok_def demo_draw_def, simp add: demo_image_def)
  from decode_shown_bitmap [OF im demo_bitmap_shown, of demo_codecs demo_images] obtain img where
    img: "decode_image demo_codecs (si_descriptor demo_image) (drop 18 (SpiceImage_write demo_image)) demo_images = Inr (Some img, demo_images)"
      "di_width img = 2" "di_height img = 2" "image_ok img" by (auto simp: demo_bitmap_def)
  have "length (di_pixels img) \<le> bl_cap_bytes (ic_inner (dc_image_cache demo_images))"
    using img(2-4) by (simp add: image_ok_def rgba_len_Some demo_images_def Let_def)
  then show ?thesis
    by (intro cached_image_redrawn [OF demo_images_ok(3,1,2) _ _ img(1)])
      (simp_all add: img demo_image_def is_glz_def ImageType_from_u8_def IMAGE_FLAGS_CACHE_ME_def IMAGE_FLAGS_CACHE_REPLACE_ME_def)
qed

end
