(* ===== verification/Spec2Isabelle.thy ===== *)
theory Spec2Isabelle
  imports Receive_Buffer Messages_Main Messages_Inputs Messages_Playback Messages_Cursor
    Agent_Stream Agent_Queue Usbredir Webdav_Mux Lz Damage Draw_Copy Byte_Lru Glz Clip_Area Surface Draw_Handlers Lz4 Quic_Safe
    Draw_Images
begin

text \<open>
  A verification development of ryll, a client for the SPICE remote desktop protocol written in Rust.
  Paths are relative to the repository's root.

  \<^bold>\<open>The program.\<close> A session is a set of channels, each a socket to the server. A channel task puts the
  bytes it reads in a \<open>ReceiveBuffer\<close> (\<open>shakenfist-spice-protocol\<close>), takes whole messages out of it and
  decodes their bodies with a \<open>BoundedReader\<close>. The display channel (\<open>shakenfist-spice-renderer\<close>) decodes
  the images of its draws with \<open>shakenfist-spice-compression\<close>, reduces their clips and emits events; a
  \<open>SurfaceMirror\<close> applies the events to pixel buffers and records damage for the frontends. The main
  channel carries a byte stream to and from the guest agent, the usbredir and WebDAV channels carry
  streams of their own framing. The frontends (desktop, web, RDP) are adapters around these parts.

  \<^bold>\<open>Conventions.\<close> A struct is a \<open>record\<close>, an enum a \<open>datatype\<close>, an integer of \<open>w\<close> bits a word of that
  length (a signed one is read with \<open>sint\<close>), a \<open>usize\<close> a \<open>nat\<close> with its 64-bit bound written out where
  the code depends on it, a \<open>Vec<u8>\<close> the list of its bytes. A method on \<open>&mut self\<close> takes the state and
  returns the new one. \<open>Err\<close> is \<open>Inl\<close>; a panic is \<open>None\<close> or an error value of its own, so that a
  theorem that an operation yields \<open>Some\<close> or does not yield the panic says that it does not panic. Logging and
  statistics that nothing else reads are left out. Third-party code is an argument of the definitions
  that call it, with what is assumed of it as a named predicate.

  \<^bold>\<open>Theories.\<close>

  \<^item> \<open>Prelude\<close>: machine integers, byte encodings, results; the collections \<open>codec_defs\<close>, \<open>parse_iff\<close> and
    \<open>exact_intros\<close> that carry the message proofs.
  \<^item> \<open>Reader\<close>, \<open>Wire\<close> (\<open>reader.rs\<close>, \<open>parse.rs\<close>, \<open>messages/mod.rs\<close>): the reader over untrusted bytes. The
    locales \<open>wire_body\<close>, \<open>wire_type\<close>, \<open>wire_codec\<close> and \<open>fixed_wire\<close> state what a message's reader and writer
    promise each other (reading what was written, exact length, no two values with one encoding); every
    message interprets the strongest one it satisfies.
  \<^item> \<open>Messages_Common\<close>, \<open>Messages_Main\<close>, \<open>Messages_Inputs\<close>, \<open>Messages_Playback\<close>, \<open>Messages_Cursor\<close>,
    \<open>Messages_Display\<close>, \<open>Messages_Draw\<close>, \<open>Messages_VdAgent\<close>, with \<open>Utf8\<close> for the agent's texts: the messages
    of \<open>messages/*.rs\<close>, in the order of the files.
  \<^item> \<open>Draw_Copy\<close> (\<open>messages/display.rs\<close>): the draw whose images are found through pointers into its own
    message, its reader and its builder.
  \<^item> \<open>Framing\<close>: the locale \<open>framer\<close> of a parser that cuts messages off a byte stream, and the lemma that
    feeding it in pieces is feeding it at once. \<open>Receive_Buffer\<close> (\<open>messages/common.rs\<close>), \<open>Usbredir\<close>
    (\<open>shakenfist-spice-usbredir\<close>) and \<open>Webdav_Mux\<close> (\<open>webdav/mux.rs\<close>) interpret it.
  \<^item> \<open>Agent_Stream\<close> (\<open>messages/agent_stream.rs\<close>), \<open>Agent_Queue\<close> (\<open>channels/agent_queue.rs\<close>): the agent's
    messages cut into chunks under a token window, and put together again.
  \<^item> \<open>Image\<close>, \<open>Lz\<close>, \<open>Lz4\<close>, \<open>Byte_Lru\<close>, \<open>Glz_Dictionary\<close>, \<open>Glz\<close> (\<open>shakenfist-spice-compression\<close>): image limits
    and the decoders, panics included. The GLZ decoder waits for images other channels decode; what they do
    to the shared dictionary at each lock acquisition is an argument. An insert in the dictionary is three steps,
    one for each of its locks, and \<open>gd_run\<close> interleaves the steps of several channels.
  \<^item> \<open>Jpeg\<close> (\<open>jpeg.rs\<close>): the JPEG decoder's checks, its five backends and the choice of one. Each call into a
    crate or a system library is an argument that may return, fail or panic; the panics of mozjpeg are caught.
  \<^item> \<open>Quic_Bits\<close>, \<open>Quic_Golomb\<close>, \<open>Quic\<close>, \<open>Quic_Rows\<close>, \<open>Quic_Safe\<close> (\<open>quic.rs\<close>): the QUIC decoder, from its bit
    reader and Golomb-Rice codes over the adaptive models to the row decoders. Every index, shift and
    subtraction of it is checked in the model, and \<open>safe\<close> has a rule for each way computations are combined.
  \<^item> \<open>Damage\<close>, \<open>Clip_Area\<close>, \<open>Surface\<close> (\<open>shakenfist-spice-renderer/src/display\<close>): damage regions, the reduction
    of a clip to disjoint boxes, and every drawing operation on the pixel buffer. The locales \<open>painter\<close> and
    \<open>pixel_painter\<close> share the loops over rows and clip rectangles.
  \<^item> \<open>Surface_Mirror\<close> (\<open>surface_mirror.rs\<close>), \<open>Draw_Handlers\<close> (\<open>channels/display.rs\<close>): the events of a draw and
    their effect on the mirror, from the message's payload to the pixels.
  \<^item> \<open>Draw_Images\<close> (\<open>channels/display.rs\<close>, \<open>image_cache.rs\<close>): the draws of an image. It composes the message
    readers, all the decoders, the image cache, the GLZ dictionary and the mirror.

  \<^bold>\<open>What is shown.\<close> Of the streams: any cutting into reads gives the same messages, messages come back
  as they were sent, queued agent messages leave whole and in order and all leave given enough tokens, an
  oversized or foreign agent message is skipped exactly. Of the messages: each reader inverts its writer,
  pointers of a draw stay inside the message behind its fixed part. Of the decoders: a well-formed token
  stream decodes to the pixels it denotes, an image has the size it claims, the in-place conversion equals
  the row-wise one, the QUIC bit reader is a window on the bits, its code words are inverted, and the QUIC decoder
  returns without a panic whatever the data; every image the dispatch on the encoding yields has the buffer its size
  needs, and only the LZ family and an uncaught panic of a JPEG library can end the client there. Of the display: a bitmap in a draw's message ends up on the surface pixel for pixel, a cached image is redrawn by its id, the boxes of a clip are disjoint and exact, a draw changes exactly the
  pixels its box and clip allow, no event sequence panics, damage covers every change. Of the caches: an
  insert keeps the longest recent suffix that fits, the byte count is exact and the eviction loop never comes to
  the branch that asserts it is not; an image of the GLZ dictionary is not marked as evicted once its insert is
  done, unless another channel had evicted it and not yet recorded that. Three properties state what the
  code does wrong: a back-reference that panics the LZ decoder, an insert the GLZ wait misses, a
  scroll that smears through a clip of several boxes. \<open>glz_tombstone_overtaken\<close> is a fourth, the schedule of two
  inserts after which a live image is marked as evicted.

  \<^bold>\<open>Bounds and fuel.\<close> Loops are structural or have a measure: the bytes left for the parsers and the
  decoders, the rectangles left for the clip sweep. No fuel is used. The eviction loop of the byte-bounded
  cache and the loop that cuts the QUIC levels into buckets are \<open>partial_function\<close>s into \<open>option\<close>; that they return
  is proved. The QUIC row loop ends because a run is never read twice at one pixel. Sizes are those of the code: sides of
  16384 and 64 Mi pixels for images, 32 damage rectangles, the clip limit, 64 KiB of LZ4 history.

  \<^bold>\<open>Not modelled.\<close> Sockets, TLS and the async runtime; the desktop, web, WebRTC and RDP frontends, which adapt
  libraries outside the repository; video and audio codecs and the probe of VA-API, likewise; the control socket
  (JSON through a library); the session's orchestration, logs, metrics and bug reports.
\<close>

end
